(* ===== verification/Talus_Prelude.thy ===== *)
theory Talus_Prelude
  imports Complex_Main "HOL-Library.AList" "HOL-Library.Multiset"
begin

text \<open>
  Shared vocabulary of the development.

  \<^item> Go's \<^verbatim>\<open>time.Time\<close> is an \<open>int\<close>: nanoseconds since the instant of
    \<^verbatim>\<open>time.Time{}\<close>, so that \<^verbatim>\<open>IsZero\<close> is equality with 0.
    \<^verbatim>\<open>time.Duration\<close> is an \<open>int\<close> of nanoseconds; \<^verbatim>\<open>Time.Sub\<close> saturates at
    the int64 range and products of durations wrap, both written out below.
  \<^item> A Go map is an association list with distinct keys. Its list order is the order in
    which a \<^verbatim>\<open>range\<close> loop visits it, which Go leaves open: no theorem fixes it.
    The locale \<open>go_map\<close> states the laws the components use.
  \<^item> A heap of objects that are shared by pointer is a list; a pointer is a position in
    it, allocation appends, and an update through a pointer is \<open>xs[i := x]\<close>.
  \<^item> A buffered channel used as a set of slots is the number of tokens in it; the locale
    \<open>slot_channel\<close> states its laws.
  \<^item> A component whose operations interleave is a transition system; the locale
    \<open>transition_system\<close> turns invariance of one step into invariance of every
    reachable state.
\<close>

section \<open>Collections and basic types\<close>

named_theorems map_laws \<open>laws of Go maps\<close>
named_theorems count_laws \<open>counting objects of a heap\<close>

type_synonym uint = nat
type_synonym time = int
type_synonym duration = int
type_synonym bytes = "char list"

section \<open>Time and machine integers\<close>

definition second :: duration where
  "second = 1000000000"

definition millisecond :: duration where
  "millisecond = 1000000"

definition minute :: duration where
  "minute = 60 * second"

definition hour :: duration where
  "hour = 60 * minute"

lemmas duration_units = second_def millisecond_def minute_def hour_def

definition max_int64 :: int where
  "max_int64 = 9223372036854775807"

definition min_int64 :: int where
  "min_int64 = - 9223372036854775808"

definition IsZero :: "time \<Rightarrow> bool" where
  "IsZero t \<longleftrightarrow> t = 0"

definition After :: "time \<Rightarrow> time \<Rightarrow> bool" where
  "After t u \<longleftrightarrow> u < t"

definition Before :: "time \<Rightarrow> time \<Rightarrow> bool" where
  "Before t u \<longleftrightarrow> t < u"

definition Add :: "time \<Rightarrow> duration \<Rightarrow> time" where
  "Add t d = t + d"

text \<open>\<^verbatim>\<open>Time.Sub\<close> returns the nearest representable duration.\<close>

definition Sub :: "time \<Rightarrow> time \<Rightarrow> duration" where
  "Sub t u = max min_int64 (min max_int64 (t - u))"

lemmas time_defs [simp] = IsZero_def After_def Before_def Add_def

lemma Sub_exact: "min_int64 \<le> t - u \<Longrightarrow> t - u \<le> max_int64 \<Longrightarrow> Sub t u = t - u"
  by (simp add: Sub_def)

lemma Sub_le: "u \<le> t \<Longrightarrow> Sub t u \<le> t - u"
  by (simp add: Sub_def min_int64_def max_int64_def)

lemma Sub_nonneg: "u \<le> t \<Longrightarrow> 0 \<le> Sub t u"
  by (simp add: Sub_def min_int64_def max_int64_def)

text \<open>Two's-complement wrap-around of an int64 result.\<close>

definition wrap64 :: "int \<Rightarrow> int" where
  "wrap64 x = (x + 9223372036854775808) mod 18446744073709551616 - 9223372036854775808"

lemma wrap64_id: "min_int64 \<le> x \<Longrightarrow> x \<le> max_int64 \<Longrightarrow> wrap64 x = x"
  by (simp add: wrap64_def min_int64_def max_int64_def)

lemma wrap64_range: "min_int64 \<le> wrap64 x \<and> wrap64 x \<le> max_int64"
proof -
  have "0 \<le> (x + 9223372036854775808) mod 18446744073709551616"
    and "(x + 9223372036854775808) mod 18446744073709551616 < 18446744073709551616"
    by simp_all
  then show ?thesis by (simp add: wrap64_def min_int64_def max_int64_def)
qed

text \<open>Go's integer division truncates towards zero; a zero divisor panics, so every use
  below is under a guard that excludes it.\<close>

definition go_div :: "int \<Rightarrow> int \<Rightarrow> int" where
  "go_div a b = sgn a * sgn b * (\<bar>a\<bar> div \<bar>b\<bar>)"

lemma go_div_nonneg: "0 \<le> a \<Longrightarrow> 0 < b \<Longrightarrow> go_div a b = a div b"
  by (cases "a = 0") (simp_all add: go_div_def)

text \<open>A float64 operation is the rational operation followed by rounding. Rounding is a
  parameter \<open>rnd\<close> of the definitions that compute with floats; conversion to an integer
  truncates towards zero.\<close>

type_synonym rounding = "rat \<Rightarrow> rat"

definition trunc_rat :: "rat \<Rightarrow> int" where
  "trunc_rat x = (if 0 \<le> x then \<lfloor>x\<rfloor> else \<lceil>x\<rceil>)"

section \<open>Go maps\<close>

type_synonym ('k, 'v) gomap = "('k \<times> 'v) list"

abbreviation mget :: "('k, 'v) gomap \<Rightarrow> 'k \<Rightarrow> 'v option" where
  "mget \<equiv> map_of"

abbreviation mput :: "'k \<Rightarrow> 'v \<Rightarrow> ('k, 'v) gomap \<Rightarrow> ('k, 'v) gomap" where
  "mput \<equiv> AList.update"

abbreviation mdel :: "'k \<Rightarrow> ('k, 'v) gomap \<Rightarrow> ('k, 'v) gomap" where
  "mdel \<equiv> AList.delete"

abbreviation mkeys :: "('k, 'v) gomap \<Rightarrow> 'k list" where
  "mkeys m \<equiv> map fst m"

definition mok :: "('k, 'v) gomap \<Rightarrow> bool" where
  "mok m \<longleftrightarrow> distinct (mkeys m)"

text \<open>The laws of a finite map with a length, as the components use them.\<close>

locale go_map =
  fixes get :: "'m \<Rightarrow> 'k \<Rightarrow> 'v option"
    and put :: "'k \<Rightarrow> 'v \<Rightarrow> 'm \<Rightarrow> 'm"
    and del :: "'k \<Rightarrow> 'm \<Rightarrow> 'm"
    and len :: "'m \<Rightarrow> nat"
    and empty :: "'m"
    and ok :: "'m \<Rightarrow> bool"
  assumes get_empty: "get empty k = None"
    and len_empty: "len empty = 0"
    and ok_empty: "ok empty"
    and get_put: "get (put k v m) j = (if j = k then Some v else get m j)"
    and get_del: "get (del k m) j = (if j = k then None else get m j)"
    and ok_put: "ok m \<Longrightarrow> ok (put k v m)"
    and ok_del: "ok m \<Longrightarrow> ok (del k m)"
    and len_put: "ok m \<Longrightarrow> len (put k v m) = (if get m k = None then Suc (len m) else len m)"
    and len_del: "ok m \<Longrightarrow> len (del k m) = (if get m k = None then len m else len m - 1)"
    and len_pos: "get m k \<noteq> None \<Longrightarrow> 0 < len m"
begin

lemma get_put_same: "get (put k v m) k = Some v"
  by (simp add: get_put)

lemma get_put_other: "j \<noteq> k \<Longrightarrow> get (put k v m) j = get m j"
  by (simp add: get_put)

lemma get_del_same: "get (del k m) k = None"
  by (simp add: get_del)

lemma len_del_le: "ok m \<Longrightarrow> len (del k m) \<le> len m"
  by (simp add: len_del)

lemma len_put_del: "ok m \<Longrightarrow> len (put k v (del k m)) = Suc (len (del k m))"
  by (simp add: len_put ok_del get_del)

lemma len_put_le: "ok m \<Longrightarrow> len (put k v m) \<le> Suc (len m)"
  by (simp add: len_put)

end

lemma delete_absent: "k \<notin> set (mkeys m) \<Longrightarrow> mdel k m = m"
  by (induction m) auto

lemma length_delete_distinct:
  "distinct (map fst m) \<Longrightarrow>
     length (mdel k m) = (if map_of m k = None then length m else length m - 1)"
proof (induction m)
  case Nil
  then show ?case by simp
next
  case (Cons p m)
  show ?case
  proof (cases "fst p = k")
    case True
    with Cons.prems show ?thesis by (cases p) (simp add: delete_absent)
  next
    case False
    have "map_of m k \<noteq> None \<Longrightarrow> 0 < length m" by (cases m) auto
    with False Cons show ?thesis by (cases p) auto
  qed
qed

lemma length_update:
  "length (mput k v m) = (if map_of m k = None then Suc (length m) else length m)"
  by (induction m) auto

interpretation gm: go_map map_of AList.update AList.delete length "[]" mok
proof
  fix k and m :: "('a \<times> 'b) list"
  show "map_of m k \<noteq> None \<Longrightarrow> 0 < length m" by (cases m) auto
qed (simp_all add: mok_def update_conv' delete_conv' distinct_update distinct_delete
       length_update length_delete_distinct)

lemmas gm_laws [map_laws, simp] =
  gm.get_put gm.get_del gm.ok_put gm.ok_del gm.ok_empty gm.len_put gm.len_del

lemma mget_keys: "mget m k = None \<longleftrightarrow> k \<notin> fst ` set m"
  by (simp add: map_of_eq_None_iff)

lemma keys_put [simp]: "fst ` set (mput k v m) = insert k (fst ` set m)"
  by (induction m) auto

lemma keys_del [simp]: "fst ` set (mdel k m) = fst ` set m - {k}"
  by (induction m) auto

text \<open>Sums over the values of a map.\<close>

definition msum :: "('v \<Rightarrow> int) \<Rightarrow> ('k, 'v) gomap \<Rightarrow> int" where
  "msum f m = sum_list (map (f \<circ> snd) m)"

lemma msum_Nil [simp]: "msum f [] = 0"
  by (simp add: msum_def)

lemma msum_put_new: "mget m k = None \<Longrightarrow> msum f (mput k v m) = msum f m + f v"
  by (induction m) (auto simp: msum_def)

lemma msum_put_old: "mok m \<Longrightarrow> mget m k = Some w \<Longrightarrow> msum f (mput k v m) = msum f m - f w + f v"
  by (induction m) (auto simp: msum_def mok_def split: if_splits)

lemma msum_del: "mok m \<Longrightarrow> mget m k = Some w \<Longrightarrow> msum f (mdel k m) = msum f m - f w"
proof (induction m)
  case Nil
  then show ?case by simp
next
  case (Cons p m)
  show ?case
  proof (cases "fst p = k")
    case True
    with Cons.prems show ?thesis by (cases p) (simp add: msum_def mok_def delete_absent)
  next
    case False
    with Cons show ?thesis by (cases p) (auto simp: msum_def mok_def)
  qed
qed

lemma msum_nonneg: "(\<And>v. 0 \<le> f v) \<Longrightarrow> 0 \<le> msum f m"
  by (auto simp: msum_def intro!: sum_list_nonneg)

section \<open>Heaps of shared objects\<close>

definition count_if :: "('a \<Rightarrow> bool) \<Rightarrow> 'a list \<Rightarrow> nat" where
  "count_if P xs = length (filter P xs)"

lemma count_if_Nil [simp, count_laws]: "count_if P [] = 0"
  by (simp add: count_if_def)

lemma count_if_append [simp, count_laws]: "count_if P (xs @ ys) = count_if P xs + count_if P ys"
  by (simp add: count_if_def)

lemma count_if_Cons [simp, count_laws]:
  "count_if P (x # xs) = (if P x then Suc (count_if P xs) else count_if P xs)"
  by (simp add: count_if_def)

lemma count_if_pos: "i < length xs \<Longrightarrow> P (xs ! i) \<Longrightarrow> 0 < count_if P xs"
  by (auto simp: count_if_def filter_empty_conv)

lemma count_if_update [count_laws]:
  "i < length xs \<Longrightarrow> count_if P (xs[i := x]) + (if P (xs ! i) then 1 else 0) =
     count_if P xs + (if P x then 1 else 0)"
proof (induction xs arbitrary: i)
  case Nil
  then show ?case by simp
next
  case (Cons y ys)
  then show ?case by (cases i) auto
qed

lemma count_if_zero: "count_if P xs = 0 \<longleftrightarrow> (\<forall>x \<in> set xs. \<not> P x)"
  by (auto simp: count_if_def filter_empty_conv)

lemma count_if_le_length: "count_if P xs \<le> length xs"
  by (simp add: count_if_def)

section \<open>Slots: buffered channels as counting semaphores\<close>

text \<open>\<^verbatim>\<open>select { case ch <- struct{}{}: ... default: ... }\<close> and \<^verbatim>\<open><-ch\<close> on a
  buffered channel that only carries tokens: its length is all there is to it.\<close>

definition chan_take :: "nat \<Rightarrow> nat \<Rightarrow> nat option" where
  "chan_take cap n = (if n < cap then Some (Suc n) else None)"

definition chan_release :: "nat \<Rightarrow> nat option" where
  "chan_release n = (case n of 0 \<Rightarrow> None | Suc k \<Rightarrow> Some k)"

locale slot_channel =
  fixes take_slot :: "'c \<Rightarrow> 'c option"
    and release_slot :: "'c \<Rightarrow> 'c option"
    and used :: "'c \<Rightarrow> nat"
    and cap :: nat
  assumes take_used: "take_slot c = Some c' \<Longrightarrow> used c' = Suc (used c) \<and> used c < cap"
    and take_full: "take_slot c = None \<longleftrightarrow> cap \<le> used c"
    and release_used: "release_slot c = Some c' \<Longrightarrow> used c = Suc (used c')"
    and release_empty: "release_slot c = None \<longleftrightarrow> used c = 0"
begin

lemma take_within_cap: "take_slot c = Some c' \<Longrightarrow> used c' \<le> cap"
  using take_used [of c c'] by simp

lemma release_after_take: "take_slot c = Some c' \<Longrightarrow> release_slot c' \<noteq> None"
  using take_used [of c c'] release_empty [of c'] by simp

end

interpretation ch: slot_channel "chan_take cap" chan_release "\<lambda>n. n" cap for cap
  by unfold_locales
    (auto simp: chan_take_def chan_release_def split: if_splits nat.splits)

section \<open>Transition systems\<close>

inductive reach :: "('s \<Rightarrow> bool) \<Rightarrow> ('s \<Rightarrow> 's \<Rightarrow> bool) \<Rightarrow> 's \<Rightarrow> bool" for init step where
  reach_init: "init s \<Longrightarrow> reach init step s"
| reach_step: "reach init step s \<Longrightarrow> step s t \<Longrightarrow> reach init step t"

locale transition_system =
  fixes init :: "'s \<Rightarrow> bool"
    and step :: "'s \<Rightarrow> 's \<Rightarrow> bool"
    and inv :: "'s \<Rightarrow> bool"
  assumes inv_init: "init s \<Longrightarrow> inv s"
    and inv_step: "inv s \<Longrightarrow> step s t \<Longrightarrow> inv t"
begin

lemma reach_inv: "reach init step s \<Longrightarrow> inv s"
  by (induction rule: reach.induct) (auto intro: inv_init inv_step)

lemma steps_inv: "step\<^sup>*\<^sup>* s t \<Longrightarrow> inv s \<Longrightarrow> inv t"
  by (induction rule: rtranclp_induct) (auto intro: inv_step)

end

end
