(* ===== verification/Go_Strings.thy ===== *)
theory Go_Strings
  imports Talus_Prelude
begin

text \<open>
  The functions of Go's \<^verbatim>\<open>strings\<close> and \<^verbatim>\<open>strconv\<close> packages the components use, on strings
  as lists of bytes, with their round trips.
\<close>

section \<open>Split and join\<close>

fun split_char :: "char \<Rightarrow> string \<Rightarrow> string list" where
  "split_char c [] = [[]]"
| "split_char c (x # xs) =
     (if x = c then [] # split_char c xs
      else case split_char c xs of [] \<Rightarrow> [[x]] | h # t \<Rightarrow> (x # h) # t)"

fun join_char :: "char \<Rightarrow> string list \<Rightarrow> string" where
  "join_char c [] = []"
| "join_char c [s] = s"
| "join_char c (s # t # ss) = s @ c # join_char c (t # ss)"

lemma split_char_not_Nil [simp]: "split_char c s \<noteq> []"
  by (induction s) (auto split: list.splits)

lemma join_char_Cons: "ss \<noteq> [] \<Longrightarrow> join_char c (s # ss) = s @ c # join_char c ss"
  by (cases ss) auto

lemma join_split: "join_char c (split_char c s) = s"
proof (induction s)
  case (Cons x xs)
  show ?case
  proof (cases "split_char c xs")
    case (Cons h t)
    then show ?thesis using Cons.IH by (cases t) auto
  qed simp
qed simp

lemma join_char_append: "xs \<noteq> [] \<Longrightarrow> ys \<noteq> [] \<Longrightarrow> join_char c (xs @ ys) = join_char c xs @ c # join_char c ys"
  by (induction c xs rule: join_char.induct) (auto simp: join_char_Cons)

lemma split_char_free: "c \<notin> set s \<Longrightarrow> split_char c s = [s]"
  by (induction s) auto

lemma split_char_append: "c \<notin> set s \<Longrightarrow> split_char c (s @ c # t) = s # split_char c t"
  by (induction s) auto

lemma split_join: "ss \<noteq> [] \<Longrightarrow> \<forall>s\<in>set ss. c \<notin> set s \<Longrightarrow> split_char c (join_char c ss) = ss"
  by (induction c ss rule: join_char.induct) (auto simp: split_char_free split_char_append)

lemma join_char_last:
  "ss \<noteq> [] \<Longrightarrow> \<forall>s\<in>set ss. s \<noteq> [] \<Longrightarrow> join_char c ss \<noteq> [] \<and> last (join_char c ss) = last (last ss)"
  by (induction c ss rule: join_char.induct) auto

lemma split_parts_free: "s \<in> set (split_char c x) \<Longrightarrow> c \<notin> set s"
  by (induction x arbitrary: s) (auto split: if_splits list.splits)

section \<open>Trimming\<close>

text \<open>\<^verbatim>\<open>strings.TrimRight(s, c)\<close> for one character, \<^verbatim>\<open>strings.TrimSpace\<close> on ASCII white space.\<close>

definition trim_right :: "(char \<Rightarrow> bool) \<Rightarrow> string \<Rightarrow> string" where
  "trim_right P s = rev (dropWhile P (rev s))"

definition is_space :: "char \<Rightarrow> bool" where
  "is_space c = (c \<in> {CHR '' '', CHR 0x09, CHR 0x0A, CHR 0x0B, CHR 0x0C, CHR 0x0D})"

definition TrimSpace :: "string \<Rightarrow> string" where
  "TrimSpace s = trim_right is_space (dropWhile is_space s)"

lemma trim_right_last: "trim_right P s = [] \<or> \<not> P (last (trim_right P s))"
  unfolding trim_right_def
  using hd_dropWhile [of P "rev s"] by (auto simp: last_rev)

lemma trim_right_id: "s = [] \<or> \<not> P (last s) \<Longrightarrow> trim_right P s = s"
proof (cases s rule: rev_cases)
  case (snoc xs x)
  then show "s = [] \<or> \<not> P (last s) \<Longrightarrow> trim_right P s = s" by (auto simp: trim_right_def)
qed (simp add: trim_right_def)

lemma trim_right_replicate: "s = [] \<or> \<not> P (last s) \<Longrightarrow> P c \<Longrightarrow> trim_right P (s @ replicate n c) = s"
proof -
  assume a: "s = [] \<or> \<not> P (last s)" "P c"
  have "dropWhile P (replicate n c @ rev s) = dropWhile P (rev s)"
    by (rule dropWhile_append2) (use a(2) in auto)
  then show ?thesis using trim_right_id [of s P, OF a(1)] by (simp add: trim_right_def)
qed

section \<open>Prefixes\<close>

definition HasPrefix :: "string \<Rightarrow> string \<Rightarrow> bool" where
  "HasPrefix s p = (take (length p) s = p)"

definition TrimPrefix :: "string \<Rightarrow> string \<Rightarrow> string" where
  "TrimPrefix s p = (if HasPrefix s p then drop (length p) s else s)"

lemma HasPrefix_iff: "HasPrefix s p \<longleftrightarrow> (\<exists>t. s = p @ t)"
  unfolding HasPrefix_def by (metis append_eq_conv_conj)

section \<open>Decimal digits\<close>

definition is_digit :: "char \<Rightarrow> bool" where
  "is_digit c = (of_char c - (48::nat) < 10 \<and> 48 \<le> (of_char c :: nat))"

definition digit_char :: "nat \<Rightarrow> char" where
  "digit_char d = char_of (48 + d)"

fun FormatUint :: "nat \<Rightarrow> string" where
  "FormatUint n = (if n < 10 then [digit_char n] else FormatUint (n div 10) @ [digit_char (n mod 10)])"

declare FormatUint.simps [simp del]

definition digits_value :: "string \<Rightarrow> nat" where
  "digits_value s = foldl (\<lambda>n c. n * 10 + (of_char c - 48)) 0 s"

text \<open>\<^verbatim>\<open>strconv.ParseUint(s, 10, bits)\<close>.\<close>

definition ParseUint :: "string \<Rightarrow> nat \<Rightarrow> nat option" where
  "ParseUint s bits =
     (if s = [] \<or> \<not> list_all is_digit s then None
      else let n = digits_value s in if n < 2 ^ bits then Some n else None)"

lemma of_digit_char: "d < 10 \<Longrightarrow> of_char (digit_char d) = 48 + d"
  by (simp add: digit_char_def)

lemma FormatUint_digits: "list_all is_digit (FormatUint n) \<and> FormatUint n \<noteq> []"
proof (induction n rule: FormatUint.induct)
  case (1 n)
  have d: "is_digit (digit_char k)" if "k < 10" for k using that by (simp add: is_digit_def of_digit_char)
  show ?case using 1 d by (subst (1 2) FormatUint.simps) auto
qed

lemma digits_value_snoc: "digits_value (s @ [c]) = digits_value s * 10 + (of_char c - 48)"
  by (simp add: digits_value_def)

lemma digits_value_FormatUint: "digits_value (FormatUint n) = n"
proof (induction n rule: FormatUint.induct)
  case (1 n)
  show ?case
  proof (cases "n < 10")
    case True
    then show ?thesis by (subst FormatUint.simps) (simp add: digits_value_def of_digit_char)
  next
    case False
    then show ?thesis using 1 by (subst FormatUint.simps) (simp add: digits_value_snoc of_digit_char)
  qed
qed

lemma Parse_Format: "n < 2 ^ bits \<Longrightarrow> ParseUint (FormatUint n) bits = Some n"
  using FormatUint_digits [of n] by (simp add: ParseUint_def digits_value_FormatUint Let_def)

lemma FormatUint_inj: "FormatUint m = FormatUint n \<longleftrightarrow> m = n"
  by (metis digits_value_FormatUint)

end
