(* ===== verification/Agent_Wire.thy ===== *)
theory Agent_Wire
  imports Go_Strings
begin

text \<open>
  The resident agent's protocol, \<^verbatim>\<open>agentwire/wire.go\<close>: the samples, the two messages and the
  checks both ends make on them. A \<^verbatim>\<open>float64\<close> is a finite rational or one of the values
  \<^verbatim>\<open>math.IsNaN\<close> and \<^verbatim>\<open>math.IsInf\<close> recognise; a nil pointer is \<open>None\<close>. \<^verbatim>\<open>url.Parse\<close> is the parameter
  \<open>parse_url\<close> of \<open>validate_config\<close>.
\<close>

section \<open>Data\<close>

definition Protocol :: int where "Protocol = 2"

definition MaxBatch :: int where "MaxBatch = 32"

definition MaxFrame :: int where "MaxFrame = 1048576"

definition MaxAge :: duration where "MaxAge = 24 * hour"

definition MaxQueueBytes :: int where "MaxQueueBytes = 67108864"

datatype float64 = NaN | Inf | Fin rat

datatype wire_error = InvalidSampleID | InvalidBootID | InvalidMetric | InvalidCPU | InvalidCounter
  | UsedExceedsTotal | MetadataTooLong | TooManyErrors | InvalidCollectorError | ErrSampleTime
  | InvalidMessage | HeartbeatSamples | EmptyBatch

record Config =
  HubURL :: string
  Token :: string
  StateDir :: string
  IntervalSeconds :: int
  AllowHTTP :: bool

record Sample =
  ID :: string
  BootID :: string
  Time :: time
  CPU :: "float64 option"
  MemoryUsed :: "int option"
  MemoryTotal :: "int option"
  SwapUsed :: "int option"
  SwapTotal :: "int option"
  DiskUsed :: "int option"
  DiskTotal :: "int option"
  Load1 :: "float64 option"
  Load5 :: "float64 option"
  Load15 :: "float64 option"
  NetRecv :: "int option"
  NetSent :: "int option"
  DiskRead :: "int option"
  DiskWrite :: "int option"
  Uptime :: "int option"
  OS :: "string option"
  CPUModel :: "string option"
  Kernel :: "string option"
  Errors :: "(string, string) gomap"

record Request =
  rq_Protocol :: int
  rq_Version :: string
  rq_Kind :: string
  rq_Latest :: "Sample option"
  rq_Samples :: "Sample list"
  rq_Pending :: int
  rq_Dropped :: nat

record Response =
  rs_Ack :: "string list"
  rs_Rejected :: "string list"
  rs_Retry :: bool
  rs_ServerTime :: time

section \<open>Checks\<close>

definition is_hex :: "char \<Rightarrow> bool" where
  "is_hex c = (c \<in> set ''0123456789abcdefABCDEF'')"

text \<open>\<^verbatim>\<open>hex.DecodeString\<close> succeeds.\<close>

definition hex_ok :: "string \<Rightarrow> bool" where
  "hex_ok s = (even (length s) \<and> list_all is_hex s)"

record url = u_Scheme :: string u_Host :: string u_has_User :: bool u_RawQuery :: string u_Fragment :: string

datatype config_error = BadHubURL | BadConfig | BadToken

definition validate_config :: "(string \<Rightarrow> url option) \<Rightarrow> Config \<Rightarrow> config_error option" where
  "validate_config parse_url c =
     (case parse_url (HubURL c) of
        None \<Rightarrow> Some BadHubURL
      | Some u \<Rightarrow>
          if u_Host u = [] \<or> u_has_User u \<or> u_RawQuery u \<noteq> [] \<or> u_Fragment u \<noteq> [] \<or>
             (u_Scheme u \<noteq> ''https'' \<and> (\<not> AllowHTTP c \<or> u_Scheme u \<noteq> ''http'')) then Some BadHubURL
          else if length (Token c) \<noteq> 64 \<or> StateDir c = [] \<or> IntervalSeconds c < 1 \<or> IntervalSeconds c > 60
               then Some BadConfig
          else if \<not> hex_ok (Token c) then Some BadToken else None)"

definition invalid_metric :: "float64 option \<Rightarrow> bool" where
  "invalid_metric v = (case v of Some NaN \<Rightarrow> True | Some Inf \<Rightarrow> True | Some (Fin x) \<Rightarrow> x < 0 | None \<Rightarrow> False)"

definition invalid_counter :: "int option \<Rightarrow> bool" where
  "invalid_counter v = (case v of Some x \<Rightarrow> x < 0 | None \<Rightarrow> False)"

definition exceeds :: "int option \<times> int option \<Rightarrow> bool" where
  "exceeds p = (case p of (Some a, Some b) \<Rightarrow> b < a | _ \<Rightarrow> False)"

definition ValidateErrors :: "(string, string) gomap \<Rightarrow> wire_error option" where
  "ValidateErrors m =
     (if int (length m) > 16 then Some TooManyErrors
      else if list_ex (\<lambda>(k, v). int (length k) > 32 \<or> int (length v) > 256 \<or>
                 CHR 0x0D \<in> set k \<or> CHR 0x0A \<in> set k) m then Some InvalidCollectorError
      else None)"

text \<open>\<^verbatim>\<open>Sample.Validate\<close>, in two parts: everything but the capture time, then the capture time.\<close>

definition validate_shape :: "Sample \<Rightarrow> wire_error option" where
  "validate_shape s =
     (if int (length (ID s)) \<noteq> 32 then Some InvalidSampleID
      else if \<not> hex_ok (ID s) then Some InvalidSampleID
      else if BootID s = [] \<or> int (length (BootID s)) > 128 then Some InvalidBootID
      else if list_ex invalid_metric [CPU s, Load1 s, Load5 s, Load15 s] then Some InvalidMetric
      else if (case CPU s of Some (Fin x) \<Rightarrow> x > 100 | _ \<Rightarrow> False) then Some InvalidCPU
      else if list_ex invalid_counter
                [MemoryUsed s, MemoryTotal s, SwapUsed s, SwapTotal s, DiskUsed s, DiskTotal s,
                 NetRecv s, NetSent s, DiskRead s, DiskWrite s, Uptime s] then Some InvalidCounter
      else if list_ex exceeds [(MemoryUsed s, MemoryTotal s), (SwapUsed s, SwapTotal s), (DiskUsed s, DiskTotal s)]
           then Some UsedExceedsTotal
      else if list_ex (\<lambda>v. case v of Some x \<Rightarrow> int (length x) > 512 | None \<Rightarrow> False) [OS s, CPUModel s, Kernel s]
           then Some MetadataTooLong
      else ValidateErrors (Errors s))"

definition Validate :: "time \<Rightarrow> Sample \<Rightarrow> wire_error option" where
  "Validate now s =
     (case validate_shape s of
        Some e \<Rightarrow> Some e
      | None \<Rightarrow> if Before (Time s) (Add now (- MaxAge - hour)) \<or> After (Time s) (Add now (5 * minute))
                then Some ErrSampleTime else None)"

definition tolerated :: "time \<Rightarrow> Sample \<Rightarrow> wire_error option" where
  "tolerated now s = (case Validate now s of Some ErrSampleTime \<Rightarrow> None | r \<Rightarrow> r)"

fun first_error :: "time \<Rightarrow> Sample list \<Rightarrow> wire_error option" where
  "first_error now [] = None"
| "first_error now (s # ss) = (case tolerated now s of Some e \<Rightarrow> Some e | None \<Rightarrow> first_error now ss)"

definition validate_request :: "time \<Rightarrow> Request \<Rightarrow> wire_error option" where
  "validate_request now r =
     (if rq_Protocol r \<noteq> Protocol \<or> rq_Version r = [] \<or> int (length (rq_Version r)) > 128 \<or>
         (rq_Kind r \<noteq> ''heartbeat'' \<and> rq_Kind r \<noteq> ''samples'') \<or> rq_Pending r < 0 \<or> rq_Pending r > 100000 \<or>
         int (length (rq_Samples r)) > MaxBatch then Some InvalidMessage
      else if rq_Kind r = ''heartbeat'' \<and> rq_Samples r \<noteq> [] then Some HeartbeatSamples
      else if rq_Kind r = ''samples'' \<and> rq_Samples r = [] then Some EmptyBatch
      else case (case rq_Latest r of Some s \<Rightarrow> tolerated now s | None \<Rightarrow> None) of
             Some e \<Rightarrow> Some e
           | None \<Rightarrow> first_error now (rq_Samples r))"

section \<open>What an accepted sample satisfies\<close>

lemma shape_not_time: "validate_shape s \<noteq> Some ErrSampleTime"
  by (auto simp: validate_shape_def ValidateErrors_def)

lemma tolerated_shape: "tolerated now s = validate_shape s"
  using shape_not_time [of s]
  by (auto simp: tolerated_def Validate_def split: option.splits wire_error.splits)

lemma Validate_accepts:
  "Validate now s = None \<longleftrightarrow> validate_shape s = None \<and>
     Time s \<in> {now - MaxAge - hour .. now + 5 * minute}"
  by (auto simp: Validate_def split: option.splits)

lemma Validate_ID: "Validate now s = None \<Longrightarrow> length (ID s) = 32 \<and> list_all is_hex (ID s)"
  by (auto simp: Validate_accepts validate_shape_def hex_ok_def split: if_splits)

lemma first_error_None: "first_error now ss = None \<longleftrightarrow> (\<forall>s\<in>set ss. validate_shape s = None)"
  by (induction ss) (auto simp: tolerated_shape split: option.splits)

end
