(* ===== verification/Agent_Spool.thy ===== *)
theory Agent_Spool
  imports Agent_Wire "HOL-Library.List_Lexorder" "HOL-Library.Char_ord"
begin

text \<open>
  The resident agent's outbox, \<^verbatim>\<open>agentclient/spool.go\<close>: a queue of samples in memory beside one
  file per sample and a file with the number of samples given up.

  An operation returns the new queue, its answer and the list of the actions it performed on
  the state directory, in order; \<open>run_acts\<close> performs them. A crash may strike between any two of
  them. The directory has two faces: \<open>cur\<close> is what the process sees, \<open>dur\<close> what the last
  \<^verbatim>\<open>syncDirectory\<close> made durable. After a crash each file is as in either of the two, independently
  of the others, and files of interrupted writes may be left. The content of a renamed file is
  durable before the rename, since \<^verbatim>\<open>writeAtomic\<close> syncs it first. This is the agent built for Unix
  systems; the Windows build cannot sync a directory and skips it, so there the statements about what
  survives a crash do not apply.

  Auxiliary fields observe the run and influence nothing: \<open>accepted\<close> holds the identifiers of the
  samples taken into the queue, \<open>owed\<close> those neither acknowledged nor given up since, \<open>settled\<close> the
  acknowledged, \<open>lost\<close> those given up; \<open>asked\<close> sums the increments the counter was asked to make (it
  bounds the 64-bit counter away from its wrap-around).

  The failures of the file system are arguments of the operations, \<^verbatim>\<open>encoding/json\<close> and
  \<^verbatim>\<open>sort.Slice\<close> are the fields of \<open>runtime\<close>, with their documented behaviour in \<open>runtime_ok\<close>.
\<close>

section \<open>State directory\<close>

text \<open>A symbolic link carries what reading through it gives, \<open>None\<close> if it dangles.\<close>

datatype node = Regular bytes | Symlink "bytes option"

type_synonym dir = "(string, node) gomap"

definition pending_prefix :: string where "pending_prefix = ''.pending-''"

definition sample_suffix :: string where "sample_suffix = ''.sample''"

definition dropped_name :: string where "dropped_name = ''dropped.json''"

definition health_name :: string where "health_name = ''health.json''"

definition sample_name :: "string \<Rightarrow> string" where
  "sample_name i = i @ sample_suffix"

definition HasSuffix :: "string \<Rightarrow> string \<Rightarrow> bool" where
  "HasSuffix s p = HasPrefix (rev s) (rev p)"

datatype act =
    Create string | Unlink string | Rename string string bytes | Sync
  | Accept string | Settle string | Lose string | Ask nat

record world =
  cur :: dir
  dur :: dir
  accepted :: "string list"
  owed :: "string list"
  settled :: "string list"
  lost :: "string list"
  asked :: nat

fun apply_act :: "act \<Rightarrow> world \<Rightarrow> world" where
  "apply_act (Create t) w = w\<lparr>cur := mput t (Regular []) (cur w)\<rparr>"
| "apply_act (Unlink t) w = w\<lparr>cur := mdel t (cur w)\<rparr>"
| "apply_act (Rename t n b) w = w\<lparr>cur := mput n (Regular b) (mdel t (cur w))\<rparr>"
| "apply_act Sync w = w\<lparr>dur := cur w\<rparr>"
| "apply_act (Accept i) w = w\<lparr>accepted := i # accepted w, owed := List.insert i (owed w)\<rparr>"
| "apply_act (Settle i) w =
     w\<lparr>cur := mdel (sample_name i) (cur w), owed := removeAll i (owed w), settled := i # settled w\<rparr>"
| "apply_act (Lose i) w =
     w\<lparr>cur := mdel (sample_name i) (cur w), owed := removeAll i (owed w), lost := i # lost w\<rparr>"
| "apply_act (Ask n) w = w\<lparr>asked := asked w + n\<rparr>"

definition run_acts :: "act list \<Rightarrow> world \<Rightarrow> world" where
  "run_acts as w = fold apply_act as w"

text \<open>\<^verbatim>\<open>writeAtomic\<close>: the random part of the temporary name, how far the write came, and whether the
  deferred removal of the temporary file failed as well.\<close>

datatype write_end = NotCreated | NotWritten | NotRenamed | NotSynced | Written

record write_env =
  tmp_random :: string
  write_end :: write_end
  tmp_left :: bool

definition writeAtomic :: "write_env \<Rightarrow> string \<Rightarrow> bytes \<Rightarrow> act list \<times> bool" where
  "writeAtomic env path b =
     (let tmp = pending_prefix @ tmp_random env;
          cleanup = (if tmp_left env then [] else [Unlink tmp])
      in case write_end env of
           NotCreated \<Rightarrow> ([], False)
         | NotWritten \<Rightarrow> (Create tmp # cleanup, False)
         | NotRenamed \<Rightarrow> (Create tmp # cleanup, False)
         | NotSynced \<Rightarrow> ([Create tmp, Rename tmp path b], False)
         | Written \<Rightarrow> ([Create tmp, Rename tmp path b, Sync], True))"

section \<open>The queue\<close>

record queueEntry =
  sample :: Sample
  size :: int

record Spool =
  entries :: "queueEntry list"
  bytes :: int
  dropped :: nat
  limit :: int
  age :: duration

record runtime =
  marshal :: "Sample \<Rightarrow> bytes option"
  unmarshal :: "bytes \<Rightarrow> Sample option"
  unmarshal_count :: "bytes \<Rightarrow> nat option"
  sort_entries :: "queueEntry list \<Rightarrow> queueEntry list"

abbreviation entry_id :: "queueEntry \<Rightarrow> string" where
  "entry_id e \<equiv> ID (sample e)"

abbreviation entry_time :: "queueEntry \<Rightarrow> time" where
  "entry_time e \<equiv> Time (sample e)"

definition wrap_count :: "nat \<Rightarrow> nat" where
  "wrap_count n = n mod 18446744073709551616"

text \<open>The answers of the file system to one operation: one pair per write of the counter and
  removal of a sample, by its number, and the answer of the closing \<^verbatim>\<open>syncDirectory\<close>.\<close>

record io_env =
  count_write :: "nat \<Rightarrow> write_env"
  remove_fails :: "nat \<Rightarrow> bool"
  sync_ok :: bool

fun prune_loop :: "io_env \<Rightarrow> time \<Rightarrow> int \<Rightarrow> nat \<Rightarrow> queueEntry list \<Rightarrow> int \<Rightarrow> nat \<Rightarrow>
    (queueEntry list \<times> int \<times> nat) \<times> act list \<times> bool" where
  "prune_loop io cutoff mx k [] by d = (([], by, d), [], True)"
| "prune_loop io cutoff mx k (e # es) by d =
     (if by > mx \<or> Before (entry_time e) cutoff then
        let count = wrap_count (d + 1);
            (wacts, wok) = writeAtomic (count_write io k) dropped_name (FormatUint count)
        in if \<not> wok then ((e # es, by, d), Ask 1 # wacts, False)
           else if remove_fails io k then ((e # es, by, count), Ask 1 # wacts, False)
           else let (r, acts, ok) = prune_loop io cutoff mx (k + 1) es (by - size e) count
                in (r, Ask 1 # wacts @ Lose (entry_id e) # acts, ok)
      else ((e # es, by, d), [], True))"

text \<open>\<^verbatim>\<open>syncDirectory\<close> as the closing action.\<close>

definition closing_sync :: "io_env \<Rightarrow> act list" where
  "closing_sync io = (if sync_ok io then [Sync] else [])"

definition pruneLocked :: "io_env \<Rightarrow> time \<Rightarrow> Spool \<Rightarrow> Spool \<times> act list \<times> bool" where
  "pruneLocked io now q =
     (let ((es, by, d), acts, ok) = prune_loop io (Add now (- age q)) (limit q) 0 (entries q) (bytes q) (dropped q);
          q' = q\<lparr>entries := es, bytes := by, dropped := d\<rparr>
      in if ok then (q', acts @ closing_sync io, sync_ok io) else (q', acts, False))"

datatype add_error = AddInvalid wire_error | AddMarshal | AddTooLarge | AddDuplicate | AddWrite | AddPrune

definition Add_sample :: "runtime \<Rightarrow> time \<Rightarrow> write_env \<Rightarrow> time \<Rightarrow> io_env \<Rightarrow> Sample \<Rightarrow> Spool \<Rightarrow>
    Spool \<times> act list \<times> add_error option" where
  "Add_sample rt now0 we now io s q =
     (case Validate now0 s of Some e \<Rightarrow> (q, [], Some (AddInvalid e)) | None \<Rightarrow>
      case marshal rt s of None \<Rightarrow> (q, [], Some AddMarshal) | Some b \<Rightarrow>
      if int (length b) > 32768 then (q, [], Some AddTooLarge)
      else if list_ex (\<lambda>e. entry_id e = ID s) (entries q) then (q, [], Some AddDuplicate)
      else
        let (wacts, wok) = writeAtomic we (sample_name (ID s)) b
        in if \<not> wok then (q, wacts, Some AddWrite)
           else
             let q1 = q\<lparr>entries := sort_entries rt (entries q @ [\<lparr>sample = s, size = int (length b)\<rparr>]),
                        bytes := bytes q + int (length b)\<rparr>;
                 (q2, acts, ok) = pruneLocked io now q1
             in (q2, wacts @ Accept (ID s) # acts, if ok then None else Some AddPrune))"

text \<open>The loop of \<^verbatim>\<open>Batch\<close> stops at \<open>MaxBatch\<close> samples; the newest was taken already.\<close>

fun fill_batch :: "Sample list \<Rightarrow> queueEntry list \<Rightarrow> Sample list" where
  "fill_batch out [] = out"
| "fill_batch out (e # es) = (if int (length out) < MaxBatch then fill_batch (out @ [sample e]) es else out)"

definition Batch :: "io_env \<Rightarrow> time \<Rightarrow> Spool \<Rightarrow> Spool \<times> act list \<times> Sample list option" where
  "Batch io now q =
     (let (q', acts, ok) = pruneLocked io now q
      in if \<not> ok then (q', acts, None)
         else if entries q' = [] then (q', acts, Some [])
         else (q', acts, Some (fill_batch [sample (last (entries q'))] (butlast (entries q')))))"

text \<open>\<^verbatim>\<open>ackLocked\<close> serves acknowledgements (\<open>mk = Settle\<close>) and rejections (\<open>mk = Lose\<close>).\<close>

fun ack_loop :: "(string \<Rightarrow> act) \<Rightarrow> (nat \<Rightarrow> bool) \<Rightarrow> string list \<Rightarrow> nat \<Rightarrow> queueEntry list \<Rightarrow> int \<Rightarrow>
    (queueEntry list \<times> int) \<times> act list \<times> bool" where
  "ack_loop mk fails ids k [] by = (([], by), [], True)"
| "ack_loop mk fails ids k (e # es) by =
     (if entry_id e \<notin> set ids then
        let ((kept, by'), acts, ok) = ack_loop mk fails ids k es by in ((e # kept, by'), acts, ok)
      else if fails k then
        let ((kept, by'), acts, ok) = ack_loop mk fails ids (k + 1) es by in ((e # kept, by'), acts, False)
      else
        let (r, acts, ok) = ack_loop mk fails ids (k + 1) es (by - size e) in (r, mk (entry_id e) # acts, ok))"

definition ackLocked :: "(string \<Rightarrow> act) \<Rightarrow> io_env \<Rightarrow> string list \<Rightarrow> Spool \<Rightarrow> Spool \<times> act list \<times> bool" where
  "ackLocked mk io ids q =
     (let ((kept, by), acts, ok) = ack_loop mk (remove_fails io) ids 0 (entries q) (bytes q)
      in (q\<lparr>entries := kept, bytes := by\<rparr>, acts @ closing_sync io, ok \<and> sync_ok io))"

definition Ack :: "io_env \<Rightarrow> string list \<Rightarrow> Spool \<Rightarrow> Spool \<times> act list \<times> bool" where
  "Ack io ids q = ackLocked Settle io ids q"

definition Reject :: "io_env \<Rightarrow> string list \<Rightarrow> Spool \<Rightarrow> Spool \<times> act list \<times> bool" where
  "Reject io ids q =
     (let count = count_if (\<lambda>e. entry_id e \<in> set ids) (entries q)
      in if count > 0 then
           let val = wrap_count (dropped q + count);
               (wacts, wok) = writeAtomic (count_write io 0) dropped_name (FormatUint val)
           in if \<not> wok then (q, Ask count # wacts, False)
              else let (q', acts, ok) = ackLocked Lose io ids (q\<lparr>dropped := val\<rparr>)
                   in (q', Ask count # wacts @ acts, ok)
         else ackLocked Lose io ids q)"

definition Stats :: "Spool \<Rightarrow> nat \<times> nat" where
  "Stats q = (length (entries q), dropped q)"

section \<open>Opening\<close>

datatype open_error = OpenIO | AlreadyOwned | BadCount | SymlinkFound | CorruptSample string

record open_env =
  setup_ok :: bool
  lock_free :: bool
  count_readable :: bool
  listed :: bool
  pending_removed :: "string \<Rightarrow> bool"
  readable :: "string \<Rightarrow> bool"

definition read_dropped :: "runtime \<Rightarrow> open_env \<Rightarrow> dir \<Rightarrow> open_error + nat" where
  "read_dropped rt env d =
     (case (case mget d dropped_name of None \<Rightarrow> None | Some (Symlink t) \<Rightarrow> t | Some (Regular b) \<Rightarrow> Some b) of
        None \<Rightarrow> Inr 0
      | Some b \<Rightarrow>
          if \<not> count_readable env then Inl OpenIO
          else case unmarshal_count rt b of None \<Rightarrow> Inl BadCount | Some n \<Rightarrow> Inr n)"

definition load_sample :: "runtime \<Rightarrow> open_env \<Rightarrow> dir \<Rightarrow> string \<Rightarrow> open_error + queueEntry" where
  "load_sample rt env d f =
     (case mget d f of
        None \<Rightarrow> Inl OpenIO
      | Some (Symlink t) \<Rightarrow> Inl SymlinkFound
      | Some (Regular b) \<Rightarrow>
          if \<not> readable env f \<or> int (length b) > 32768 then Inl OpenIO
          else case unmarshal rt b of
                 None \<Rightarrow> Inl (CorruptSample f)
               | Some s \<Rightarrow> if length (ID s) \<noteq> 32 \<or> sample_name (ID s) \<noteq> f then Inl (CorruptSample f)
                           else Inr \<lparr>sample = s, size = int (length b)\<rparr>)"

fun load_loop :: "runtime \<Rightarrow> open_env \<Rightarrow> dir \<Rightarrow> string list \<Rightarrow> queueEntry list \<Rightarrow> int \<Rightarrow>
    act list \<times> (open_error + queueEntry list \<times> int)" where
  "load_loop rt env d [] es by = ([], Inr (es, by))"
| "load_loop rt env d (f # fs) es by =
     (if HasPrefix f pending_prefix then
        if \<not> pending_removed env f then ([], Inl OpenIO)
        else let (acts, r) = load_loop rt env d fs es by in (Unlink f # acts, r)
      else if \<not> HasSuffix f sample_suffix then load_loop rt env d fs es by
      else case load_sample rt env d f of
             Inl e \<Rightarrow> ([], Inl e)
           | Inr e \<Rightarrow> load_loop rt env d fs (es @ [e]) (by + size e))"

definition OpenSpool :: "runtime \<Rightarrow> open_env \<Rightarrow> time \<Rightarrow> io_env \<Rightarrow> dir \<Rightarrow> act list \<times> (open_error + Spool)" where
  "OpenSpool rt env now io d =
     (if \<not> setup_ok env then ([], Inl OpenIO)
      else if \<not> lock_free env then ([], Inl AlreadyOwned)
      else case read_dropped rt env d of Inl e \<Rightarrow> ([], Inl e) | Inr n \<Rightarrow>
        if \<not> listed env then ([], Inl OpenIO)
        else
          let (acts, r) = load_loop rt env d (sort (mkeys d)) [] 0
          in case r of Inl e \<Rightarrow> (acts, Inl e) | Inr (es, by) \<Rightarrow>
               let (q, pacts, ok) = pruneLocked io now
                     \<lparr>entries = sort_entries rt es, bytes = by, dropped = n, limit = MaxQueueBytes, age = MaxAge\<rparr>
               in (acts @ pacts, if ok then Inr q else Inl OpenIO))"

section \<open>The sending part of the transport loop\<close>

text \<open>The end of one round of \<^verbatim>\<open>runTransport\<close>: \<open>request\<close> answers for the exchange with the Hub, \<open>None\<close> if it
  failed. A failed acknowledgement skips the rejections of the same reply.\<close>

definition send_samples :: "(Sample list \<Rightarrow> Response option) \<Rightarrow> time \<Rightarrow> io_env \<Rightarrow> io_env \<Rightarrow> io_env \<Rightarrow> Spool \<Rightarrow> Spool \<times> act list" where
  "send_samples request now io ioa ior q =
     (case Batch io now q of
        (q1, acts, Some (s # ss)) \<Rightarrow>
          (case request (s # ss) of
             None \<Rightarrow> (q1, acts)
           | Some reply \<Rightarrow>
               let (q2, acts2, ok) = Ack ioa (rs_Ack reply) q1
               in if ok \<and> rs_Rejected reply \<noteq> [] then
                    let (q3, acts3, ok3) = Reject ior (rs_Rejected reply) q2 in (q3, acts @ acts2 @ acts3)
                  else (q2, acts @ acts2))
      | (q1, acts, _) \<Rightarrow> (q1, acts))"

section \<open>Crashes and restarts\<close>

text \<open>What a crash leaves: each file as seen or as last made durable, any temporary files.\<close>

definition crashed :: "world \<Rightarrow> world \<Rightarrow> bool" where
  "crashed w w' \<longleftrightarrow> (\<exists>d. mok d \<and> (\<forall>f. \<not> HasPrefix f pending_prefix \<longrightarrow> mget d f \<in> {mget (cur w) f, mget (dur w) f}) \<and>
     w' = w\<lparr>cur := d, dur := d\<rparr>)"

text \<open>The operations of the running agent; \<^verbatim>\<open>runTransport\<close> also writes its health record beside the
  outbox.\<close>

inductive spool_op :: "runtime \<Rightarrow> Spool \<Rightarrow> act list \<Rightarrow> Spool \<Rightarrow> bool" for rt where
  add: "Add_sample rt now0 we now io s q = (q', acts, r) \<Longrightarrow> spool_op rt q acts q'"
| batch: "Batch io now q = (q', acts, out) \<Longrightarrow> spool_op rt q acts q'"
| ack: "Ack io ids q = (q', acts, ok) \<Longrightarrow> spool_op rt q acts q'"
| reject: "Reject io ids q = (q', acts, ok) \<Longrightarrow> spool_op rt q acts q'"
| health: "writeAtomic we health_name b = (acts, ok) \<Longrightarrow> spool_op rt q acts q"

type_synonym spool_sys = "Spool option \<times> world"

inductive spool_step :: "runtime \<Rightarrow> spool_sys \<Rightarrow> spool_sys \<Rightarrow> bool" for rt where
  op_done: "spool_op rt q acts q' \<Longrightarrow> spool_step rt (Some q, w) (Some q', run_acts acts w)"
| op_crash: "spool_op rt q acts q' \<Longrightarrow> crashed (run_acts (take k acts) w) w' \<Longrightarrow> spool_step rt (Some q, w) (None, w')"
| close: "spool_step rt (Some q, w) (None, w)"
| open_done: "OpenSpool rt env now io (cur w) = (acts, Inr q) \<Longrightarrow> spool_step rt (None, w) (Some q, run_acts acts w)"
| open_failed: "OpenSpool rt env now io (cur w) = (acts, Inl e) \<Longrightarrow> spool_step rt (None, w) (None, run_acts acts w)"
| open_crash: "OpenSpool rt env now io (cur w) = (acts, r) \<Longrightarrow> crashed (run_acts (take k acts) w) w' \<Longrightarrow>
    spool_step rt (None, w) (None, w')"

definition spool_init :: "spool_sys \<Rightarrow> bool" where
  "spool_init s \<longleftrightarrow> fst s = None \<and> snd s = \<lparr>cur = [], dur = [], accepted = [], owed = [], settled = [], lost = [], asked = 0\<rparr>"

section \<open>What the library functions promise\<close>

definition runtime_ok :: "runtime \<Rightarrow> bool" where
  "runtime_ok rt \<longleftrightarrow>
     (\<forall>s b. marshal rt s = Some b \<and> hex_ok (ID s) \<longrightarrow>
        (\<exists>s'. unmarshal rt b = Some s' \<and> ID s' = ID s \<and> Time s' = Time s)) \<and>
     (\<forall>n < 18446744073709551616. unmarshal_count rt (FormatUint n) = Some n) \<and>
     (\<forall>es. mset (sort_entries rt es) = mset es \<and> sorted (map entry_time (sort_entries rt es)))"

lemma runtime_marshal:
  "runtime_ok rt \<Longrightarrow> marshal rt s = Some b \<Longrightarrow> hex_ok (ID s) \<Longrightarrow>
     \<exists>s'. unmarshal rt b = Some s' \<and> ID s' = ID s \<and> Time s' = Time s"
  unfolding runtime_ok_def by blast

lemma runtime_count: "runtime_ok rt \<Longrightarrow> n < 18446744073709551616 \<Longrightarrow> unmarshal_count rt (FormatUint n) = Some n"
  unfolding runtime_ok_def by blast

lemma runtime_sort:
  assumes "runtime_ok rt"
  shows "mset (sort_entries rt es) = mset es" and "sorted (map entry_time (sort_entries rt es))"
  using assms unfolding runtime_ok_def by blast+

section \<open>The directory\<close>

abbreviation is_pending :: "string \<Rightarrow> bool" where
  "is_pending f \<equiv> HasPrefix f pending_prefix"

definition stored :: "runtime \<Rightarrow> dir \<Rightarrow> queueEntry \<Rightarrow> bool" where
  "stored rt d e \<longleftrightarrow> \<not> is_pending (sample_name (entry_id e)) \<and> length (entry_id e) = 32 \<and>
     (\<exists>b s. mget d (sample_name (entry_id e)) = Some (Regular b) \<and> int (length b) \<le> 32768 \<and> size e = int (length b) \<and>
        unmarshal rt b = Some s \<and> ID s = entry_id e \<and> Time s = entry_time e)"

definition dir_ok :: "runtime \<Rightarrow> dir \<Rightarrow> bool" where
  "dir_ok rt d \<longleftrightarrow> mok d \<and>
     (\<forall>f. HasSuffix f sample_suffix \<longrightarrow> \<not> is_pending f \<longrightarrow> mget d f \<noteq> None \<longrightarrow>
        (\<exists>e. f = sample_name (entry_id e) \<and> stored rt d e)) \<and>
     (\<forall>x. mget d dropped_name = Some x \<longrightarrow> (\<exists>n < 18446744073709551616. x = Regular (FormatUint n)))"

definition counter :: "dir \<Rightarrow> nat" where
  "counter d = (case mget d dropped_name of Some (Regular b) \<Rightarrow> digits_value b | _ \<Rightarrow> 0)"

lemma sample_suffixed: "HasSuffix (sample_name i) sample_suffix"
  by (simp add: HasSuffix_def sample_name_def HasPrefix_iff)

lemma suffixed_sample: "HasSuffix f sample_suffix \<longleftrightarrow> (\<exists>i. f = sample_name i)"
  unfolding HasSuffix_def sample_name_def HasPrefix_iff
  by (metis rev_append rev_rev_ident)

lemma sample_name_inj [simp]: "sample_name i = sample_name j \<longleftrightarrow> i = j"
  by (simp add: sample_name_def)

lemma dropped_not_suffixed [simp]: "\<not> HasSuffix dropped_name sample_suffix"
  by code_simp

lemma dropped_not_pending [simp]: "\<not> is_pending dropped_name"
  by code_simp

lemma health_not_suffixed [simp]: "\<not> HasSuffix health_name sample_suffix"
  by code_simp

lemma health_not_pending [simp]: "\<not> is_pending health_name"
  by code_simp

lemma health_not_dropped [simp]: "health_name \<noteq> dropped_name" "dropped_name \<noteq> health_name"
  by code_simp+

lemma sample_not_dropped [simp]: "sample_name i \<noteq> dropped_name" "dropped_name \<noteq> sample_name i"
  using sample_suffixed [of i] dropped_not_suffixed by auto

lemma sample_not_health [simp]: "sample_name i \<noteq> health_name" "health_name \<noteq> sample_name i"
  using sample_suffixed [of i] health_not_suffixed by auto

lemma pending_prefixed [simp]: "is_pending (pending_prefix @ x)"
  by (simp add: HasPrefix_iff)

lemma hex_not_pending: "hex_ok i \<Longrightarrow> i \<noteq> [] \<Longrightarrow> \<not> is_pending (sample_name i)"
proof (cases i)
  case (Cons c cs)
  assume "hex_ok i"
  with Cons have "is_hex c" by (simp add: hex_ok_def)
  then have "c \<noteq> CHR ''.''" by (auto simp: is_hex_def)
  with Cons show ?thesis by (simp add: sample_name_def HasPrefix_def pending_prefix_def)
qed simp

lemma stored_cong: "mget d' (sample_name (entry_id e)) = mget d (sample_name (entry_id e)) \<Longrightarrow> stored rt d' e = stored rt d e"
  by (simp add: stored_def)

lemma stored_not_pending: "stored rt d e \<Longrightarrow> \<not> is_pending (sample_name (entry_id e))"
  by (simp add: stored_def)

lemma stored_cong_other:
  "stored rt d e \<Longrightarrow> (\<And>f. f \<noteq> t \<Longrightarrow> mget d' f = mget d f) \<Longrightarrow> t \<noteq> sample_name (entry_id e) \<Longrightarrow> stored rt d' e"
  using stored_cong [of d' e d rt] by metis

lemma counter_put [simp]: "counter (mput dropped_name (Regular (FormatUint n)) d) = n"
  by (simp add: counter_def digits_value_FormatUint)

lemma counter_put_other: "f \<noteq> dropped_name \<Longrightarrow> counter (mput f x d) = counter d"
  by (simp add: counter_def)

lemma counter_del_other: "f \<noteq> dropped_name \<Longrightarrow> counter (mdel f d) = counter d"
  by (simp add: counter_def)

lemma dir_okI:
  assumes "mok d"
    and "\<And>i. \<not> is_pending (sample_name i) \<Longrightarrow> mget d (sample_name i) \<noteq> None \<Longrightarrow> \<exists>e. i = entry_id e \<and> stored rt d e"
    and "\<And>x. mget d dropped_name = Some x \<Longrightarrow> \<exists>n < 18446744073709551616. x = Regular (FormatUint n)"
  shows "dir_ok rt d"
  using assms unfolding dir_ok_def suffixed_sample by (metis sample_name_inj)

lemma dir_ok_sample:
  "dir_ok rt d \<Longrightarrow> \<not> is_pending (sample_name i) \<Longrightarrow> mget d (sample_name i) \<noteq> None \<Longrightarrow> \<exists>e. i = entry_id e \<and> stored rt d e"
  unfolding dir_ok_def suffixed_sample by (metis sample_name_inj)

lemma dir_ok_count: "dir_ok rt d \<Longrightarrow> mget d dropped_name = Some x \<Longrightarrow> \<exists>n < 18446744073709551616. x = Regular (FormatUint n)"
  unfolding dir_ok_def by blast

lemma dir_ok_mok: "dir_ok rt d \<Longrightarrow> mok d"
  unfolding dir_ok_def by blast

text \<open>Files that are neither samples nor the counter do not matter.\<close>

lemma dir_ok_frame:
  assumes ok: "dir_ok rt d" and m: "mok d'"
    and same: "\<And>i. \<not> is_pending (sample_name i) \<Longrightarrow> mget d' (sample_name i) = mget d (sample_name i)"
    and cnt: "mget d' dropped_name = mget d dropped_name"
  shows "dir_ok rt d'"
proof (rule dir_okI [OF m])
  fix i assume p: "\<not> is_pending (sample_name i)" and "mget d' (sample_name i) \<noteq> None"
  then have "mget d (sample_name i) \<noteq> None" by (simp add: same)
  then obtain e where "i = entry_id e" "stored rt d e" using dir_ok_sample [OF ok p] by blast
  then show "\<exists>e. i = entry_id e \<and> stored rt d' e" using stored_cong [of d' e d rt] same [OF p] by auto
next
  fix x assume "mget d' dropped_name = Some x"
  then show "\<exists>n < 18446744073709551616. x = Regular (FormatUint n)" using dir_ok_count [OF ok] cnt by simp
qed

section \<open>Invariants\<close>

definition kept_on :: "runtime \<Rightarrow> dir \<Rightarrow> string \<Rightarrow> bool" where
  "kept_on rt d i \<longleftrightarrow> (\<exists>e. entry_id e = i \<and> stored rt d e)"

text \<open>No wrap-around of the counter so far.\<close>

abbreviation unwrapped :: "world \<Rightarrow> bool" where
  "unwrapped w \<equiv> asked w < 18446744073709551616"

text \<open>The part that holds between any two actions.\<close>

definition world_inv :: "runtime \<Rightarrow> world \<Rightarrow> bool" where
  "world_inv rt w \<longleftrightarrow> dir_ok rt (cur w) \<and> dir_ok rt (dur w) \<and>
     (\<forall>i \<in> set (owed w). kept_on rt (cur w) i \<and> kept_on rt (dur w) i) \<and>
     set (accepted w) \<subseteq> set (owed w) \<union> set (settled w) \<union> set (lost w) \<and>
     (unwrapped w \<longrightarrow> length (lost w) \<le> counter (cur w) \<and> length (lost w) \<le> counter (dur w) \<and>
        counter (cur w) \<le> asked w \<and> counter (dur w) \<le> asked w)"

text \<open>The queue beside it: \<open>m\<close> samples may still be given up under the counter's value \<open>d\<close>.\<close>

definition queue_inv :: "runtime \<Rightarrow> queueEntry list \<Rightarrow> int \<Rightarrow> world \<Rightarrow> bool" where
  "queue_inv rt es by w \<longleftrightarrow> distinct (map entry_id es) \<and> sorted (map entry_time es) \<and> by = sum_list (map size es) \<and>
     (\<forall>e \<in> set es. stored rt (cur w) e) \<and> set (owed w) \<subseteq> entry_id ` set es"

definition count_inv :: "nat \<Rightarrow> nat \<Rightarrow> world \<Rightarrow> bool" where
  "count_inv d m w \<longleftrightarrow> d < 18446744073709551616 \<and>
     (unwrapped w \<longrightarrow> length (lost w) + m \<le> d \<and> d \<le> counter (cur w) \<and> length (lost w) + m \<le> counter (dur w))"

definition running_inv :: "runtime \<Rightarrow> queueEntry list \<Rightarrow> int \<Rightarrow> nat \<Rightarrow> nat \<Rightarrow> world \<Rightarrow> bool" where
  "running_inv rt es by d m w \<longleftrightarrow> world_inv rt w \<and> queue_inv rt es by w \<and> count_inv d m w"

fun safe :: "runtime \<Rightarrow> act list \<Rightarrow> world \<Rightarrow> bool" where
  "safe rt [] w = world_inv rt w"
| "safe rt (a # as) w = (world_inv rt w \<and> safe rt as (apply_act a w))"

lemma run_acts_simps [simp]:
  "run_acts [] w = w" "run_acts (a # as) w = run_acts as (apply_act a w)"
  "run_acts (as @ bs) w = run_acts bs (run_acts as w)"
  by (simp_all add: run_acts_def)

lemma safe_end: "safe rt as w \<Longrightarrow> world_inv rt (run_acts as w)"
  by (induction as arbitrary: w) auto

lemma safe_start: "safe rt as w \<Longrightarrow> world_inv rt w"
  by (cases as) auto

lemma safe_append: "safe rt (as @ bs) w \<longleftrightarrow> safe rt as w \<and> safe rt bs (run_acts as w)"
  by (induction as arbitrary: w) (auto dest: safe_start)

lemma safe_prefix: "safe rt as w \<Longrightarrow> world_inv rt (run_acts (take k as) w)"
  by (metis append_take_drop_id safe_append safe_end)

lemma running_world: "running_inv rt es by d m w \<Longrightarrow> world_inv rt w"
  by (simp add: running_inv_def)

lemma running_slack: "running_inv rt es by d m w \<Longrightarrow> n \<le> m \<Longrightarrow> running_inv rt es by d n w"
  by (auto simp: running_inv_def count_inv_def)

subsection \<open>Effect of each action\<close>

text \<open>A directory change that leaves samples and the counter alone.\<close>

definition same_files :: "dir \<Rightarrow> dir \<Rightarrow> bool" where
  "same_files d d' \<longleftrightarrow> mok d' \<and> (\<forall>i. \<not> is_pending (sample_name i) \<longrightarrow> mget d' (sample_name i) = mget d (sample_name i)) \<and>
     mget d' dropped_name = mget d dropped_name"

lemma same_files_stored: "same_files d d' \<Longrightarrow> stored rt d e \<Longrightarrow> stored rt d' e"
  using stored_cong [of d' e d rt] stored_not_pending [of rt d e] by (simp add: same_files_def)

lemma same_files_dir_ok: "same_files d d' \<Longrightarrow> dir_ok rt d \<Longrightarrow> dir_ok rt d'"
  unfolding same_files_def by (rule dir_ok_frame) auto

lemma same_files_counter: "same_files d d' \<Longrightarrow> counter d' = counter d"
  by (simp add: same_files_def counter_def)

lemma same_files_kept: "same_files d d' \<Longrightarrow> kept_on rt d i \<Longrightarrow> kept_on rt d' i"
  using same_files_stored unfolding kept_on_def by blast

lemma running_same_files:
  assumes "running_inv rt es by d m w" "same_files (cur w) c"
  shows "running_inv rt es by d m (w\<lparr>cur := c\<rparr>)"
  using assms same_files_stored [OF assms(2)] same_files_kept [OF assms(2)]
    same_files_dir_ok [OF assms(2)] same_files_counter [OF assms(2)]
  by (auto simp: running_inv_def world_inv_def queue_inv_def count_inv_def)

lemma same_files_put: "mok d \<Longrightarrow> is_pending t \<Longrightarrow> same_files d (mput t x d)"
  by (auto simp: same_files_def)

lemma same_files_del: "mok d \<Longrightarrow> is_pending t \<Longrightarrow> same_files d (mdel t d)"
  by (auto simp: same_files_def)

lemma same_files_health: "mok d \<Longrightarrow> same_files d (mput health_name x d)"
  by (auto simp: same_files_def)

lemma same_files_trans: "same_files a b \<Longrightarrow> same_files b c \<Longrightarrow> same_files a c"
  by (auto simp: same_files_def)

lemma running_mok: "running_inv rt es by d m w \<Longrightarrow> mok (cur w)"
  by (auto simp: running_inv_def world_inv_def intro: dir_ok_mok)

lemma running_create: "running_inv rt es by d m w \<Longrightarrow> is_pending t \<Longrightarrow> running_inv rt es by d m (apply_act (Create t) w)"
  using running_same_files [OF _ same_files_put] running_mok by simp

lemma running_unlink: "running_inv rt es by d m w \<Longrightarrow> is_pending t \<Longrightarrow> running_inv rt es by d m (apply_act (Unlink t) w)"
  using running_same_files [OF _ same_files_del] running_mok by simp

lemma running_sync: "running_inv rt es by d m w \<Longrightarrow> running_inv rt es by d m (apply_act Sync w)"
  by (auto simp: running_inv_def world_inv_def queue_inv_def count_inv_def)

lemma running_ask: "running_inv rt es by d m w \<Longrightarrow> running_inv rt es by d m (apply_act (Ask k) w)"
  by (auto simp: running_inv_def world_inv_def queue_inv_def count_inv_def)

lemma stored_count: "stored rt (mput dropped_name x c) e = stored rt c e"
  by (rule stored_cong) simp

lemma dir_ok_put_count:
  assumes "dir_ok rt c" "n < 18446744073709551616"
  shows "dir_ok rt (mput dropped_name (Regular (FormatUint n)) c)"
proof (rule dir_okI)
  show "mok (mput dropped_name (Regular (FormatUint n)) c)" using dir_ok_mok [OF assms(1)] by simp
next
  fix i assume "\<not> is_pending (sample_name i)" "mget (mput dropped_name (Regular (FormatUint n)) c) (sample_name i) \<noteq> None"
  then show "\<exists>e. i = entry_id e \<and> stored rt (mput dropped_name (Regular (FormatUint n)) c) e"
    using dir_ok_sample [OF assms(1), of i] by (simp add: stored_count)
qed (use assms(2) in auto)

text \<open>The counter's new value, first seen, then durable.\<close>

lemma running_count:
  assumes inv: "running_inv rt es by d m w" and n: "n = wrap_count (d + k)" and a: "unwrapped w \<longrightarrow> d + k \<le> asked w"
  shows "running_inv rt es by d m (w\<lparr>cur := mput dropped_name (Regular (FormatUint n)) (cur w)\<rparr>)"
    and "running_inv rt es by n (m + k) (apply_act Sync (w\<lparr>cur := mput dropped_name (Regular (FormatUint n)) (cur w)\<rparr>))"
proof -
  have lt: "n < 18446744073709551616" by (simp add: n wrap_count_def)
  have eq: "unwrapped w \<Longrightarrow> n = d + k" using a by (simp add: n wrap_count_def)
  have ok: "dir_ok rt (mput dropped_name (Regular (FormatUint n)) (cur w))"
    using inv lt by (simp add: dir_ok_put_count running_inv_def world_inv_def)
  show "running_inv rt es by d m (w\<lparr>cur := mput dropped_name (Regular (FormatUint n)) (cur w)\<rparr>)"
    and "running_inv rt es by n (m + k) (apply_act Sync (w\<lparr>cur := mput dropped_name (Regular (FormatUint n)) (cur w)\<rparr>))"
    using inv ok lt eq a
    by (auto simp: running_inv_def world_inv_def queue_inv_def count_inv_def stored_count kept_on_def)
qed

text \<open>Removing one sample of the queue, given up or acknowledged.\<close>

lemma dir_ok_del_sample:
  assumes "dir_ok rt c"
  shows "dir_ok rt (mdel (sample_name i) c)"
proof (rule dir_okI)
  show "mok (mdel (sample_name i) c)" using dir_ok_mok [OF assms] by simp
next
  fix j assume p: "\<not> is_pending (sample_name j)" and "mget (mdel (sample_name i) c) (sample_name j) \<noteq> None"
  then have "j \<noteq> i" "mget c (sample_name j) \<noteq> None" by (auto split: if_splits)
  then show "\<exists>e. j = entry_id e \<and> stored rt (mdel (sample_name i) c) e"
    using dir_ok_sample [OF assms p] stored_cong [of "mdel (sample_name i) c" _ c rt] by auto
qed (use dir_ok_count [OF assms] in auto)

lemma stored_del_other: "entry_id e \<noteq> i \<Longrightarrow> stored rt (mdel (sample_name i) c) e = stored rt c e"
  by (rule stored_cong) simp

lemma kept_del_other: "j \<noteq> i \<Longrightarrow> kept_on rt (mdel (sample_name i) c) j = kept_on rt c j"
  unfolding kept_on_def using stored_del_other by blast

lemma queue_remove:
  assumes "queue_inv rt (xs @ e # ys) by w"
  shows "queue_inv rt (xs @ ys) (by - size e) (w\<lparr>cur := mdel (sample_name (entry_id e)) (cur w), owed := removeAll (entry_id e) (owed w), settled := t, lost := l\<rparr>)"
proof -
  have "sorted (map entry_time (xs @ ys))"
    using assms by (auto simp: queue_inv_def sorted_append)
  moreover have "entry_id e \<notin> entry_id ` set (xs @ ys)"
    using assms by (auto simp: queue_inv_def)
  then have "entry_id x \<noteq> entry_id e" if "x \<in> set (xs @ ys)" for x
    using that by (metis imageI)
  ultimately show ?thesis
    using assms by (auto simp: queue_inv_def stored_del_other)
qed

lemma world_remove:
  assumes "world_inv rt w" "unwrapped w \<longrightarrow> length l \<le> counter (cur w) \<and> length l \<le> counter (dur w)"
    and "set (settled w) \<subseteq> set t" "set (lost w) \<subseteq> set l" "i \<in> set t \<union> set l"
  shows "world_inv rt (w\<lparr>cur := mdel (sample_name i) (cur w), owed := removeAll i (owed w), settled := t, lost := l\<rparr>)"
  using assms by (auto simp: world_inv_def dir_ok_del_sample kept_del_other counter_del_other)

lemma running_lose:
  assumes inv: "running_inv rt (xs @ e # ys) by d (Suc m) w"
  shows "running_inv rt (xs @ ys) (by - size e) d m (apply_act (Lose (entry_id e)) w)"
proof -
  let ?l = "entry_id e # lost w"
  have le: "unwrapped w \<longrightarrow> length ?l \<le> counter (cur w) \<and> length ?l \<le> counter (dur w)"
    using inv by (auto simp: running_inv_def count_inv_def)
  have q: "queue_inv rt (xs @ e # ys) by w" and w: "world_inv rt w" using inv by (simp_all add: running_inv_def)
  have "world_inv rt (apply_act (Lose (entry_id e)) w)"
    using world_remove [OF w le, of "settled w" "entry_id e"] by auto
  with inv queue_remove [OF q, where t = "settled w" and l = ?l] show ?thesis
    by (auto simp: running_inv_def count_inv_def counter_del_other)
qed

lemma running_settle:
  assumes inv: "running_inv rt (xs @ e # ys) by d m w"
  shows "running_inv rt (xs @ ys) (by - size e) d m (apply_act (Settle (entry_id e)) w)"
proof -
  have q: "queue_inv rt (xs @ e # ys) by w" and w: "world_inv rt w" using inv by (simp_all add: running_inv_def)
  then have le: "unwrapped w \<longrightarrow> length (lost w) \<le> counter (cur w) \<and> length (lost w) \<le> counter (dur w)"
    by (simp add: world_inv_def)
  have "world_inv rt (apply_act (Settle (entry_id e)) w)"
    using world_remove [OF w le, of "entry_id e # settled w" "entry_id e"] by auto
  with inv queue_remove [OF q, where t = "entry_id e # settled w" and l = "lost w"] show ?thesis
    by (auto simp: running_inv_def count_inv_def counter_del_other)
qed

subsection \<open>Atomic writes\<close>

lemma safe_two: "world_inv rt w \<Longrightarrow> world_inv rt (apply_act a w) \<Longrightarrow> safe rt [a] w"
  by simp

text \<open>A write is the creation of a temporary file and then, unless it fails, the renaming and the
  sync; \<open>Q\<close> is what the renaming establishes.\<close>

lemma writeAtomic_run:
  assumes inv: "running_inv rt es by d m w"
    and wr: "writeAtomic env path b = (acts, ok)"
    and ren: "\<And>w' t. running_inv rt es by d m w' \<Longrightarrow> asked w' = asked w \<Longrightarrow> is_pending t \<Longrightarrow> running_inv rt es by d m (apply_act (Rename t path b) w') \<and>
       Q (apply_act Sync (apply_act (Rename t path b) w'))"
  shows "safe rt acts w \<and> running_inv rt es by d m (run_acts acts w) \<and> (ok \<longrightarrow> Q (run_acts acts w))"
proof -
  let ?t = "pending_prefix @ tmp_random env"
  have c: "running_inv rt es by d m (apply_act (Create ?t) w)" by (rule running_create [OF inv]) simp
  have u: "running_inv rt es by d m (apply_act (Unlink ?t) (apply_act (Create ?t) w))" by (rule running_unlink [OF c]) simp
  have r: "running_inv rt es by d m (apply_act (Rename ?t path b) (apply_act (Create ?t) w))"
    and q: "Q (apply_act Sync (apply_act (Rename ?t path b) (apply_act (Create ?t) w)))"
    using ren [OF c, of ?t] by simp_all
  note y = running_sync [OF r]
  note ws = running_world [OF inv] running_world [OF c] running_world [OF u] running_world [OF r] running_world [OF y]
  show ?thesis
    using wr inv c u r q y ws
    by (auto simp: writeAtomic_def Let_def simp del: apply_act.simps split: write_end.splits if_splits)
qed

lemma write_count:
  assumes inv: "running_inv rt es by d m w"
    and wr: "writeAtomic env dropped_name (FormatUint (wrap_count (d + k))) = (acts, ok)"
  shows "safe rt (Ask k # acts) w \<and> running_inv rt es by d m (run_acts (Ask k # acts) w) \<and>
     (ok \<longrightarrow> running_inv rt es by (wrap_count (d + k)) (m + k) (run_acts (Ask k # acts) w))"
proof -
  let ?w = "apply_act (Ask k) w"
  have a: "running_inv rt es by d m ?w" by (rule running_ask [OF inv])
  have le: "unwrapped ?w \<longrightarrow> d + k \<le> asked ?w"
    using inv by (auto simp: running_inv_def count_inv_def world_inv_def)
  have "safe rt acts ?w \<and> running_inv rt es by d m (run_acts acts ?w) \<and>
     (ok \<longrightarrow> running_inv rt es by (wrap_count (d + k)) (m + k) (run_acts acts ?w))"
  proof (rule writeAtomic_run [OF a wr])
    fix w' t assume i: "running_inv rt es by d m w'" and as: "asked w' = asked ?w" and t: "is_pending t"
    let ?u = "apply_act (Unlink t) w'"
    have u: "running_inv rt es by d m ?u" by (rule running_unlink [OF i t])
    have "unwrapped ?u \<longrightarrow> d + k \<le> asked ?u" using le as by simp
    from running_count [OF u refl this]
    show "running_inv rt es by d m (apply_act (Rename t dropped_name (FormatUint (wrap_count (d + k)))) w') \<and>
      running_inv rt es by (wrap_count (d + k)) (m + k) (apply_act Sync (apply_act (Rename t dropped_name (FormatUint (wrap_count (d + k)))) w'))"
      by simp
  qed
  then show ?thesis using running_world [OF inv] by simp
qed

text \<open>The new sample's file, then its place in the queue.\<close>

definition put_sample :: "string \<Rightarrow> bytes \<Rightarrow> world \<Rightarrow> world" where
  "put_sample i b w = w\<lparr>cur := mput (sample_name i) (Regular b) (cur w)\<rparr>"

definition writable :: "runtime \<Rightarrow> Sample \<Rightarrow> bytes \<Rightarrow> bool" where
  "writable rt s b \<longleftrightarrow> hex_ok (ID s) \<and> length (ID s) = 32 \<and> int (length b) \<le> 32768 \<and>
     (\<exists>s'. unmarshal rt b = Some s' \<and> ID s' = ID s \<and> Time s' = Time s)"

lemma stored_new:
  "writable rt s b \<Longrightarrow> stored rt (mput (sample_name (ID s)) (Regular b) c) \<lparr>sample = s, size = int (length b)\<rparr>"
  using hex_not_pending [of "ID s"] by (cases "ID s") (auto simp: stored_def writable_def)

lemma stored_put_other: "entry_id e \<noteq> i \<Longrightarrow> stored rt (mput (sample_name i) x c) e = stored rt c e"
  by (rule stored_cong) simp

lemma dir_ok_put_sample:
  assumes ok: "dir_ok rt c" and wr: "writable rt s b"
  shows "dir_ok rt (mput (sample_name (ID s)) (Regular b) c)"
proof (rule dir_okI)
  show "mok (mput (sample_name (ID s)) (Regular b) c)" using dir_ok_mok [OF ok] by simp
next
  fix j assume p: "\<not> is_pending (sample_name j)" and m: "mget (mput (sample_name (ID s)) (Regular b) c) (sample_name j) \<noteq> None"
  show "\<exists>e. j = entry_id e \<and> stored rt (mput (sample_name (ID s)) (Regular b) c) e"
  proof (cases "j = ID s")
    case True
    then show ?thesis using stored_new [OF wr, of c] by (intro exI [of _ "\<lparr>sample = s, size = int (length b)\<rparr>"]) simp
  next
    case False
    then have "mget c (sample_name j) \<noteq> None" using m by simp
    then show ?thesis using dir_ok_sample [OF ok p] stored_put_other False by metis
  qed
qed (use dir_ok_count [OF ok] in auto)

lemma running_put_sample:
  assumes inv: "running_inv rt es by d m w" and new: "ID s \<notin> entry_id ` set es" and wr: "writable rt s b"
  shows "running_inv rt es by d m (put_sample (ID s) b w)"
proof -
  have other: "stored rt (mput (sample_name (ID s)) (Regular b) (cur w)) e = stored rt (cur w) e" if "e \<in> set es" for e
    using new that by (intro stored_put_other) (metis imageI)
  have "kept_on rt (mput (sample_name (ID s)) (Regular b) (cur w)) i" if "i \<in> set (owed w)" for i
    using inv that other by (force simp: running_inv_def queue_inv_def kept_on_def)
  with inv other dir_ok_put_sample [OF _ wr, of "cur w"] show ?thesis
    by (auto simp: running_inv_def world_inv_def queue_inv_def count_inv_def put_sample_def counter_put_other)
qed

lemma running_accept:
  assumes inv: "running_inv rt es by d m (put_sample (ID s) b w)" and new: "ID s \<notin> entry_id ` set es" and wr: "writable rt s b"
    and es': "mset es' = mset (es @ [\<lparr>sample = s, size = int (length b)\<rparr>])" "sorted (map entry_time es')"
  shows "running_inv rt es' (by + int (length b)) d m (apply_act (Accept (ID s)) (apply_act Sync (put_sample (ID s) b w)))"
proof -
  let ?e = "\<lparr>sample = s, size = int (length b)\<rparr>"
  have set: "set es' = insert ?e (set es)" using mset_eq_setD [OF es'(1)] by simp
  have "mset (map entry_id es') = mset (map entry_id (es @ [?e]))" using es'(1) by (simp only: mset_map)
  moreover have "distinct (map entry_id (es @ [?e]))" using inv new by (simp add: running_inv_def queue_inv_def)
  ultimately have "distinct (map entry_id es')" by (metis mset_eq_imp_distinct_iff)
  moreover have "sum_list (map size es') = by + int (length b)"
  proof -
    have "mset (map size es') = mset (map size (es @ [?e]))" using es'(1) by (simp only: mset_map)
    then have "sum_list (map size es') = sum_list (map size (es @ [?e]))" by (metis sum_mset_sum_list)
    then show ?thesis using inv by (simp add: running_inv_def queue_inv_def)
  qed
  moreover have "kept_on rt (cur (put_sample (ID s) b w)) (ID s)" "stored rt (cur (put_sample (ID s) b w)) ?e"
    using stored_new [OF wr, of "cur w"] by (auto simp: kept_on_def put_sample_def intro!: exI [of _ ?e])
  ultimately show ?thesis
    using inv es'(2) set by (auto simp: running_inv_def world_inv_def queue_inv_def count_inv_def)
qed

subsection \<open>The operations keep the invariant\<close>

text \<open>What an operation owes: its actions are safe to interrupt and the new queue fits the result.\<close>

definition keeps :: "runtime \<Rightarrow> act list \<Rightarrow> queueEntry list \<Rightarrow> int \<Rightarrow> nat \<Rightarrow> world \<Rightarrow> bool" where
  "keeps rt acts es by d w \<longleftrightarrow> safe rt acts w \<and> running_inv rt es by d 0 (run_acts acts w)"

lemma keeps_Nil [simp]: "keeps rt [] es by d w \<longleftrightarrow> running_inv rt es by d 0 w"
  by (auto simp: keeps_def running_world)

lemma keeps_append: "safe rt as w \<Longrightarrow> keeps rt bs es by d (run_acts as w) \<Longrightarrow> keeps rt (as @ bs) es by d w"
  by (simp add: keeps_def safe_append)

lemma keeps_closing: "running_inv rt es by d m w \<Longrightarrow> keeps rt (closing_sync io) es by d w"
  using running_sync [of rt es "by" d 0 w] running_slack [of rt es "by" d m w 0]
  by (auto simp: keeps_def closing_sync_def running_world simp del: apply_act.simps)

lemma prune_loop_keeps:
  "running_inv rt es by d 0 w \<Longrightarrow> prune_loop io cutoff mx k es by d = ((es', by', d'), acts, ok) \<Longrightarrow> keeps rt acts es' by' d' w"
proof (induction es arbitrary: k "by" d w es' by' d' acts ok)
  case Nil
  then show ?case by simp
next
  case (Cons e es)
  show ?case
  proof (cases "by > mx \<or> Before (entry_time e) cutoff")
    case False
    then show ?thesis using Cons.prems by auto
  next
    case True
    obtain wacts wok where wr: "writeAtomic (count_write io k) dropped_name (FormatUint (wrap_count (d + 1))) = (wacts, wok)"
      by fastforce
    note W = write_count [OF Cons.prems(1) wr]
    obtain es1 by1 d1 acts1 ok1 where rec: "prune_loop io cutoff mx (k + 1) es (by - size e) (wrap_count (d + 1)) = ((es1, by1, d1), acts1, ok1)"
      by (metis surj_pair)
    consider "\<not> wok" | "wok" "remove_fails io k" | "wok" "\<not> remove_fails io k" by blast
    then show ?thesis
    proof cases
      case 1
      then show ?thesis using Cons.prems(2) True wr W by (auto simp: keeps_def simp del: apply_act.simps)
    next
      case 2
      then have "running_inv rt (e # es) by (wrap_count (d + 1)) 0 (run_acts (Ask 1 # wacts) w)"
        using W running_slack by blast
      then show ?thesis using Cons.prems(2) True wr W 2 by (auto simp: keeps_def simp del: apply_act.simps)
    next
      case 3
      let ?v = "run_acts (Ask 1 # wacts) w"
      have "running_inv rt (e # es) by (wrap_count (d + 1)) (Suc 0) ?v" using W 3 by simp
      with running_lose [of rt "[]" e es "by" _ 0 ?v]
      have l: "running_inv rt es (by - size e) (wrap_count (d + 1)) 0 (apply_act (Lose (entry_id e)) ?v)" by simp
      have "keeps rt acts1 es1 by1 d1 (apply_act (Lose (entry_id e)) ?v)" by (rule Cons.IH [OF l rec])
      then have "keeps rt (Lose (entry_id e) # acts1) es1 by1 d1 ?v"
        using W safe_end [of rt "Ask 1 # wacts" w] by (simp add: keeps_def del: apply_act.simps)
      moreover have "safe rt (Ask 1 # wacts) w" using W by blast
      ultimately have "keeps rt ((Ask 1 # wacts) @ Lose (entry_id e) # acts1) es1 by1 d1 w"
        using keeps_append by blast
      then show ?thesis using Cons.prems(2) True wr rec 3 by simp
    qed
  qed
qed

abbreviation spool_inv :: "runtime \<Rightarrow> Spool \<Rightarrow> world \<Rightarrow> bool" where
  "spool_inv rt q w \<equiv> running_inv rt (entries q) (bytes q) (dropped q) 0 w"

abbreviation op_keeps :: "runtime \<Rightarrow> act list \<Rightarrow> Spool \<Rightarrow> world \<Rightarrow> bool" where
  "op_keeps rt acts q w \<equiv> keeps rt acts (entries q) (bytes q) (dropped q) w"

lemma pruneLocked_keeps: "spool_inv rt q w \<Longrightarrow> pruneLocked io now q = (q', acts, ok) \<Longrightarrow> op_keeps rt acts q' w"
proof -
  assume inv: "spool_inv rt q w" and p: "pruneLocked io now q = (q', acts, ok)"
  obtain es by' d pacts pok where
    l: "prune_loop io (Add now (- age q)) (limit q) 0 (entries q) (bytes q) (dropped q) = ((es, by', d), pacts, pok)"
    by (metis surj_pair)
  have k: "keeps rt pacts es by' d w" by (rule prune_loop_keeps [OF inv l])
  then have "keeps rt (pacts @ closing_sync io) es by' d w"
    by (intro keeps_append keeps_closing) (auto simp: keeps_def)
  with k p l show ?thesis by (auto simp: pruneLocked_def Let_def split: if_splits)
qed

lemma Batch_keeps: "spool_inv rt q w \<Longrightarrow> Batch io now q = (q', acts, out) \<Longrightarrow> op_keeps rt acts q' w"
proof -
  assume inv: "spool_inv rt q w" and b: "Batch io now q = (q', acts, out)"
  obtain q1 acts1 ok where p: "pruneLocked io now q = (q1, acts1, ok)" by (metis surj_pair)
  with b have "q' = q1" "acts = acts1" by (auto simp: Batch_def split: if_splits)
  then show ?thesis using pruneLocked_keeps [OF inv p] by simp
qed

text \<open>\<open>xs\<close> are the entries the loop has kept so far.\<close>

lemma ack_loop_keeps:
  "mk = Settle \<or> mk = Lose \<and> count_if (\<lambda>e. entry_id e \<in> set ids) es \<le> m \<Longrightarrow>
   running_inv rt (xs @ es) by d m w \<Longrightarrow> ack_loop mk fails ids k es by = ((kept, by'), acts, ok) \<Longrightarrow>
   keeps rt acts (xs @ kept) by' d w"
proof (induction es arbitrary: k "by" m w xs kept by' acts ok)
  case Nil
  then show ?case using running_slack by fastforce
next
  case (Cons e es)
  show ?case
  proof (cases "entry_id e \<in> set ids \<and> \<not> fails k")
    case False
    then obtain kept1 k' ok1 where r: "ack_loop mk fails ids k' es by = ((kept1, by'), acts, ok1)" "kept = e # kept1"
      using Cons.prems(3) by (auto split: if_splits prod.splits)
    have "mk = Settle \<or> mk = Lose \<and> count_if (\<lambda>e. entry_id e \<in> set ids) es \<le> m"
      using Cons.prems(1) by (auto split: if_splits)
    from Cons.IH [OF this, of "xs @ [e]" "by" w k' kept1 by' acts ok1] r Cons.prems(2) show ?thesis by simp
  next
    case True
    obtain kept1 by1 acts1 ok1 where r: "ack_loop mk fails ids (k + 1) es (by - size e) = ((kept1, by1), acts1, ok1)"
      by (metis surj_pair)
    then have eq: "kept = kept1" "by' = by1" "acts = mk (entry_id e) # acts1" using Cons.prems(3) True by auto
    obtain m1 where "mk = Settle \<or> mk = Lose \<and> count_if (\<lambda>e. entry_id e \<in> set ids) es \<le> m1"
      and i: "running_inv rt (xs @ es) (by - size e) d m1 (apply_act (mk (entry_id e)) w)"
    proof (cases "mk = Settle")
      case True
      then show ?thesis using that [of m] running_settle [OF Cons.prems(2)] by simp
    next
      case False
      then have "mk = Lose" "Suc (count_if (\<lambda>e. entry_id e \<in> set ids) es) \<le> m" using Cons.prems(1) True by auto
      then show ?thesis
        using that [of "m - 1"] running_lose [of rt xs e es "by" d "m - 1" w] Cons.prems(2) by (cases m) auto
    qed
    then have "keeps rt acts1 (xs @ kept1) by1 d (apply_act (mk (entry_id e)) w)"
      by (intro Cons.IH [OF _ i r])
    then show ?thesis using eq running_world [OF Cons.prems(2)] by (simp add: keeps_def del: apply_act.simps)
  qed
qed

lemma ackLocked_keeps:
  assumes mk: "mk = Settle \<or> mk = Lose \<and> count_if (\<lambda>e. entry_id e \<in> set ids) (entries q) \<le> m"
    and inv: "running_inv rt (entries q) (bytes q) (dropped q) m w" and a: "ackLocked mk io ids q = (q', acts, ok)"
  shows "op_keeps rt acts q' w"
proof -
  obtain kept by' lacts lok where
    l: "ack_loop mk (remove_fails io) ids 0 (entries q) (bytes q) = ((kept, by'), lacts, lok)" by (metis surj_pair)
  have "keeps rt lacts kept by' (dropped q) w" using ack_loop_keeps [OF mk, of rt "[]" _ "dropped q" w] inv l by simp
  then have "keeps rt (lacts @ closing_sync io) kept by' (dropped q) w"
    by (intro keeps_append keeps_closing) (auto simp: keeps_def)
  with a l show ?thesis by (auto simp: ackLocked_def)
qed

lemma Ack_keeps: "spool_inv rt q w \<Longrightarrow> Ack io ids q = (q', acts, ok) \<Longrightarrow> op_keeps rt acts q' w"
  by (rule ackLocked_keeps) (auto simp: Ack_def)

lemma Reject_keeps:
  assumes inv: "spool_inv rt q w" and r: "Reject io ids q = (q', acts, ok)"
  shows "op_keeps rt acts q' w"
proof -
  let ?n = "count_if (\<lambda>e. entry_id e \<in> set ids) (entries q)"
  show ?thesis
  proof (cases "?n = 0")
    case True
    then show ?thesis using r inv by (intro ackLocked_keeps [where mk = Lose and m = 0]) (auto simp: Reject_def)
  next
    case False
    let ?v = "wrap_count (dropped q + ?n)"
    obtain wacts wok where wr: "writeAtomic (count_write io 0) dropped_name (FormatUint ?v) = (wacts, wok)" by fastforce
    note W = write_count [OF inv wr]
    obtain q1 acts1 ok1 where a: "ackLocked Lose io ids (q\<lparr>dropped := ?v\<rparr>) = (q1, acts1, ok1)" by (metis surj_pair)
    show ?thesis
    proof (cases wok)
      case True
      have "op_keeps rt acts1 q1 (run_acts (Ask ?n # wacts) w)"
        by (rule ackLocked_keeps [OF _ _ a, where m = ?n]) (use W True in simp_all)
      then have "op_keeps rt ((Ask ?n # wacts) @ acts1) q1 w" using W by (intro keeps_append) blast+
      then show ?thesis using r False wr a True by (simp add: Reject_def)
    next
      case no: False
      then show ?thesis using r False wr W by (auto simp: Reject_def keeps_def simp del: apply_act.simps)
    qed
  qed
qed

lemma Add_keeps:
  assumes rt: "runtime_ok rt" and inv: "spool_inv rt q w"
    and a: "Add_sample rt now0 we now io s q = (q', acts, r)"
  shows "op_keeps rt acts q' w"
proof (cases "Validate now0 s = None \<and> (\<exists>b. marshal rt s = Some b \<and> int (length b) \<le> 32768) \<and> ID s \<notin> entry_id ` set (entries q)")
  case False
  then have "q' = q \<and> acts = []"
    using a by (auto simp: Add_sample_def list_ex_iff split: option.splits if_splits)
  then show ?thesis using inv by simp
next
  case True
  then obtain b where v: "Validate now0 s = None" and b: "marshal rt s = Some b" "int (length b) \<le> 32768"
    and new: "ID s \<notin> entry_id ` set (entries q)" by blast
  have hex: "hex_ok (ID s)" "length (ID s) = 32" using Validate_ID [OF v] by (simp_all add: hex_ok_def)
  with runtime_marshal [OF rt b(1)] b(2) have wr: "writable rt s b" by (simp add: writable_def)
  obtain wacts wok where wa: "writeAtomic we (sample_name (ID s)) b = (wacts, wok)" by fastforce
  let ?es = "sort_entries rt (entries q @ [\<lparr>sample = s, size = int (length b)\<rparr>])"
  let ?q1 = "q\<lparr>entries := ?es, bytes := bytes q + int (length b)\<rparr>"
  have W: "safe rt wacts w \<and> spool_inv rt q (run_acts wacts w) \<and>
     (wok \<longrightarrow> running_inv rt ?es (bytes q + int (length b)) (dropped q) 0 (apply_act (Accept (ID s)) (run_acts wacts w)))"
  proof (rule writeAtomic_run [OF inv wa])
    fix w' t assume i: "spool_inv rt q w'" and t: "is_pending t"
    have u: "spool_inv rt q (apply_act (Unlink t) w')" by (rule running_unlink [OF i t])
    have p: "spool_inv rt q (put_sample (ID s) b (apply_act (Unlink t) w'))" by (rule running_put_sample [OF u new wr])
    have eq: "apply_act (Rename t (sample_name (ID s)) b) w' = put_sample (ID s) b (apply_act (Unlink t) w')"
      by (simp add: put_sample_def)
    show "spool_inv rt q (apply_act (Rename t (sample_name (ID s)) b) w') \<and>
      running_inv rt ?es (bytes q + int (length b)) (dropped q) 0
        (apply_act (Accept (ID s)) (apply_act Sync (apply_act (Rename t (sample_name (ID s)) b) w')))"
      unfolding eq using p running_accept [OF p new wr runtime_sort [OF rt]] by blast
  qed
  obtain q2 pacts ok where p: "pruneLocked io now ?q1 = (q2, pacts, ok)" by (metis surj_pair)
  have dup: "\<not> list_ex (\<lambda>e. entry_id e = ID s) (entries q)" using new unfolding list_ex_iff by (metis imageI)
  show ?thesis
  proof (cases wok)
    case True
    have "op_keeps rt pacts q2 (apply_act (Accept (ID s)) (run_acts wacts w))"
      by (rule pruneLocked_keeps [OF _ p]) (use W True in simp)
    then have "op_keeps rt (Accept (ID s) # pacts) q2 (run_acts wacts w)"
      using W by (auto simp: keeps_def running_world simp del: apply_act.simps)
    then have "op_keeps rt (wacts @ Accept (ID s) # pacts) q2 w" using W by (intro keeps_append) blast+
    then show ?thesis using a v b dup wa p True by (simp add: Add_sample_def)
  next
    case False
    then show ?thesis using a v b dup wa W by (auto simp: Add_sample_def keeps_def)
  qed
qed

subsection \<open>Opening\<close>

definition disk_entry :: "runtime \<Rightarrow> dir \<Rightarrow> queueEntry \<Rightarrow> bool" where
  "disk_entry rt d e \<longleftrightarrow> \<not> is_pending (sample_name (entry_id e)) \<and> length (entry_id e) = 32 \<and>
     (\<exists>b. mget d (sample_name (entry_id e)) = Some (Regular b) \<and> int (length b) \<le> 32768 \<and> size e = int (length b) \<and>
        unmarshal rt b = Some (sample e))"

lemma disk_entry_stored: "disk_entry rt d e \<Longrightarrow> stored rt d e"
  by (auto simp: disk_entry_def stored_def)

text \<open>The samples among the file names, in the order of the names.\<close>

definition sample_files :: "string list \<Rightarrow> string list" where
  "sample_files fs = filter (\<lambda>f. \<not> is_pending f \<and> HasSuffix f sample_suffix) fs"

lemma load_sample_Inr:
  assumes "load_sample rt env d f = Inr e" "\<not> is_pending f"
  shows "f = sample_name (entry_id e) \<and> disk_entry rt d e"
  using assms by (auto simp: load_sample_def disk_entry_def split: option.splits node.splits if_splits)

lemma load_loop_Inr:
  "load_loop rt env d fs es by = (acts, Inr (es', by')) \<Longrightarrow>
     \<exists>new. es' = es @ new \<and> by' = by + sum_list (map size new) \<and> map (\<lambda>e. sample_name (entry_id e)) new = sample_files fs \<and>
       (\<forall>e \<in> set new. disk_entry rt d e)"
proof (induction fs arbitrary: es "by" acts)
  case Nil
  then show ?case by (simp add: sample_files_def)
next
  case (Cons f fs)
  consider "is_pending f" | "\<not> is_pending f" "\<not> HasSuffix f sample_suffix" | "\<not> is_pending f" "HasSuffix f sample_suffix" by blast
  then show ?case
  proof cases
    case 1
    then obtain acts1 where "load_loop rt env d fs es by = (acts1, Inr (es', by'))"
      using Cons.prems by (auto split: if_splits prod.splits)
    from Cons.IH [OF this] 1 show ?thesis by (simp add: sample_files_def)
  next
    case 2
    then show ?thesis using Cons by (simp add: sample_files_def)
  next
    case 3
    then obtain e where e: "load_sample rt env d f = Inr e" and "load_loop rt env d fs (es @ [e]) (by + size e) = (acts, Inr (es', by'))"
      using Cons.prems by (auto split: sum.splits)
    from Cons.IH [OF this(2)] obtain new where "es' = es @ e # new" "by' = by + size e + sum_list (map size new)"
      "map (\<lambda>e. sample_name (entry_id e)) new = sample_files fs" "\<forall>e \<in> set new. disk_entry rt d e" by auto
    then show ?thesis using 3 load_sample_Inr [OF e 3(1)]
      by (intro exI [of _ "e # new"]) (auto simp: sample_files_def)
  qed
qed

text \<open>The loop only removes temporary files.\<close>

lemma load_loop_acts: "load_loop rt env d fs es by = (acts, r) \<Longrightarrow> \<forall>a \<in> set acts. \<exists>t. a = Unlink t \<and> is_pending t"
  by (induction fs arbitrary: es "by" acts) (auto split: if_splits prod.splits sum.splits)

lemma world_same_files: "world_inv rt w \<Longrightarrow> same_files (cur w) c \<Longrightarrow> world_inv rt (w\<lparr>cur := c\<rparr>)"
  using same_files_kept [of "cur w" c rt] same_files_dir_ok [of "cur w" c rt] same_files_counter [of "cur w" c]
  by (auto simp: world_inv_def)

lemma world_unlink: "world_inv rt w \<Longrightarrow> is_pending t \<Longrightarrow> world_inv rt (apply_act (Unlink t) w)"
  using world_same_files [OF _ same_files_del, of rt w t] dir_ok_mok [of rt "cur w"] by (auto simp: world_inv_def)

lemma unlinks_safe:
  "\<forall>a \<in> set acts. \<exists>t. a = Unlink t \<and> is_pending t \<Longrightarrow> world_inv rt w \<Longrightarrow> safe rt acts w \<and>
     same_files (cur w) (cur (run_acts acts w)) \<and> run_acts acts w = w\<lparr>cur := cur (run_acts acts w)\<rparr>"
proof (induction acts arbitrary: w)
  case Nil
  then show ?case by (auto simp: same_files_def world_inv_def intro: dir_ok_mok)
next
  case (Cons a acts)
  then obtain t where t: "a = Unlink t" "is_pending t" by auto
  have m: "mok (cur w)" using Cons.prems(2) dir_ok_mok by (auto simp: world_inv_def)
  have "safe rt acts (apply_act a w) \<and> same_files (cur (apply_act a w)) (cur (run_acts acts (apply_act a w))) \<and>
     run_acts acts (apply_act a w) = (apply_act a w)\<lparr>cur := cur (run_acts acts (apply_act a w))\<rparr>"
    using Cons.IH [of "apply_act a w"] Cons.prems world_unlink t by auto
  moreover have "same_files (cur w) (cur (apply_act a w))" using same_files_del [OF m t(2)] t(1) by simp
  ultimately show ?case using Cons.prems(2) same_files_trans t(1) by auto
qed

lemma stored_unique: "stored rt d e \<Longrightarrow> disk_entry rt d e' \<Longrightarrow> entry_id e = entry_id e' \<Longrightarrow> size e = size e' \<and> entry_time e = entry_time e'"
  by (auto simp: stored_def disk_entry_def)

text \<open>What the reading part of \<^verbatim>\<open>OpenSpool\<close> finds is the directory.\<close>

lemma read_dropped_Inr:
  assumes "runtime_ok rt" "dir_ok rt d" "read_dropped rt env d = Inr n"
  shows "n = counter d \<and> n < 18446744073709551616"
proof (cases "mget d dropped_name")
  case None
  then show ?thesis using assms(3) by (simp add: read_dropped_def counter_def)
next
  case (Some x)
  then obtain k where "k < 18446744073709551616" "x = Regular (FormatUint k)" using dir_ok_count [OF assms(2)] by blast
  then show ?thesis
    using Some assms(3) runtime_count [OF assms(1)]
    by (auto simp: read_dropped_def counter_def digits_value_FormatUint split: if_splits)
qed

lemma loaded_inv:
  assumes rt: "runtime_ok rt" and inv: "world_inv rt w"
    and n: "read_dropped rt env (cur w) = Inr n"
    and l: "load_loop rt env (cur w) (sort (mkeys (cur w))) [] 0 = (acts, Inr (es, by))"
  shows "running_inv rt (sort_entries rt es) by n 0 w"
    and "entry_id ` set (sort_entries rt es) = {i. \<not> is_pending (sample_name i) \<and> mget (cur w) (sample_name i) \<noteq> None}"
proof -
  have ok: "dir_ok rt (cur w)" using inv by (simp add: world_inv_def)
  from load_loop_Inr [OF l] have es: "by = sum_list (map size es)"
      "map (\<lambda>e. sample_name (entry_id e)) es = sample_files (sort (mkeys (cur w)))" "\<forall>e \<in> set es. disk_entry rt (cur w) e" by auto
  have set: "set (sort_entries rt es) = set es" using runtime_sort(1) [OF rt] by (metis mset_eq_setD)
  have names: "(\<lambda>e. sample_name (entry_id e)) ` set es = {f \<in> fst ` set (cur w). \<not> is_pending f \<and> HasSuffix f sample_suffix}"
    using arg_cong [OF es(2), of set] by (auto simp: sample_files_def)
  have "distinct (map (\<lambda>e. sample_name (entry_id e)) es)"
    unfolding es(2) sample_files_def using dir_ok_mok [OF ok] by (simp add: mok_def)
  then have "distinct (map entry_id es)" by (simp add: distinct_map inj_on_def)
  moreover have "mset (map entry_id (sort_entries rt es)) = mset (map entry_id es)" using runtime_sort(1) [OF rt] by simp
  ultimately have dist: "distinct (map entry_id (sort_entries rt es))" by (metis mset_eq_imp_distinct_iff)
  have "mset (map size (sort_entries rt es)) = mset (map size es)" using runtime_sort(1) [OF rt] by simp
  then have sum: "by = sum_list (map size (sort_entries rt es))" unfolding es(1) by (metis sum_mset_sum_list)
  show ids: "entry_id ` set (sort_entries rt es) = {i. \<not> is_pending (sample_name i) \<and> mget (cur w) (sample_name i) \<noteq> None}"
  proof -
    have "i \<in> entry_id ` set es \<longleftrightarrow> sample_name i \<in> (\<lambda>e. sample_name (entry_id e)) ` set es" for i by auto
    then show ?thesis unfolding names set by (auto simp: mget_keys sample_suffixed)
  qed
  have "set (owed w) \<subseteq> entry_id ` set (sort_entries rt es)"
    unfolding ids using inv by (auto simp: world_inv_def kept_on_def stored_def)
  with dist sum set es(3) disk_entry_stored runtime_sort(2) [OF rt]
  have "queue_inv rt (sort_entries rt es) by w" by (auto simp: queue_inv_def)
  moreover have "count_inv n 0 w" using read_dropped_Inr [OF rt ok n] inv by (auto simp: count_inv_def world_inv_def)
  ultimately show "running_inv rt (sort_entries rt es) by n 0 w" using inv by (simp add: running_inv_def)
qed

lemma OpenSpool_keeps:
  assumes rt: "runtime_ok rt" and inv: "world_inv rt w" and o: "OpenSpool rt env now io (cur w) = (acts, r)"
  shows "safe rt acts w \<and> (\<forall>q. r = Inr q \<longrightarrow> spool_inv rt q (run_acts acts w))"
proof -
  obtain lacts lr where l: "load_loop rt env (cur w) (sort (mkeys (cur w))) [] 0 = (lacts, lr)" by fastforce
  note U = unlinks_safe [OF load_loop_acts [OF l] inv]
  consider (early) "acts = []" "isl r" | (load) "acts = lacts" "isl r"
    | (prune) n es "by" where "read_dropped rt env (cur w) = Inr n" "lr = Inr (es, by)"
      "(acts, r) = (let (q, pacts, ok) = pruneLocked io now
           \<lparr>entries = sort_entries rt es, bytes = by, dropped = n, limit = MaxQueueBytes, age = MaxAge\<rparr>
         in (lacts @ pacts, if ok then Inr q else Inl OpenIO))"
    using o l by (auto simp: OpenSpool_def split: if_splits sum.splits)
  then show ?thesis
  proof cases
    case early
    then show ?thesis using inv by auto
  next
    case load
    then show ?thesis using U by auto
  next
    case (prune n es "by")
    let ?q = "\<lparr>entries = sort_entries rt es, bytes = by, dropped = n, limit = MaxQueueBytes, age = MaxAge\<rparr>"
    obtain q pacts ok where p: "pruneLocked io now ?q = (q, pacts, ok)" by (metis surj_pair)
    have "running_inv rt (sort_entries rt es) by n 0 w" using loaded_inv(1) [OF rt inv prune(1)] l prune(2) by blast
    then have "spool_inv rt ?q (run_acts lacts w)"
      using running_same_files [of rt _ "by" n 0 w "cur (run_acts lacts w)"] U by simp
    then have k: "op_keeps rt pacts q (run_acts lacts w)" by (rule pruneLocked_keeps [OF _ p])
    have "op_keeps rt (lacts @ pacts) q w" by (rule keeps_append [OF _ k]) (use U in blast)
    then show ?thesis using prune(3) p by (auto simp: keeps_def)
  qed
qed

section \<open>Nothing is lost silently\<close>

lemma crashed_dir:
  assumes a: "dir_ok rt a" and b: "dir_ok rt b" and m: "mok d"
    and e: "\<And>f. \<not> is_pending f \<Longrightarrow> mget d f = mget a f \<or> mget d f = mget b f"
  shows "dir_ok rt d"
    and "kept_on rt a i \<Longrightarrow> kept_on rt b i \<Longrightarrow> kept_on rt d i"
    and "counter d = counter a \<or> counter d = counter b"
proof -
  show "dir_ok rt d"
  proof (rule dir_okI [OF m])
    fix i assume p: "\<not> is_pending (sample_name i)" and "mget d (sample_name i) \<noteq> None"
    then show "\<exists>x. i = entry_id x \<and> stored rt d x"
      using e [OF p] dir_ok_sample [OF a p] dir_ok_sample [OF b p] stored_cong [of d _ a rt] stored_cong [of d _ b rt] by metis
  next
    fix x assume "mget d dropped_name = Some x"
    then show "\<exists>n < 18446744073709551616. x = Regular (FormatUint n)"
      using e [of dropped_name] dir_ok_count [OF a] dir_ok_count [OF b] by auto
  qed
  show "kept_on rt d i" if "kept_on rt a i" "kept_on rt b i"
  proof -
    from that obtain x y where x: "entry_id x = i" "stored rt a x" and y: "entry_id y = i" "stored rt b y"
      by (auto simp: kept_on_def)
    from e [of "sample_name i"] stored_not_pending [OF x(2)] x(1)
    consider "mget d (sample_name i) = mget a (sample_name i)" | "mget d (sample_name i) = mget b (sample_name i)" by auto
    then show ?thesis
      using x y stored_cong [of d x a rt] stored_cong [of d y b rt] by cases (auto simp: kept_on_def)
  qed
  show "counter d = counter a \<or> counter d = counter b"
    using e [of dropped_name] by (auto simp: counter_def)
qed

lemma crashed_world: "world_inv rt w \<Longrightarrow> crashed w w' \<Longrightarrow> world_inv rt w'"
proof -
  assume inv: "world_inv rt w" and "crashed w w'"
  then obtain d where m: "mok d" and e: "\<And>f. \<not> is_pending f \<Longrightarrow> mget d f = mget (cur w) f \<or> mget d f = mget (dur w) f"
    and w': "w' = w\<lparr>cur := d, dur := d\<rparr>" by (auto simp: crashed_def)
  have ok: "dir_ok rt (cur w)" "dir_ok rt (dur w)" using inv by (simp_all add: world_inv_def)
  note D = crashed_dir [OF ok m e]
  show ?thesis using inv D(1,2) D(3) by (auto simp: world_inv_def w')
qed

definition outbox_inv :: "runtime \<Rightarrow> spool_sys \<Rightarrow> bool" where
  "outbox_inv rt s \<longleftrightarrow> (runtime_ok rt \<longrightarrow> world_inv rt (snd s) \<and>
     (\<forall>q. fst s = Some q \<longrightarrow> spool_inv rt q (snd s) \<and> limit q = MaxQueueBytes \<and> age q = MaxAge))"

lemma health_keeps:
  assumes inv: "spool_inv rt q w" and h: "writeAtomic we health_name b = (acts, ok)"
  shows "op_keeps rt acts q w"
proof -
  have "safe rt acts w \<and> spool_inv rt q (run_acts acts w) \<and> (ok \<longrightarrow> True)"
  proof (rule writeAtomic_run [OF inv h])
    fix w' t assume i: "spool_inv rt q w'" and t: "is_pending t"
    have m: "mok (cur w')" by (rule running_mok [OF i])
    have "same_files (cur w') (mput health_name (Regular b) (mdel t (cur w')))"
      by (rule same_files_trans [OF same_files_del [OF m t] same_files_health]) (use m in simp)
    from running_same_files [OF i this]
    show "spool_inv rt q (apply_act (Rename t health_name b) w') \<and> True" by simp
  qed
  then show ?thesis by (simp add: keeps_def)
qed

lemma spool_op_keeps: "runtime_ok rt \<Longrightarrow> spool_op rt q acts q' \<Longrightarrow> spool_inv rt q w \<Longrightarrow> op_keeps rt acts q' w"
  by (erule spool_op.cases) (auto intro: Add_keeps Batch_keeps Ack_keeps Reject_keeps health_keeps)

lemma pruneLocked_limits: "pruneLocked io now q = (q', acts, ok) \<Longrightarrow> limit q' = limit q \<and> age q' = age q"
  by (auto simp: pruneLocked_def Let_def split_beta split: if_splits)

lemma ackLocked_limits: "ackLocked mk io ids q = (q', acts, ok) \<Longrightarrow> limit q' = limit q \<and> age q' = age q"
  by (auto simp: ackLocked_def Let_def split_beta)

lemma Reject_limits: "Reject io ids q = (q', acts, ok) \<Longrightarrow> limit q' = limit q \<and> age q' = age q"
  by (auto simp: Reject_def Let_def dest!: ackLocked_limits split: if_splits prod.splits)

lemma Batch_limits: "Batch io now q = (q', acts, out) \<Longrightarrow> limit q' = limit q \<and> age q' = age q"
  by (auto simp: Batch_def Let_def dest!: pruneLocked_limits split: if_splits prod.splits)

lemma Add_limits: "Add_sample rt now0 we now io s q = (q', acts, r) \<Longrightarrow> limit q' = limit q \<and> age q' = age q"
  by (auto simp: Add_sample_def Let_def dest!: pruneLocked_limits split: if_splits prod.splits option.splits)

lemma spool_op_limits: "spool_op rt q acts q' \<Longrightarrow> limit q' = limit q \<and> age q' = age q"
  by (erule spool_op.cases) (auto dest: Add_limits Batch_limits ackLocked_limits Reject_limits simp: Ack_def)

lemma OpenSpool_limits: "OpenSpool rt env now io d = (acts, Inr q) \<Longrightarrow> limit q = MaxQueueBytes \<and> age q = MaxAge"
  by (auto simp: OpenSpool_def Let_def dest!: pruneLocked_limits split: if_splits prod.splits sum.splits)

interpretation outbox: transition_system spool_init "spool_step rt" "outbox_inv rt" for rt
proof
  fix s assume "spool_init s"
  then show "outbox_inv rt s"
    by (auto simp: outbox_inv_def spool_init_def world_inv_def dir_ok_def mok_def counter_def)
next
  fix s t assume inv: "outbox_inv rt s" and st: "spool_step rt s t"
  show "outbox_inv rt t"
    unfolding outbox_inv_def
  proof (intro impI)
    assume rt: "runtime_ok rt"
    from st show "world_inv rt (snd t) \<and>
      (\<forall>q. fst t = Some q \<longrightarrow> spool_inv rt q (snd t) \<and> limit q = MaxQueueBytes \<and> age q = MaxAge)"
    proof cases
      case (op_done q acts q' w)
      then have "op_keeps rt acts q' w" using spool_op_keeps [OF rt] inv rt by (simp add: outbox_inv_def)
      then show ?thesis using op_done running_world spool_op_limits [OF op_done(3)] inv rt
        by (auto simp: keeps_def outbox_inv_def)
    next
      case (op_crash q acts q' k w w')
      then have "op_keeps rt acts q' w" using spool_op_keeps [OF rt] inv rt by (simp add: outbox_inv_def)
      then show ?thesis using op_crash crashed_world [OF safe_prefix] by (auto simp: keeps_def)
    next
      case (open_done env now io w acts q)
      then show ?thesis
        using OpenSpool_keeps [OF rt _ open_done(3)] OpenSpool_limits [OF open_done(3)] inv rt safe_end
        by (auto simp: outbox_inv_def)
    next
      case (open_failed env now io w acts e)
      then show ?thesis using OpenSpool_keeps [OF rt _ open_failed(3)] inv rt safe_end by (auto simp: outbox_inv_def)
    next
      case (open_crash env now io w acts r k w')
      then show ?thesis using OpenSpool_keeps [OF rt _ open_crash(3)] inv rt crashed_world [OF safe_prefix] by (auto simp: outbox_inv_def)
    qed (use inv rt in \<open>auto simp: outbox_inv_def\<close>)
  qed
qed

text \<open>C4. No silent loss. Let the agent run in any way: operations with any failures of the file system,
  stops and crashes between any two actions, restarts that succeed or fail. Every sample taken into
  the outbox and not acknowledged or given up since is in the directory as the process sees it and
  in the part that survives a crash, readable under its own name, and it is queued in the running
  process. The samples given up never exceed the persisted count of losses, as long as the 64-bit
  counter has not been asked to count past its range.\<close>

theorem spool_no_silent_loss:
  assumes "runtime_ok rt" and "reach spool_init (spool_step rt) (m, w)"
  shows "(\<forall>i. i \<in> set (owed w) \<longrightarrow> kept_on rt (cur w) i \<and> kept_on rt (dur w) i \<and>
        (\<forall>q. m = Some q \<longrightarrow> i \<in> entry_id ` set (entries q))) \<and>
     (asked w < 18446744073709551616 \<longrightarrow> length (lost w) \<le> counter (cur w) \<and> length (lost w) \<le> counter (dur w))"
  using outbox.reach_inv [OF assms(2)] assms(1)
  by (auto simp: outbox_inv_def running_inv_def world_inv_def queue_inv_def)

section \<open>Pruning, batches and the backlog\<close>

definition clean_io :: "io_env \<Rightarrow> bool" where
  "clean_io io \<longleftrightarrow> (\<forall>k. write_end (count_write io k) = Written \<and> \<not> remove_fails io k) \<and> sync_ok io"

fun overdue :: "time \<Rightarrow> int \<Rightarrow> queueEntry list \<Rightarrow> int \<Rightarrow> nat" where
  "overdue cutoff mx [] by = 0"
| "overdue cutoff mx (e # es) by =
     (if by > mx \<or> Before (entry_time e) cutoff then Suc (overdue cutoff mx es (by - size e)) else 0)"

lemma wrap_count_add: "wrap_count (wrap_count a + b) = wrap_count (a + b)"
  by (simp add: wrap_count_def mod_simps)

lemma prune_loop_clean:
  assumes "clean_io io"
  shows "d < 18446744073709551616 \<Longrightarrow> \<exists>acts. prune_loop io cutoff mx k es by d =
     ((drop (overdue cutoff mx es by) es, by - sum_list (map size (take (overdue cutoff mx es by) es)),
       wrap_count (d + overdue cutoff mx es by)), acts, True)"
proof (induction es arbitrary: k "by" d)
  case Nil
  then show ?case by (simp add: wrap_count_def)
next
  case (Cons e es)
  show ?case
  proof (cases "by > mx \<or> Before (entry_time e) cutoff")
    case False
    then show ?thesis using Cons.prems by (simp add: wrap_count_def)
  next
    case True
    have w: "snd (writeAtomic (count_write io k) dropped_name b)" for b
      using assms by (simp add: clean_io_def writeAtomic_def Let_def)
    have f: "\<not> remove_fails io k" using assms by (simp add: clean_io_def)
    have "wrap_count (d + 1) < 18446744073709551616" by (simp add: wrap_count_def)
    from Cons.IH [OF this, of "k + 1" "by - size e"] obtain acts where
      "prune_loop io cutoff mx (k + 1) es (by - size e) (wrap_count (d + 1)) =
       ((drop (overdue cutoff mx es (by - size e)) es,
         by - size e - sum_list (map size (take (overdue cutoff mx es (by - size e)) es)),
         wrap_count (wrap_count (d + 1) + overdue cutoff mx es (by - size e))), acts, True)" by blast
    then show ?thesis
      using True f w [of "FormatUint (wrap_count (d + 1))"] by (auto simp: split_beta Let_def wrap_count_add algebra_simps)
  qed
qed

text \<open>The samples given up are the oldest ones, as many as the limits require and no more.\<close>

lemma overdue_needed:
  "by = sum_list (map size es) \<Longrightarrow> j < overdue cutoff mx es by \<Longrightarrow>
     j < length es \<and> (sum_list (map size (drop j es)) > mx \<or> entry_time (es ! j) < cutoff)"
proof (induction es arbitrary: "by" j)
  case (Cons e es)
  then show ?case by (cases j) (auto split: if_splits)
qed simp

lemma overdue_enough:
  "by = sum_list (map size es) \<Longrightarrow> sorted (map entry_time es) \<Longrightarrow> 0 \<le> mx \<Longrightarrow>
     sum_list (map size (drop (overdue cutoff mx es by) es)) \<le> mx \<and>
     (\<forall>e \<in> set (drop (overdue cutoff mx es by) es). cutoff \<le> entry_time e)"
proof (induction es arbitrary: "by")
  case (Cons e es)
  then show ?case by (auto split: if_splits)
qed simp

lemma nth_in_drop: "n < length xs \<Longrightarrow> xs ! n \<in> set (drop n xs)"
  by (metis Cons_nth_drop_Suc list.set_intros(1))

lemma overdue_unique:
  assumes "by = sum_list (map size es)" "sorted (map entry_time es)" "0 \<le> mx"
  shows "n = overdue cutoff mx es by \<longleftrightarrow> n \<le> length es \<and>
     (\<forall>j < n. sum_list (map size (drop j es)) > mx \<or> entry_time (es ! j) < cutoff) \<and>
     sum_list (map size (drop n es)) \<le> mx \<and> (\<forall>e \<in> set (drop n es). cutoff \<le> entry_time e)"
    (is "_ \<longleftrightarrow> ?R n")
proof
  assume n: "n = overdue cutoff mx es by"
  have "n \<le> length es" using overdue_needed [OF assms(1), of "n - 1" cutoff mx] n by (cases n) auto
  then show "?R n" using overdue_needed [OF assms(1)] overdue_enough [OF assms] n by auto
next
  assume r: "?R n"
  let ?m = "overdue cutoff mx es by"
  show "n = ?m"
  proof (rule ccontr)
    assume "n \<noteq> ?m"
    then consider "n < ?m" | "?m < n" by linarith
    then show False
    proof cases
      case 1
      then have "n < length es" "sum_list (map size (drop n es)) > mx \<or> entry_time (es ! n) < cutoff"
        using overdue_needed [OF assms(1)] by blast+
      then show False using r nth_in_drop [of n es] by auto
    next
      case 2
      then have "sum_list (map size (drop ?m es)) > mx \<or> entry_time (es ! ?m) < cutoff" "?m < length es" using r by auto
      then show False using overdue_enough [OF assms, of cutoff] nth_in_drop [of ?m es] by auto
    qed
  qed
qed

text \<open>The entries that remain when the oldest are given up, as many as the limits require.\<close>

definition pruned_to :: "time \<Rightarrow> int \<Rightarrow> queueEntry list \<Rightarrow> queueEntry list \<Rightarrow> bool" where
  "pruned_to cutoff mx es es' \<longleftrightarrow> (\<exists>n \<le> length es. es' = drop n es \<and>
     (\<forall>j < n. sum_list (map size (drop j es)) > mx \<or> entry_time (es ! j) < cutoff) \<and>
     sum_list (map size es') \<le> mx \<and> (\<forall>e \<in> set es'. cutoff \<le> entry_time e))"

lemma pruneLocked_clean:
  assumes io: "clean_io io" and b: "bytes q = sum_list (map size (entries q))" "sorted (map entry_time (entries q))"
    and l: "0 \<le> limit q" "dropped q < 18446744073709551616"
  shows "\<exists>q' acts. pruneLocked io now q = (q', acts, True) \<and> pruned_to (now - age q) (limit q) (entries q) (entries q') \<and>
     bytes q' = sum_list (map size (entries q')) \<and>
     dropped q' = wrap_count (dropped q + (length (entries q) - length (entries q')))"
proof -
  let ?n = "overdue (now - age q) (limit q) (entries q) (bytes q)"
  obtain acts where p: "prune_loop io (Add now (- age q)) (limit q) 0 (entries q) (bytes q) (dropped q) =
     ((drop ?n (entries q), bytes q - sum_list (map size (take ?n (entries q))), wrap_count (dropped q + ?n)), acts, True)"
    using prune_loop_clean [OF io l(2), of "now - age q" "limit q" 0 "entries q" "bytes q"] by auto
  have n: "?n \<le> length (entries q) \<and> (\<forall>j < ?n. sum_list (map size (drop j (entries q))) > limit q \<or> entry_time (entries q ! j) < now - age q) \<and>
     sum_list (map size (drop ?n (entries q))) \<le> limit q \<and> (\<forall>e \<in> set (drop ?n (entries q)). now - age q \<le> entry_time e)"
    using overdue_unique [OF b l(1), of ?n "now - age q"] by blast
  have "sum_list (map size (entries q)) = sum_list (map size (take ?n (entries q))) + sum_list (map size (drop ?n (entries q)))"
    by (metis append_take_drop_id map_append sum_list.append)
  then show ?thesis
    using p n io b(1) by (auto simp: pruneLocked_def clean_io_def pruned_to_def intro!: exI [of _ ?n])
qed

lemma fill_batch_take: "length out \<le> 32 \<Longrightarrow> fill_batch out es = out @ map sample (take (32 - length out) es)"
proof (induction es arbitrary: out)
  case (Cons e es)
  show ?case
  proof (cases "length out < 32")
    case True
    then have "fill_batch (out @ [sample e]) es = (out @ [sample e]) @ map sample (take (32 - length (out @ [sample e])) es)"
      by (intro Cons.IH) simp
    moreover have "32 - length out = Suc (32 - length (out @ [sample e]))" using True by simp
    ultimately show ?thesis using True by (simp add: MaxBatch_def)
  next
    case False
    then show ?thesis using Cons.prems by (simp add: MaxBatch_def)
  qed
qed simp

definition batch_of :: "queueEntry list \<Rightarrow> Sample list" where
  "batch_of es = (if es = [] then [] else map sample (last es # take 31 (butlast es)))"

lemma batch_of_length: "length (batch_of es) = min 32 (length es)"
  by (cases es) (auto simp: batch_of_def min_def)

lemma batch_of_distinct: "distinct (map entry_id es) \<Longrightarrow> distinct (map ID (batch_of es))"
proof (cases es rule: rev_cases)
  case (snoc ys y)
  assume "distinct (map entry_id es)"
  then have d: "distinct (map entry_id ys)" "entry_id y \<notin> entry_id ` set ys" using snoc by auto
  have "distinct (map entry_id (take 31 ys))" using d(1) by (metis distinct_take take_map)
  moreover have "entry_id y \<notin> entry_id ` set (take 31 ys)" using d(2) set_take_subset [of 31 ys] by blast
  ultimately show ?thesis using snoc by (simp add: batch_of_def comp_def)
qed (simp add: batch_of_def)

lemma batch_of_subset: "set (map ID (batch_of es)) \<subseteq> entry_id ` set es"
proof (cases es rule: rev_cases)
  case (snoc ys y)
  then show ?thesis using set_take_subset [of 31 ys] by (auto simp: batch_of_def)
qed (simp add: batch_of_def)

lemma Batch_clean:
  assumes "clean_io io" "bytes q = sum_list (map size (entries q))" "sorted (map entry_time (entries q))"
    "0 \<le> limit q" "dropped q < 18446744073709551616"
  shows "\<exists>q' acts. Batch io now q = (q', acts, Some (batch_of (entries q'))) \<and>
     pruned_to (now - age q) (limit q) (entries q) (entries q') \<and> bytes q' = sum_list (map size (entries q')) \<and>
     dropped q' = wrap_count (dropped q + (length (entries q) - length (entries q')))"
  using pruneLocked_clean [OF assms, of now] by (auto simp: Batch_def batch_of_def fill_batch_take)

text \<open>C26. A batch of the running agent, when the file system obliges: first the oldest samples are given
  up, exactly as many as needed to hold 64 MiB and 24 hours, each counted; then the batch is the newest
  sample followed by the oldest of the others, at most 32, none twice.\<close>

theorem batch_exact:
  assumes "runtime_ok rt" and "reach spool_init (spool_step rt) (Some q, w)" and "clean_io io"
  shows "\<exists>q' acts out. Batch io now q = (q', acts, Some out) \<and>
     pruned_to (now - MaxAge) MaxQueueBytes (entries q) (entries q') \<and>
     dropped q' = wrap_count (dropped q + (length (entries q) - length (entries q'))) \<and>
     out = (if entries q' = [] then [] else map sample (last (entries q') # take 31 (butlast (entries q')))) \<and>
     length out = min 32 (length (entries q')) \<and> distinct (map ID out)"
proof -
  have inv: "spool_inv rt q w" "limit q = MaxQueueBytes" "age q = MaxAge"
    using outbox.reach_inv [OF assms(2)] assms(1) by (auto simp: outbox_inv_def)
  then have "bytes q = sum_list (map size (entries q))" "sorted (map entry_time (entries q))" "dropped q < 18446744073709551616"
    and d: "distinct (map entry_id (entries q))"
    by (auto simp: running_inv_def queue_inv_def count_inv_def)
  from Batch_clean [OF assms(3) this(1,2) _ this(3), of now] inv(2,3) obtain q' acts where
    b: "Batch io now q = (q', acts, Some (batch_of (entries q')))" "pruned_to (now - MaxAge) MaxQueueBytes (entries q) (entries q')"
      "dropped q' = wrap_count (dropped q + (length (entries q) - length (entries q')))" by (auto simp: MaxQueueBytes_def)
  from b(2) obtain n where "entries q' = drop n (entries q)" by (auto simp: pruned_to_def)
  then have "distinct (map entry_id (entries q'))" using d by (metis distinct_drop drop_map)
  then show ?thesis
    using b batch_of_length [of "entries q'"] batch_of_distinct [of "entries q'"]
    by (intro exI [of _ q'] exI [of _ acts] exI [of _ "batch_of (entries q')"]) (simp add: batch_of_def)
qed

lemma ack_loop_clean:
  "(\<And>k. \<not> fails k) \<Longrightarrow> \<exists>acts. ack_loop mk fails ids k es by =
     ((filter (\<lambda>e. entry_id e \<notin> set ids) es, by - sum_list (map size (filter (\<lambda>e. entry_id e \<in> set ids) es))), acts, True)"
proof (induction es arbitrary: k "by")
  case (Cons e es)
  from Cons.IH [OF Cons.prems, of k "by"] Cons.IH [OF Cons.prems, of "k + 1" "by - size e"] Cons.prems
  show ?case by (auto simp: algebra_simps)
qed simp

text \<open>The answers are clean and the Hub settles every sample it is sent, one way or the other.\<close>

definition settles_all :: "(Sample list \<Rightarrow> Response option) \<Rightarrow> bool" where
  "settles_all request \<longleftrightarrow> (\<forall>ss. \<exists>r. request ss = Some r \<and> ID ` set ss \<subseteq> set (rs_Ack r) \<union> set (rs_Rejected r))"

definition queue_ok :: "Spool \<Rightarrow> bool" where
  "queue_ok q \<longleftrightarrow> distinct (map entry_id (entries q)) \<and> bytes q = sum_list (map size (entries q)) \<and>
     sorted (map entry_time (entries q)) \<and> 0 \<le> limit q \<and> dropped q < 18446744073709551616"

lemma sum_filter: "sum_list (map size es) - sum_list (map size (filter P es)) = sum_list (map size (filter (\<lambda>e. \<not> P e) es))" for es :: "queueEntry list"
  by (induction es) auto

lemma queue_ok_filter:
  assumes "queue_ok q"
  shows "queue_ok (q\<lparr>entries := filter (\<lambda>e. entry_id e \<notin> set ids) (entries q),
     bytes := bytes q - sum_list (map size (filter (\<lambda>e. entry_id e \<in> set ids) (entries q)))\<rparr>)"
  using assms sum_filter [of "entries q" "\<lambda>e. entry_id e \<in> set ids"]
  by (auto simp: queue_ok_def distinct_map_filter sorted_filter)

lemma ackLocked_clean:
  assumes "clean_io io" "queue_ok q"
  shows "\<exists>q' acts. ackLocked mk io ids q = (q', acts, True) \<and> queue_ok q' \<and>
     entries q' = filter (\<lambda>e. entry_id e \<notin> set ids) (entries q)"
proof -
  have "\<And>k. \<not> remove_fails io k" using assms(1) by (simp add: clean_io_def)
  with ack_loop_clean [of "remove_fails io" mk ids 0 "entries q" "bytes q"] show ?thesis
    using assms(1) queue_ok_filter [OF assms(2), of ids] by (auto simp: ackLocked_def clean_io_def)
qed

lemma Reject_clean:
  assumes "clean_io io" "queue_ok q"
  shows "\<exists>q' acts. Reject io ids q = (q', acts, True) \<and> queue_ok q' \<and>
     entries q' = filter (\<lambda>e. entry_id e \<notin> set ids) (entries q)"
proof -
  let ?v = "wrap_count (dropped q + count_if (\<lambda>e. entry_id e \<in> set ids) (entries q))"
  have w: "snd (writeAtomic (count_write io 0) dropped_name (FormatUint ?v))"
    using assms(1) by (simp add: clean_io_def writeAtomic_def Let_def)
  have "queue_ok (q\<lparr>dropped := ?v\<rparr>)" using assms(2) by (simp add: queue_ok_def wrap_count_def)
  from ackLocked_clean [OF assms(1) this, of Lose ids] ackLocked_clean [OF assms, of Lose ids] w show ?thesis
    by (auto simp: Reject_def Let_def split_beta)
qed

lemma pruned_length: "pruned_to cutoff mx es es' \<Longrightarrow> length es' \<le> length es"
  by (auto simp: pruned_to_def)

lemma pruned_queue_ok:
  assumes "queue_ok q" "pruned_to cutoff mx (entries q) (entries q')" "bytes q' = sum_list (map size (entries q'))"
    "limit q' = limit q" "dropped q' = wrap_count n"
  shows "queue_ok q'"
proof -
  from assms(2) obtain k where "entries q' = drop k (entries q)" by (auto simp: pruned_to_def)
  then show ?thesis
    using assms by (simp add: queue_ok_def wrap_count_def drop_map [symmetric] sorted_wrt_drop)
qed

lemma settled_length:
  assumes "distinct (map entry_id es)" "ID ` set (batch_of es) \<subseteq> A"
  shows "length (filter (\<lambda>e. entry_id e \<notin> A) es) \<le> length es - 32"
proof -
  have "card (ID ` set (batch_of es)) = min 32 (length es)"
    using batch_of_distinct [OF assms(1)] batch_of_length [of es] distinct_card [of "map ID (batch_of es)"] by simp
  moreover have "ID ` set (batch_of es) \<subseteq> entry_id ` set (filter (\<lambda>e. entry_id e \<in> A) es)"
  proof
    fix i assume i: "i \<in> ID ` set (batch_of es)"
    then obtain e where "e \<in> set es" "i = entry_id e" using batch_of_subset [of es] by auto
    then show "i \<in> entry_id ` set (filter (\<lambda>e. entry_id e \<in> A) es)" using i assms(2) by auto
  qed
  then have "card (ID ` set (batch_of es)) \<le> length (filter (\<lambda>e. entry_id e \<in> A) es)"
    by (metis (no_types) List.finite_set card_image_le card_length card_mono finite_imageI le_trans)
  ultimately show ?thesis using sum_length_filter_compl [of "\<lambda>e. entry_id e \<in> A" es] by linarith
qed

lemma send_progress:
  assumes "queue_ok q" "clean_io io" "clean_io ioa" "clean_io ior" "settles_all request"
  shows "queue_ok (fst (send_samples request now io ioa ior q)) \<and>
     length (entries (fst (send_samples request now io ioa ior q))) \<le> length (entries q) - 32"
proof -
  have q: "bytes q = sum_list (map size (entries q))" "sorted (map entry_time (entries q))" "0 \<le> limit q"
    "dropped q < 18446744073709551616" using assms(1) by (simp_all add: queue_ok_def)
  from Batch_clean [OF assms(2) q, of now] obtain q1 acts where
    b: "Batch io now q = (q1, acts, Some (batch_of (entries q1)))" "pruned_to (now - age q) (limit q) (entries q) (entries q1)"
      "bytes q1 = sum_list (map size (entries q1))" "dropped q1 = wrap_count (dropped q + (length (entries q) - length (entries q1)))" by blast
  have ok1: "queue_ok q1" using pruned_queue_ok [OF assms(1) b(2,3) _ b(4)] Batch_limits [OF b(1)] by blast
  have le: "length (entries q1) \<le> length (entries q)" by (rule pruned_length [OF b(2)])
  show ?thesis
  proof (cases "entries q1")
    case Nil
    then show ?thesis using b(1) ok1 by (simp add: send_samples_def batch_of_def)
  next
    case (Cons e es)
    then obtain s ss where ss: "batch_of (entries q1) = s # ss" by (auto simp: batch_of_def)
    from assms(5) obtain r where r: "request (s # ss) = Some r" "ID ` set (s # ss) \<subseteq> set (rs_Ack r) \<union> set (rs_Rejected r)"
      unfolding settles_all_def by metis
    from ackLocked_clean [OF assms(3) ok1, of Settle "rs_Ack r"] obtain q2 acts2 where
      a: "Ack ioa (rs_Ack r) q1 = (q2, acts2, True)" "queue_ok q2"
        "entries q2 = filter (\<lambda>e. entry_id e \<notin> set (rs_Ack r)) (entries q1)" by (auto simp: Ack_def)
    from Reject_clean [OF assms(4) a(2), of "rs_Rejected r"] obtain q3 acts3 where
      j: "Reject ior (rs_Rejected r) q2 = (q3, acts3, True)" "queue_ok q3"
        "entries q3 = filter (\<lambda>e. entry_id e \<notin> set (rs_Rejected r)) (entries q2)" by auto
    have "length (filter (\<lambda>e. entry_id e \<notin> set (rs_Ack r) \<union> set (rs_Rejected r)) (entries q1)) \<le> length (entries q1) - 32"
      using ok1 r(2) ss by (intro settled_length) (auto simp: queue_ok_def)
    then show ?thesis
      using b(1) ss r(1) a j le by (auto simp: send_samples_def conj_commute)
  qed
qed

text \<open>Round \<open>k\<close> of the loop happens at \<open>now k\<close> under the file system's answers \<open>io k\<close>.\<close>

fun send_rounds :: "(Sample list \<Rightarrow> Response option) \<Rightarrow> (nat \<Rightarrow> time) \<Rightarrow> (nat \<Rightarrow> io_env) \<Rightarrow> nat \<Rightarrow> Spool \<Rightarrow> Spool" where
  "send_rounds request now io 0 q = q"
| "send_rounds request now io (Suc k) q = fst (send_samples request (now k) (io k) (io k) (io k) (send_rounds request now io k q))"

lemma send_rounds_progress:
  "queue_ok q \<Longrightarrow> (\<And>k. clean_io (io k)) \<Longrightarrow> settles_all request \<Longrightarrow>
     queue_ok (send_rounds request now io k q) \<and> length (entries (send_rounds request now io k q)) \<le> length (entries q) - 32 * k"
proof (induction k)
  case (Suc k)
  let ?q = "send_rounds request now io k q"
  have "queue_ok ?q" "length (entries ?q) \<le> length (entries q) - 32 * k" using Suc by simp_all
  with send_progress [of ?q "io k" "io k" "io k" request "now k"] Suc.prems show ?case by auto
qed simp

text \<open>C27. The backlog drains: from any state of the running agent, when the file system obliges and the
  Hub acknowledges or rejects every sample it is sent, the outbox is empty after as many rounds of
  the transport loop as there are batches of 32 in it.\<close>

theorem outbox_drains:
  assumes "runtime_ok rt" and "reach spool_init (spool_step rt) (Some q, w)"
    and "\<And>k. clean_io (io k)" and "settles_all request" and "length (entries q) \<le> 32 * n"
  shows "entries (send_rounds request now io n q) = []"
proof -
  have "spool_inv rt q w" "limit q = MaxQueueBytes"
    using outbox.reach_inv [OF assms(2)] assms(1) by (auto simp: outbox_inv_def)
  then have "queue_ok q" by (auto simp: queue_ok_def running_inv_def queue_inv_def count_inv_def MaxQueueBytes_def)
  with send_rounds_progress [of q io request now n] assms(3-5) show ?thesis by simp
qed

section \<open>Reopening\<close>

definition clean_open :: "open_env \<Rightarrow> bool" where
  "clean_open env \<longleftrightarrow> setup_ok env \<and> lock_free env \<and> count_readable env \<and> listed env \<and>
     (\<forall>f. pending_removed env f \<and> readable env f)"

lemma load_sample_ok:
  assumes "clean_open env" "dir_ok rt d" "\<not> is_pending f" "HasSuffix f sample_suffix" "mget d f \<noteq> None"
  shows "\<exists>e. load_sample rt env d f = Inr e"
proof -
  from assms(4) obtain i where "f = sample_name i" by (auto simp: suffixed_sample)
  with dir_ok_sample [OF assms(2), of i] assms(3,5) obtain e where f: "f = sample_name (entry_id e)" and "stored rt d e" by auto
  then obtain b s where "mget d f = Some (Regular b)" "int (length b) \<le> 32768" "unmarshal rt b = Some s" "ID s = entry_id e" "length (entry_id e) = 32"
    by (auto simp: stored_def)
  then show ?thesis using assms(1) f by (simp add: load_sample_def clean_open_def)
qed

lemma load_loop_ok:
  assumes "clean_open env" "dir_ok rt d"
  shows "(\<And>f. f \<in> set fs \<Longrightarrow> mget d f \<noteq> None) \<Longrightarrow> \<exists>acts es' by'. load_loop rt env d fs es by = (acts, Inr (es', by'))"
proof (induction fs arbitrary: es "by")
  case (Cons f fs)
  have IH: "\<exists>acts es' by'. load_loop rt env d fs es by = (acts, Inr (es', by'))" for es "by" using Cons by simp
  consider "is_pending f" | "\<not> is_pending f" "\<not> HasSuffix f sample_suffix" | "\<not> is_pending f" "HasSuffix f sample_suffix" by blast
  then show ?case
  proof cases
    case 1
    with IH [of es "by"] assms(1) show ?thesis by (auto simp: clean_open_def)
  next
    case 2
    with IH [of es "by"] show ?thesis by simp
  next
    case 3
    then obtain e where "load_sample rt env d f = Inr e" using load_sample_ok [OF assms] Cons.prems [of f] by auto
    with 3 IH [of "es @ [e]" "by + size e"] show ?thesis by simp
  qed
qed simp

lemma read_dropped_ok:
  assumes "runtime_ok rt" "clean_open env" "dir_ok rt d"
  shows "read_dropped rt env d = Inr (counter d)"
proof (cases "mget d dropped_name")
  case None
  then show ?thesis by (simp add: read_dropped_def counter_def)
next
  case (Some x)
  then obtain k where "k < 18446744073709551616" "x = Regular (FormatUint k)" using dir_ok_count [OF assms(3)] by blast
  then show ?thesis
    using Some assms(2) runtime_count [OF assms(1)]
    by (auto simp: read_dropped_def counter_def digits_value_FormatUint clean_open_def)
qed

text \<open>C22. The queue survives its process: after any history of operations, failures, stops and crashes, a
  start under a file system that obliges succeeds. It finds in the directory exactly the samples that
  have a file there, each as decoded from that file, in the order of their capture times, gives up
  the oldest as the limits require, and continues the persisted count of losses.\<close>

theorem reopen_recovers:
  assumes rt: "runtime_ok rt" and r: "reach spool_init (spool_step rt) (None, w)"
    and env: "clean_open env" and io: "clean_io io"
  shows "\<exists>acts q es. OpenSpool rt env now io (cur w) = (acts, Inr q) \<and>
     entry_id ` set es = {i. \<not> HasPrefix (sample_name i) pending_prefix \<and> mget (cur w) (sample_name i) \<noteq> None} \<and>
     distinct (map entry_id es) \<and> sorted (map entry_time es) \<and>
     (\<forall>e \<in> set es. \<exists>b. mget (cur w) (sample_name (entry_id e)) = Some (Regular b) \<and>
        unmarshal rt b = Some (sample e) \<and> size e = int (length b)) \<and>
     pruned_to (now - MaxAge) MaxQueueBytes es (entries q) \<and>
     dropped q = wrap_count (counter (cur w) + (length es - length (entries q)))"
proof -
  have inv: "world_inv rt w" using outbox.reach_inv [OF r] rt by (simp add: outbox_inv_def)
  then have ok: "dir_ok rt (cur w)" by (simp add: world_inv_def)
  have n: "read_dropped rt env (cur w) = Inr (counter (cur w))" by (rule read_dropped_ok [OF rt env ok])
  have "\<And>f. f \<in> set (sort (mkeys (cur w))) \<Longrightarrow> mget (cur w) f \<noteq> None" by (auto simp: mget_keys)
  with load_loop_ok [OF env ok, of "sort (mkeys (cur w))" "[]" 0] obtain lacts es "by" where
    l: "load_loop rt env (cur w) (sort (mkeys (cur w))) [] 0 = (lacts, Inr (es, by))" by blast
  let ?es = "sort_entries rt es"
  let ?q = "\<lparr>entries = ?es, bytes = by, dropped = counter (cur w), limit = MaxQueueBytes, age = MaxAge\<rparr>"
  note L = loaded_inv [OF rt inv n l]
  have q: "bytes ?q = sum_list (map size (entries ?q))" "sorted (map entry_time (entries ?q))" "0 \<le> limit ?q"
    "dropped ?q < 18446744073709551616" and d: "distinct (map entry_id ?es)"
    using L(1) by (simp_all add: running_inv_def queue_inv_def count_inv_def MaxQueueBytes_def)
  from pruneLocked_clean [OF io q, of now] obtain q' pacts where p: "pruneLocked io now ?q = (q', pacts, True)"
    "pruned_to (now - MaxAge) MaxQueueBytes ?es (entries q')"
    "dropped q' = wrap_count (counter (cur w) + (length ?es - length (entries q')))" by auto
  have "\<forall>e \<in> set es. disk_entry rt (cur w) e" using load_loop_Inr [OF l] by auto
  then have "\<forall>e \<in> set ?es. \<exists>b. mget (cur w) (sample_name (entry_id e)) = Some (Regular b) \<and>
      unmarshal rt b = Some (sample e) \<and> size e = int (length b)"
    using runtime_sort(1) [OF rt, of es] by (auto simp: disk_entry_def dest!: mset_eq_setD)
  then show ?thesis
    using env n l p L(2) d runtime_sort(2) [OF rt, of es]
    by (intro exI [of _ "lacts @ pacts"] exI [of _ q'] exI [of _ ?es]) (simp add: OpenSpool_def clean_open_def)
qed

section \<open>An example run\<close>

text \<open>A runtime with the documented behaviour: it writes identifier and capture time.\<close>

definition demo_marshal :: "Sample \<Rightarrow> bytes option" where
  "demo_marshal s = Some (ID s @ CHR '':'' # (if Time s < 0 then CHR ''-'' # FormatUint (nat (- Time s)) else CHR ''+'' # FormatUint (nat (Time s))))"

definition demo_sample :: "string \<Rightarrow> time \<Rightarrow> Sample" where
  "demo_sample i t = \<lparr>ID = i, BootID = ''b'', Time = t, CPU = None, MemoryUsed = None, MemoryTotal = None, SwapUsed = None,
     SwapTotal = None, DiskUsed = None, DiskTotal = None, Load1 = None, Load5 = None, Load15 = None, NetRecv = None,
     NetSent = None, DiskRead = None, DiskWrite = None, Uptime = None, OS = None, CPUModel = None, Kernel = None, Errors = []\<rparr>"

definition demo_unmarshal :: "bytes \<Rightarrow> Sample option" where
  "demo_unmarshal b =
     (case dropWhile (\<lambda>c. c \<noteq> CHR '':'') b of
        _ # sg # ds \<Rightarrow> Some (demo_sample (takeWhile (\<lambda>c. c \<noteq> CHR '':'') b)
           (if sg = CHR ''-'' then - int (digits_value ds) else int (digits_value ds)))
      | _ \<Rightarrow> None)"

definition demo_runtime :: runtime where
  "demo_runtime = \<lparr>marshal = demo_marshal, unmarshal = demo_unmarshal, unmarshal_count = (\<lambda>b. ParseUint b 64),
     sort_entries = sort_key entry_time\<rparr>"

lemma hex_no_colon: "hex_ok i \<Longrightarrow> \<forall>c \<in> set i. c \<noteq> CHR '':''"
proof
  fix c assume "hex_ok i" "c \<in> set i"
  then have "is_hex c" by (simp add: hex_ok_def list_all_iff)
  then show "c \<noteq> CHR '':''" by (auto simp: is_hex_def)
qed

lemma demo_round_trip:
  assumes "hex_ok (ID s)"
  shows "\<exists>b. demo_marshal s = Some b \<and> (\<exists>s'. demo_unmarshal b = Some s' \<and> ID s' = ID s \<and> Time s' = Time s)"
  using hex_no_colon [OF assms]
  by (auto simp: demo_marshal_def demo_unmarshal_def demo_sample_def digits_value_FormatUint
      takeWhile_append dropWhile_append)

lemma demo_runtime_ok: "runtime_ok demo_runtime"
  using demo_round_trip Parse_Format [of _ 64]
  by (fastforce simp: runtime_ok_def demo_runtime_def)

definition demo_write :: write_env where
  "demo_write = \<lparr>tmp_random = ''1'', write_end = Written, tmp_left = False\<rparr>"

definition demo_io :: io_env where
  "demo_io = \<lparr>count_write = (\<lambda>_. demo_write), remove_fails = (\<lambda>_. False), sync_ok = True\<rparr>"

definition demo_env :: open_env where
  "demo_env = \<lparr>setup_ok = True, lock_free = True, count_readable = True, listed = True,
     pending_removed = (\<lambda>_. True), readable = (\<lambda>_. True)\<rparr>"

definition demo_w0 :: world where
  "demo_w0 = \<lparr>cur = [], dur = [], accepted = [], owed = [], settled = [], lost = [], asked = 0\<rparr>"

definition demo_id :: string where
  "demo_id = ''0123456789abcdef0123456789abcdef''"

definition demo_opened :: Spool where
  "demo_opened = \<lparr>entries = [], bytes = 0, dropped = 0, limit = MaxQueueBytes, age = MaxAge\<rparr>"

definition demo_added :: "Spool \<times> act list \<times> add_error option" where
  "demo_added = Add_sample demo_runtime 0 demo_write 0 demo_io (demo_sample demo_id 0) demo_opened"

definition demo_w1 :: world where
  "demo_w1 = run_acts (fst (snd demo_added)) demo_w0"

lemma demo_opened_eq: "OpenSpool demo_runtime demo_env 0 demo_io [] = ([Sync], Inr demo_opened)"
  by (simp add: OpenSpool_def demo_env_def read_dropped_def pruneLocked_def demo_runtime_def demo_io_def demo_opened_def closing_sync_def)

lemma demo_added_facts:
  "snd (snd demo_added) = None" "owed demo_w1 = [demo_id]" "lost demo_w1 = []" "asked demo_w1 = 0"
  "map entry_id (entries (fst demo_added)) = [demo_id]"
  by code_simp+

lemma outbox_demo_reach: "reach spool_init (spool_step demo_runtime) (Some (fst demo_added), demo_w1)"
proof -
  have "reach spool_init (spool_step demo_runtime) (None, demo_w0)"
    by (rule reach_init) (simp add: spool_init_def demo_w0_def)
  moreover have "spool_step demo_runtime (None, demo_w0) (Some demo_opened, run_acts [Sync] demo_w0)"
    by (rule open_done [of _ demo_env 0 demo_io]) (simp add: demo_opened_eq demo_w0_def)
  moreover have "run_acts [Sync] demo_w0 = demo_w0" by (simp add: demo_w0_def)
  ultimately have "reach spool_init (spool_step demo_runtime) (Some demo_opened, demo_w0)"
    by (metis reach_step)
  moreover have "spool_step demo_runtime (Some demo_opened, demo_w0) (Some (fst demo_added), demo_w1)"
    unfolding demo_w1_def
    by (rule op_done, rule add [of _ 0 demo_write 0 demo_io "demo_sample demo_id 0" _ _ _ "snd (snd demo_added)"])
      (simp add: demo_added_def)
  ultimately show ?thesis by (rule reach_step)
qed

lemma outbox_demo_closed: "reach spool_init (spool_step demo_runtime) (None, demo_w1)"
  by (rule reach_step [OF outbox_demo_reach close])

lemma outbox_demo_clean: "clean_io demo_io" "clean_open demo_env"
  by (simp_all add: clean_io_def clean_open_def demo_io_def demo_env_def demo_write_def)

theorem spool_no_silent_loss_witness:
  "runtime_ok demo_runtime \<and> reach spool_init (spool_step demo_runtime) (Some (fst demo_added), demo_w1) \<and>
   owed demo_w1 = [demo_id] \<and> kept_on demo_runtime (dur demo_w1) demo_id \<and>
   demo_id \<in> entry_id ` set (entries (fst demo_added)) \<and> length (lost demo_w1) \<le> counter (dur demo_w1)"
  using spool_no_silent_loss [OF demo_runtime_ok outbox_demo_reach] demo_runtime_ok outbox_demo_reach demo_added_facts by simp

theorem batch_exact_witness:
  "\<exists>q' acts out. Batch demo_io 0 (fst demo_added) = (q', acts, Some out) \<and>
     pruned_to (0 - MaxAge) MaxQueueBytes (entries (fst demo_added)) (entries q') \<and>
     dropped q' = wrap_count (dropped (fst demo_added) + (length (entries (fst demo_added)) - length (entries q'))) \<and>
     out = (if entries q' = [] then [] else map sample (last (entries q') # take 31 (butlast (entries q')))) \<and>
     length out = min 32 (length (entries q')) \<and> distinct (map ID out)"
  by (rule batch_exact [OF demo_runtime_ok outbox_demo_reach outbox_demo_clean(1)])

definition demo_hub :: "Sample list \<Rightarrow> Response option" where
  "demo_hub ss = Some \<lparr>rs_Ack = map ID ss, rs_Rejected = [], rs_Retry = False, rs_ServerTime = 1\<rparr>"

theorem outbox_drains_witness:
  "entries (fst demo_added) \<noteq> [] \<and> entries (send_rounds demo_hub (\<lambda>_. 0) (\<lambda>_. demo_io) 1 (fst demo_added)) = []"
proof -
  have "settles_all demo_hub" by (simp add: settles_all_def demo_hub_def)
  moreover have "length (entries (fst demo_added)) \<le> 32 * 1"
    using arg_cong [OF demo_added_facts(5), of length] by simp
  ultimately have "entries (send_rounds demo_hub (\<lambda>_. 0) (\<lambda>_. demo_io) 1 (fst demo_added)) = []"
    by (intro outbox_drains [OF demo_runtime_ok outbox_demo_reach outbox_demo_clean(1)])
  then show ?thesis using demo_added_facts(5) by auto
qed

theorem reopen_recovers_witness:
  "\<exists>acts q es. OpenSpool demo_runtime demo_env 0 demo_io (cur demo_w1) = (acts, Inr q) \<and>
     entry_id ` set es = {i. \<not> HasPrefix (sample_name i) pending_prefix \<and> mget (cur demo_w1) (sample_name i) \<noteq> None} \<and>
     distinct (map entry_id es) \<and> sorted (map entry_time es) \<and>
     (\<forall>e \<in> set es. \<exists>b. mget (cur demo_w1) (sample_name (entry_id e)) = Some (Regular b) \<and>
        unmarshal demo_runtime b = Some (sample e) \<and> size e = int (length b)) \<and>
     pruned_to (0 - MaxAge) MaxQueueBytes es (entries q) \<and>
     dropped q = wrap_count (counter (cur demo_w1) + (length es - length (entries q)))"
  by (rule reopen_recovers [OF demo_runtime_ok outbox_demo_closed outbox_demo_clean(2,1)])

end
