(* ===== verification/Resident_Hub.thy ===== *)
theory Resident_Hub
  imports Agent_Spool
begin

text \<open>
  The Hub's side of the resident agents: the credential and receipt tables of
  \<^verbatim>\<open>repository/agent_node.go\<close>, the presence registry of \<^verbatim>\<open>service/resident_monitor.go\<close> with the
  handling of a message, and both ends together.

  A transaction is one function on \<open>hub_db\<close>. A row of the metrics table is the sample it was made
  from; the table has no key of its own, so its identifier column here is only observed. The
  record \<open>ResidentMonitor\<close> is what the monitor's lock protects. \<open>receive\<close> holds that lock twice
  and runs the transaction in between; \<open>meanwhile\<close> is what other goroutines did to the registry
  in that time. A message arrives with the samples it was sent with: that the JSON of a sample decodes to
  that sample is assumed of the wire as it is of the files.
\<close>

section \<open>Tables\<close>

text \<open>A single statement that fails changes nothing; for the one-statement updates below that case is
  not spelled out.\<close>

record AgentInstallLayout =
  il_OS :: string
  il_UID :: int
  il_Home :: string

record AgentNode =
  n_ServerID :: uint
  n_InstallID :: string
  n_TokenHash :: string
  n_TokenCipher :: string
  n_Salt :: bytes
  n_Target :: string
  n_InstalledHash :: string
  n_ConfigHash :: string
  n_Deployment :: string
  n_DeployError :: string
  n_LastAttempt :: "time option"
  n_LastContact :: "time option"
  n_LastSample :: "time option"
  n_LastPersisted :: "time option"
  n_Version :: string
  n_InstallOS :: string
  n_InstallUID :: "int option"
  n_InstallHome :: "string option"
  n_PendingInstallLayouts :: "AgentInstallLayout list"

record server_row =
  sv_ID :: uint
  sv_target :: string

text \<open>\<open>servers\<close> are the rows with no \<^verbatim>\<open>deleted_at\<close>, with the digest \<^verbatim>\<open>AgentTarget\<close> of host, port and host key.\<close>

record hub_db =
  servers :: "(uint, server_row) gomap"
  agent_nodes :: "(uint, AgentNode) gomap"
  receipts :: "(uint \<times> string, time) gomap"
  metrics :: "(uint \<times> Sample) list"

datatype hub_error = HubNotFound | InvalidCredential | HubDb | HubSample wire_error | HubCrypto

definition live :: "hub_db \<Rightarrow> uint \<Rightarrow> bool" where
  "live db i = (mget (servers db) i \<noteq> None)"

text \<open>What a transaction meets: a failing statement, and what becomes of its commit. A commit can be
  reported as failed and have taken effect.\<close>

datatype tx_end = TxCommitted | TxFailed | TxUnknown bool

definition commit :: "tx_end \<Rightarrow> 'd \<Rightarrow> 'd \<Rightarrow> 'r \<Rightarrow> 'd \<times> (hub_error + 'r)" where
  "commit tx old new r =
     (case tx of TxCommitted \<Rightarrow> (new, Inr r) | TxFailed \<Rightarrow> (old, Inl HubDb)
      | TxUnknown done \<Rightarrow> (if done then new else old, Inl HubDb))"

definition Auth_agent :: "(string \<Rightarrow> string) \<Rightarrow> hub_db \<Rightarrow> string \<Rightarrow> hub_error + AgentNode" where
  "Auth_agent hash db token =
     (if length token \<noteq> 64 then Inl InvalidCredential
      else case find (\<lambda>(i, n). live db i \<and> n_TokenHash n = hash token) (agent_nodes db) of
             None \<Rightarrow> Inl HubNotFound | Some (i, n) \<Rightarrow> Inr n)"

text \<open>\<^verbatim>\<open>Ensure\<close>: \<open>secret\<close> is the random token, \<open>fresh\<close> the random install identifier, \<open>seal\<close> the record
  cipher with its salt. A record whose target no longer matches is replaced, and with it the
  credential.\<close>

definition fresh_node :: "uint \<Rightarrow> string \<Rightarrow> string \<Rightarrow> string \<Rightarrow> bytes \<Rightarrow> string \<Rightarrow> AgentNode" where
  "fresh_node i iid h c salt target = \<lparr>n_ServerID = i, n_InstallID = iid, n_TokenHash = h, n_TokenCipher = c, n_Salt = salt,
     n_Target = target, n_InstalledHash = [], n_ConfigHash = [], n_Deployment = ''pending'', n_DeployError = [],
     n_LastAttempt = None, n_LastContact = None, n_LastSample = None, n_LastPersisted = None, n_Version = [],
     n_InstallOS = [], n_InstallUID = None, n_InstallHome = None, n_PendingInstallLayouts = []\<rparr>"

definition replace_node :: "(string \<Rightarrow> string) \<Rightarrow> (uint \<Rightarrow> string \<Rightarrow> (string \<times> bytes) option) \<Rightarrow> string option \<Rightarrow> string option \<Rightarrow> tx_end \<Rightarrow>
    uint \<Rightarrow> server_row \<Rightarrow> hub_db \<Rightarrow> hub_db \<times> (hub_error + AgentNode)" where
  "replace_node hash seal secret iid tx i s db =
     (case secret of None \<Rightarrow> (db, Inl HubCrypto) | Some t \<Rightarrow>
      case seal i t of None \<Rightarrow> (db, Inl HubCrypto) | Some (c, salt) \<Rightarrow>
      case iid of None \<Rightarrow> (db, Inl HubCrypto) | Some k \<Rightarrow>
        let n = fresh_node i k (hash t) c salt (sv_target s)
        in commit tx db (db\<lparr>agent_nodes := mput i n (agent_nodes db)\<rparr>) n)"

definition Ensure :: "(string \<Rightarrow> string) \<Rightarrow> (uint \<Rightarrow> string \<Rightarrow> (string \<times> bytes) option) \<Rightarrow> string option \<Rightarrow> string option \<Rightarrow> tx_end \<Rightarrow>
    uint \<Rightarrow> hub_db \<Rightarrow> hub_db \<times> (hub_error + AgentNode)" where
  "Ensure hash seal secret fresh tx i db =
     (case mget (servers db) i of
        None \<Rightarrow> (db, Inl HubNotFound)
      | Some s \<Rightarrow>
          (case mget (agent_nodes db) i of
             Some n \<Rightarrow> if n_Target n = sv_target s then commit tx db db n
                       else replace_node hash seal secret (if n_InstallID n = [] then fresh else Some (n_InstallID n)) tx i s db
           | None \<Rightarrow> replace_node hash seal secret fresh tx i s db))"

definition with_node :: "uint \<Rightarrow> string \<Rightarrow> (AgentNode \<Rightarrow> AgentNode) \<Rightarrow> hub_db \<Rightarrow> hub_db \<times> bool" where
  "with_node i h f db =
     (case mget (agent_nodes db) i of
        Some n \<Rightarrow> if n_TokenHash n = h then (db\<lparr>agent_nodes := mput i (f n) (agent_nodes db)\<rparr>, True) else (db, False)
      | None \<Rightarrow> (db, False))"

definition Deployment :: "time \<Rightarrow> AgentNode \<Rightarrow> string \<Rightarrow> string \<Rightarrow> string \<Rightarrow> string \<Rightarrow> hub_db \<Rightarrow> hub_db" where
  "Deployment now n state reason h config db =
     fst (with_node (n_ServerID n) (n_TokenHash n)
       (\<lambda>r. r\<lparr>n_Deployment := state, n_DeployError := reason, n_InstalledHash := h, n_ConfigHash := config, n_LastAttempt := Some now\<rparr>) db)"

text \<open>\<^verbatim>\<open>GREATEST\<close> ignores a null.\<close>

definition greatest :: "time option \<Rightarrow> time option \<Rightarrow> time option" where
  "greatest a b = (case (a, b) of (Some x, Some y) \<Rightarrow> Some (max x y) | (None, _) \<Rightarrow> b | (_, None) \<Rightarrow> a)"

definition Contact :: "uint \<Rightarrow> time \<Rightarrow> string \<Rightarrow> time option \<Rightarrow> time option \<Rightarrow> hub_db \<Rightarrow> hub_db" where
  "Contact i t version smp persisted db =
     (case mget (agent_nodes db) i of
        None \<Rightarrow> db
      | Some n \<Rightarrow> db\<lparr>agent_nodes := mput i (n\<lparr>n_LastContact := Some t, n_Version := version,
            n_LastSample := greatest (n_LastSample n) smp, n_LastPersisted := greatest (n_LastPersisted n) persisted\<rparr>) (agent_nodes db)\<rparr>)"

text \<open>\<^verbatim>\<open>Ingest\<close>: the loop over the samples inside the transaction, then the commit.\<close>

fun ingest_loop :: "time \<Rightarrow> uint \<Rightarrow> Sample list \<Rightarrow> hub_db \<Rightarrow> hub_error + hub_db" where
  "ingest_loop now srv [] db = Inr db"
| "ingest_loop now srv (s # ss) db =
     (case Validate now s of
        Some e \<Rightarrow> Inl (HubSample e)
      | None \<Rightarrow>
          ingest_loop now srv ss
            (if mget (receipts db) (srv, ID s) = None
             then db\<lparr>receipts := mput (srv, ID s) now (receipts db), metrics := metrics db @ [(srv, s)]\<rparr> else db))"

definition Ingest :: "tx_end \<Rightarrow> time \<Rightarrow> AgentNode \<Rightarrow> Sample list \<Rightarrow> hub_db \<Rightarrow> hub_db \<times> (hub_error + string list)" where
  "Ingest tx now node samples db =
     (case mget (agent_nodes db) (n_ServerID node) of
        None \<Rightarrow> (db, Inl HubNotFound)
      | Some n \<Rightarrow>
          if \<not> live db (n_ServerID node) \<or> n_TokenHash n \<noteq> n_TokenHash node then (db, Inl HubNotFound)
          else case ingest_loop now (n_ServerID node) samples db of
                 Inl e \<Rightarrow> (db, Inl e)
               | Inr db' \<Rightarrow> commit tx db db' (map ID samples))"

fun add_layouts :: "(string \<Rightarrow> string) \<Rightarrow> AgentInstallLayout list \<Rightarrow> AgentInstallLayout list \<Rightarrow> AgentInstallLayout list" where
  "add_layouts clean acc [] = acc"
| "add_layouts clean acc (l # ls) =
     (let l' = l\<lparr>il_Home := clean (il_Home l)\<rparr> in add_layouts clean (if l' \<in> set acc then acc else acc @ [l']) ls)"

definition TrackInstallLayouts :: "(string \<Rightarrow> string) \<Rightarrow> AgentNode \<Rightarrow> AgentInstallLayout list \<Rightarrow> hub_db \<Rightarrow> hub_db \<times> bool" where
  "TrackInstallLayouts clean n targets db =
     with_node (n_ServerID n) (n_TokenHash n)
       (\<lambda>r. r\<lparr>n_PendingInstallLayouts := add_layouts clean []
          ((case (n_InstallUID r, n_InstallHome r) of
              (Some u, Some h) \<Rightarrow> [\<lparr>il_OS = n_InstallOS r, il_UID = u, il_Home = h\<rparr>] | _ \<Rightarrow> []) @
           n_PendingInstallLayouts r @ targets)\<rparr>) db"

definition SetInstallPlatformLayout :: "(string \<Rightarrow> string) \<Rightarrow> AgentNode \<Rightarrow> AgentInstallLayout \<Rightarrow> hub_db \<Rightarrow> hub_db \<times> bool" where
  "SetInstallPlatformLayout clean n l db =
     with_node (n_ServerID n) (n_TokenHash n)
       (\<lambda>r. r\<lparr>n_InstallOS := il_OS l, n_InstallUID := Some (il_UID l), n_InstallHome := Some (clean (il_Home l)),
          n_PendingInstallLayouts := []\<rparr>) db"

definition DeleteNode :: "uint \<Rightarrow> hub_db \<Rightarrow> hub_db" where
  "DeleteNode i db = db\<lparr>agent_nodes := mdel i (agent_nodes db)\<rparr>"

text \<open>\<^verbatim>\<open>Cleanup\<close>; the second statement runs only after the first succeeded.\<close>

definition Cleanup :: "time \<Rightarrow> bool \<Rightarrow> bool \<Rightarrow> hub_db \<Rightarrow> hub_db" where
  "Cleanup now ok1 ok2 db =
     (if \<not> ok1 then db
      else let db1 = db\<lparr>receipts := filter (\<lambda>(k, t). \<not> Before t (Add now (- (48 * hour)))) (receipts db)\<rparr>
           in if \<not> ok2 then db1
              else db1\<lparr>agent_nodes := filter (\<lambda>(i, n). live db i) (agent_nodes db1)\<rparr>)"

section \<open>Presence\<close>

record residentRuntime =
  rr_node :: AgentNode
  lastContact :: time
  latest :: "Sample option"
  lastPersisted :: "time option"
  storedSample :: "time option"
  rr_version :: string
  rr_pending :: int
  rr_dropped :: nat
  connected :: bool
  has_close :: bool
  generation :: nat
  writeFailed :: bool

record ResidentMonitor =
  rm_nodes :: "(uint, residentRuntime) gomap"
  rm_closed :: bool
  revoked :: "(uint, time) gomap"

definition new_runtime :: "AgentNode \<Rightarrow> time option \<Rightarrow> residentRuntime" where
  "new_runtime n persisted = \<lparr>rr_node = n, lastContact = 0, latest = None, lastPersisted = persisted, storedSample = None,
     rr_version = [], rr_pending = 0, rr_dropped = 0, connected = False, has_close = False, generation = 0, writeFailed = False\<rparr>"

definition runtimeLocked :: "AgentNode \<Rightarrow> ResidentMonitor \<Rightarrow> ResidentMonitor \<times> residentRuntime" where
  "runtimeLocked n m =
     (case mget (rm_nodes m) (n_ServerID n) of
        Some v \<Rightarrow> (m, v)
      | None \<Rightarrow> let v = new_runtime n (n_LastPersisted n) in (m\<lparr>rm_nodes := mput (n_ServerID n) v (rm_nodes m)\<rparr>, v))"

text \<open>A map lookup of a missing time gives the zero time.\<close>

definition is_revoked :: "time \<Rightarrow> uint \<Rightarrow> ResidentMonitor \<Rightarrow> bool" where
  "is_revoked now i m = Before now (case mget (revoked m) i of Some t \<Rightarrow> t | None \<Rightarrow> 0)"

definition authenticate :: "(string \<Rightarrow> string) \<Rightarrow> hub_db \<Rightarrow> string \<Rightarrow> ResidentMonitor \<Rightarrow> hub_error + AgentNode" where
  "authenticate hash db header m =
     (if rm_closed m then Inl HubDb
      else if \<not> HasPrefix header ''Bearer '' then Inl HubNotFound
      else Auth_agent hash db (TrimPrefix header ''Bearer ''))"

definition agentAuthError :: "hub_error \<Rightarrow> int" where
  "agentAuthError e = (if e = HubNotFound \<or> e = InvalidCredential then 401 else 503)"

text \<open>The registration of a WebSocket connection and its end.\<close>

definition ws_register :: "time \<Rightarrow> AgentNode \<Rightarrow> ResidentMonitor \<Rightarrow> ResidentMonitor \<times> nat option" where
  "ws_register now n m =
     (if rm_closed m \<or> is_revoked now (n_ServerID n) m then (m, None)
      else
        let (m1, v) = runtimeLocked n m; g = (generation v + 1) mod 18446744073709551616
        in (m1\<lparr>rm_nodes := mput (n_ServerID n) (v\<lparr>generation := g, has_close := True, connected := True\<rparr>) (rm_nodes m1)\<rparr>, Some g))"

definition ws_end :: "uint \<Rightarrow> nat \<Rightarrow> ResidentMonitor \<Rightarrow> ResidentMonitor" where
  "ws_end i g m =
     (case mget (rm_nodes m) i of
        Some v \<Rightarrow> if generation v = g then m\<lparr>rm_nodes := mput i (v\<lparr>connected := False, has_close := False\<rparr>) (rm_nodes m)\<rparr> else m
      | None \<Rightarrow> m)"

text \<open>The first critical section of \<^verbatim>\<open>receive\<close>, which reads the clock again for the revocation
  (\<open>checked\<close>); \<open>False\<close> asks the agent to retry.\<close>

definition skewed :: "time \<Rightarrow> Sample \<Rightarrow> bool" where
  "skewed now s = (Validate now s = Some ErrSampleTime)"

definition keep_latest :: "time \<Rightarrow> Sample option \<Rightarrow> Sample option \<Rightarrow> Sample option" where
  "keep_latest now new old =
     (case new of
        None \<Rightarrow> old
      | Some s \<Rightarrow>
          if (case old of None \<Rightarrow> True | Some o1 \<Rightarrow> skewed now o1 \<or> After (Time s) (Time o1))
          then Some (if skewed now s then s\<lparr>Errors := mput ''clock'' ''clock_skew'' (Errors s)\<rparr> else s)
          else old)"

definition receive_presence :: "time \<Rightarrow> time \<Rightarrow> AgentNode \<Rightarrow> Request \<Rightarrow> nat \<Rightarrow> ResidentMonitor \<Rightarrow> ResidentMonitor \<times> bool" where
  "receive_presence now checked n req g m =
     (if rm_closed m \<or> is_revoked checked (n_ServerID n) m then (m, False)
      else
        let (m1, v) = runtimeLocked n m
        in if n_TokenHash (rr_node v) \<noteq> n_TokenHash n \<or> (g \<noteq> 0 \<and> generation v \<noteq> g) then (m1, False)
           else
             let v' = v\<lparr>lastContact := now, rr_version := rq_Version req, rr_pending := rq_Pending req, rr_dropped := rq_Dropped req,
                    connected := (if g = 0 \<and> \<not> has_close v then True else connected v),
                    latest := keep_latest now (rq_Latest req) (latest v)\<rparr>
             in (m1\<lparr>rm_nodes := mput (n_ServerID n) v' (rm_nodes m1)\<rparr>, True))"

text \<open>The second one, after the transaction.\<close>

fun newest :: "time option \<Rightarrow> Sample list \<Rightarrow> time option" where
  "newest t [] = t"
| "newest t (s # ss) = newest (case t of None \<Rightarrow> Some (Time s) | Some u \<Rightarrow> if After (Time s) u then Some (Time s) else t) ss"

definition receive_record :: "time \<Rightarrow> AgentNode \<Rightarrow> Sample list \<Rightarrow> (hub_error + string list) \<Rightarrow> Response \<Rightarrow> ResidentMonitor \<Rightarrow>
    ResidentMonitor \<times> Response" where
  "receive_record now n valid res reply m =
     (case mget (rm_nodes m) (n_ServerID n) of
        None \<Rightarrow> (m, reply)
      | Some v \<Rightarrow>
          if n_TokenHash (rr_node v) \<noteq> n_TokenHash n then (m, reply)
          else case res of
                 Inl e \<Rightarrow> (m\<lparr>rm_nodes := mput (n_ServerID n) (v\<lparr>writeFailed := True\<rparr>) (rm_nodes m)\<rparr>, reply\<lparr>rs_Retry := True\<rparr>)
               | Inr ack \<Rightarrow>
                   (m\<lparr>rm_nodes := mput (n_ServerID n) (v\<lparr>writeFailed := False, lastPersisted := Some now,
                       storedSample := newest (storedSample v) valid\<rparr>) (rm_nodes m)\<rparr>, reply\<lparr>rs_Ack := ack\<rparr>))"

datatype slot_answer = GotSlot | SlotCtxDone | NoSlot

record receive_env =
  rv_now :: time
  rv_checked :: time
  rv_slot :: slot_answer
  rv_ingest_now :: time
  rv_tx :: tx_end
  meanwhile :: "ResidentMonitor \<Rightarrow> ResidentMonitor"

definition receive :: "receive_env \<Rightarrow> AgentNode \<Rightarrow> Request \<Rightarrow> nat \<Rightarrow> ResidentMonitor \<times> hub_db \<Rightarrow> (ResidentMonitor \<times> hub_db) \<times> Response" where
  "receive env n req g st =
     (case st of (m, db) \<Rightarrow>
        let now = rv_now env;
            reply = \<lparr>rs_Ack = [], rs_Rejected = [], rs_Retry = False, rs_ServerTime = now\<rparr>;
            (m1, known) = receive_presence now (rv_checked env) n req g m
        in if \<not> known then ((m1, db), reply\<lparr>rs_Retry := True\<rparr>)
           else if rq_Kind req = ''heartbeat'' then ((m1, db), reply)
           else
             let reply1 = reply\<lparr>rs_Rejected := map ID (filter (skewed now) (rq_Samples req))\<rparr>;
                 valid = filter (\<lambda>s. \<not> skewed now s) (rq_Samples req)
             in if valid = [] then ((m1, db), reply1)
                else if rv_slot env \<noteq> GotSlot then ((m1, db), reply1\<lparr>rs_Retry := True\<rparr>)
                else
                  let (db', res) = Ingest (rv_tx env) (rv_ingest_now env) n valid db;
                      (m2, reply2) = receive_record now n valid res reply1 (meanwhile env m1)
                  in ((m2, db'), reply2))"

definition CloseMonitor :: "ResidentMonitor \<Rightarrow> ResidentMonitor" where
  "CloseMonitor m = m\<lparr>rm_closed := True, rm_nodes := map (\<lambda>(i, v). (i, v\<lparr>has_close := False, connected := False\<rparr>)) (rm_nodes m)\<rparr>"

definition Disconnect :: "time \<Rightarrow> uint \<Rightarrow> ResidentMonitor \<Rightarrow> ResidentMonitor" where
  "Disconnect now i m =
     m\<lparr>revoked := mput i (Add now minute) (filter (\<lambda>(j, t). Before now t) (revoked m)), rm_nodes := mdel i (rm_nodes m)\<rparr>"

section \<open>Both ends\<close>

text \<open>An agent, the Hub and the connection between them. \<open>sent\<close> are the samples that were in some batch,
  \<open>replies\<close> the answers the Hub gave; a message may arrive late, repeatedly, in part or never, and
  a reply may be handled at any later time. Requests overlap at the Hub: the times a request reads are its
  own, and the time it stamps its receipts with may be older than what the Hub has seen meanwhile, by an
  hour (requests end after ten seconds); \<open>clock\<close> is the newest of these times. A transaction of unknown
  outcome that commits only later is, on the tables, a repetition of its message. \<open>tau\<close> gives the capture time of each identifier, since
  identifiers are not reused.\<close>

record e2e =
  ag :: "Spool option"
  wd :: world
  mon :: ResidentMonitor
  db :: hub_db
  clock :: time
  sent :: "Sample list"
  replies :: "Response list"

inductive link_op :: "runtime \<Rightarrow> (string \<Rightarrow> time) \<Rightarrow> e2e \<Rightarrow> Spool \<Rightarrow> act list \<Rightarrow> Spool \<Rightarrow> Sample list \<Rightarrow> bool" for rt tau s where
  link_add: "Time x = tau (ID x) \<Longrightarrow> Add_sample rt now0 we now io x q = (q', acts, r) \<Longrightarrow> link_op rt tau s q acts q' []"
| link_batch: "Batch io now q = (q', acts, out) \<Longrightarrow> link_op rt tau s q acts q' (case out of Some ss \<Rightarrow> ss | None \<Rightarrow> [])"
| link_ack: "r \<in> set (replies s) \<Longrightarrow> Ack io (rs_Ack r) q = (q', acts, ok) \<Longrightarrow> link_op rt tau s q acts q' []"
| link_reject: "r \<in> set (replies s) \<Longrightarrow> Reject io (rs_Rejected r) q = (q', acts, ok) \<Longrightarrow> link_op rt tau s q acts q' []"
| link_health: "writeAtomic we health_name b = (acts, ok) \<Longrightarrow> link_op rt tau s q acts q []"

inductive e2e_step :: "runtime \<Rightarrow> (string \<Rightarrow> time) \<Rightarrow> uint \<Rightarrow> e2e \<Rightarrow> e2e \<Rightarrow> bool" for rt tau srv where
  agent_op: "ag s = Some q \<Longrightarrow> link_op rt tau s q acts q' out \<Longrightarrow>
    e2e_step rt tau srv s (s\<lparr>ag := Some q', wd := run_acts acts (wd s), sent := out @ sent s\<rparr>)"
| agent_crash: "ag s = Some q \<Longrightarrow> link_op rt tau s q acts q' out \<Longrightarrow> crashed (run_acts (take k acts) (wd s)) w' \<Longrightarrow>
    e2e_step rt tau srv s (s\<lparr>ag := None, wd := w'\<rparr>)"
| agent_stop: "e2e_step rt tau srv s (s\<lparr>ag := None\<rparr>)"
| agent_start: "ag s = None \<Longrightarrow> OpenSpool rt env now io (cur (wd s)) = (acts, r) \<Longrightarrow>
    e2e_step rt tau srv s (s\<lparr>ag := (case r of Inr q \<Rightarrow> Some q | Inl e \<Rightarrow> None), wd := run_acts acts (wd s)\<rparr>)"
| agent_start_crash: "ag s = None \<Longrightarrow> OpenSpool rt env now io (cur (wd s)) = (acts, r) \<Longrightarrow>
    crashed (run_acts (take k acts) (wd s)) w' \<Longrightarrow> e2e_step rt tau srv s (s\<lparr>wd := w'\<rparr>)"
| hub_receive: "n_ServerID n = srv \<Longrightarrow> set (rq_Samples req) \<subseteq> set (sent s) \<Longrightarrow> validate_request (rv_now env) req = None \<Longrightarrow>
    clock s \<le> rv_ingest_now env + hour \<Longrightarrow>
    receive env n req g (mon s, db s) = ((m', db'), reply) \<Longrightarrow>
    e2e_step rt tau srv s (s\<lparr>mon := m', db := db', clock := max (clock s) (rv_ingest_now env), replies := reply # replies s\<rparr>)"
| hub_other: "n_ServerID n \<noteq> srv \<Longrightarrow> clock s \<le> rv_ingest_now env + hour \<Longrightarrow>
    receive env n req g (mon s, db s) = ((m', db'), reply) \<Longrightarrow>
    e2e_step rt tau srv s (s\<lparr>mon := m', db := db', clock := max (clock s) (rv_ingest_now env)\<rparr>)"
| hub_cleanup: "e2e_step rt tau srv s (s\<lparr>db := Cleanup now ok1 ok2 (db s), clock := max (clock s) now\<rparr>)"
| hub_admin: "e2e_step rt tau srv s (s\<lparr>mon := m', db := (db s)\<lparr>servers := ss, agent_nodes := ns\<rparr>\<rparr>)"

definition e2e_init :: "e2e \<Rightarrow> bool" where
  "e2e_init s \<longleftrightarrow> spool_init (ag s, wd s) \<and> receipts (db s) = [] \<and> metrics (db s) = [] \<and> sent s = [] \<and> replies s = []"

text \<open>The rows stored for one identifier.\<close>

definition rows :: "uint \<Rightarrow> string \<Rightarrow> hub_db \<Rightarrow> nat" where
  "rows srv i d = count_if (\<lambda>(v, x). v = srv \<and> ID x = i) (metrics d)"

section \<open>Deduplication\<close>

definition hub_inv :: "(string \<Rightarrow> time) \<Rightarrow> uint \<Rightarrow> time \<Rightarrow> hub_db \<Rightarrow> bool" where
  "hub_inv tau srv now d \<longleftrightarrow> mok (receipts d) \<and>
     (\<forall>i. rows srv i d \<le> 1) \<and>
     (\<forall>i t. mget (receipts d) (srv, i) = Some t \<longrightarrow> t \<le> now \<and> tau i \<le> t + 5 * minute \<and> rows srv i d = 1) \<and>
     (\<forall>i. rows srv i d = 1 \<longrightarrow> mget (receipts d) (srv, i) = None \<longrightarrow> tau i < now - 48 * hour + 5 * minute)"

lemma hub_inv_later: "hub_inv tau srv now d \<Longrightarrow> now \<le> now' \<Longrightarrow> hub_inv tau srv now' d"
  unfolding hub_inv_def by force

lemma rows_append: "rows srv i (d\<lparr>receipts := r, metrics := metrics d @ [(v, x)]\<rparr>) = rows srv i d + (if v = srv \<and> ID x = i then 1 else 0)"
  by (simp add: rows_def)

text \<open>One sample: a missing receipt means that the row was never stored, because receipts outlive the
  window in which the sample is acceptable.\<close>

lemma ingest_one:
  assumes inv: "hub_inv tau srv c d" and c: "now \<le> c" "c \<le> now + hour" and v: "Validate now x = None" and t: "Time x = tau (ID x)"
    and new: "mget (receipts d) (srv, ID x) = None"
  shows "hub_inv tau srv c (d\<lparr>receipts := mput (srv, ID x) now (receipts d), metrics := metrics d @ [(srv, x)]\<rparr>)"
proof -
  have w: "now - MaxAge - hour \<le> tau (ID x)" "tau (ID x) \<le> now + 5 * minute"
    using v t by (auto simp: Validate_accepts)
  have "rows srv (ID x) d \<noteq> 1"
  proof
    assume "rows srv (ID x) d = 1"
    then have "tau (ID x) < c - 48 * hour + 5 * minute" using inv new by (simp add: hub_inv_def)
    with w(1) c(2) show False by (simp add: MaxAge_def duration_units)
  qed
  moreover have "rows srv (ID x) d \<le> 1" using inv by (simp add: hub_inv_def)
  ultimately have z: "rows srv (ID x) d = 0" by linarith
  have r: "rows srv i (d\<lparr>receipts := r, metrics := metrics d @ [(srv, x)]\<rparr>) = (if i = ID x then 1 else rows srv i d)" for i r
    using z by (simp add: rows_append)
  show ?thesis using inv w(2) c(1) unfolding hub_inv_def r by auto
qed

lemma ingest_other:
  "hub_inv tau srv now d \<Longrightarrow> v \<noteq> srv \<Longrightarrow>
     hub_inv tau srv now (d\<lparr>receipts := mput (v, i) t (receipts d), metrics := metrics d @ [(v, x)]\<rparr>)"
  by (simp add: hub_inv_def rows_append)

lemma ingest_loop_inv:
  assumes c: "now \<le> c" "c \<le> now + hour"
  shows "hub_inv tau srv c d \<Longrightarrow> (\<And>x. x \<in> set ss \<Longrightarrow> v = srv \<Longrightarrow> Time x = tau (ID x)) \<Longrightarrow> ingest_loop now v ss d = Inr d' \<Longrightarrow>
     hub_inv tau srv c d'"
proof (induction ss arbitrary: d)
  case (Cons x ss)
  let ?d = "if mget (receipts d) (v, ID x) = None
     then d\<lparr>receipts := mput (v, ID x) now (receipts d), metrics := metrics d @ [(v, x)]\<rparr> else d"
  have val: "Validate now x = None" and rest: "ingest_loop now v ss ?d = Inr d'"
    using Cons.prems(3) by (auto split: option.splits)
  have "hub_inv tau srv c ?d"
    using ingest_one [OF Cons.prems(1) c val] ingest_other [OF Cons.prems(1), where v = v and i = "ID x" and t = now and x = x] Cons.prems by (cases "v = srv") auto
  then show ?case using Cons.IH [OF _ _ rest] Cons.prems(2) by simp
qed simp

text \<open>Rows are never taken back, and a completed loop leaves one for every sample.\<close>

lemma ingest_loop_rows:
  assumes c: "now \<le> c" "c \<le> now + hour"
  shows "hub_inv tau srv c d \<Longrightarrow> (\<And>x. x \<in> set ss \<Longrightarrow> Time x = tau (ID x)) \<Longrightarrow> ingest_loop now srv ss d = Inr d' \<Longrightarrow>
     (\<forall>i. rows srv i d \<le> rows srv i d') \<and> (\<forall>x \<in> set ss. rows srv (ID x) d' = 1)"
proof (induction ss arbitrary: d)
  case (Cons x ss)
  let ?d = "if mget (receipts d) (srv, ID x) = None
     then d\<lparr>receipts := mput (srv, ID x) now (receipts d), metrics := metrics d @ [(srv, x)]\<rparr> else d"
  have val: "Validate now x = None" and rest: "ingest_loop now srv ss ?d = Inr d'"
    using Cons.prems(3) by (auto split: option.splits)
  have inv: "hub_inv tau srv c ?d" using ingest_one [OF Cons.prems(1) c val] Cons.prems by auto
  have mono: "\<forall>i. rows srv i d \<le> rows srv i ?d" by (simp add: rows_append)
  have one: "1 \<le> rows srv (ID x) ?d"
  proof (cases "mget (receipts d) (srv, ID x)")
    case (Some t)
    then show ?thesis using Cons.prems(1) by (simp add: hub_inv_def)
  qed (simp add: rows_append)
  have IH: "(\<forall>i. rows srv i ?d \<le> rows srv i d') \<and> (\<forall>x \<in> set ss. rows srv (ID x) d' = 1)"
    using Cons.IH [OF inv _ rest] Cons.prems(2) by simp
  have "hub_inv tau srv c d'" by (rule ingest_loop_inv [OF c inv _ rest]) (use Cons.prems(2) in simp)
  then have "rows srv (ID x) d' \<le> 1" by (simp add: hub_inv_def)
  with one IH have "rows srv (ID x) d' = 1" by (meson le_antisym le_trans)
  then show ?case using IH mono by (auto intro: le_trans)
qed simp

lemma Ingest_cases:
  assumes "Ingest tx now n ss d = (d', r)"
  shows "d' = d \<and> isl r \<or> ingest_loop now (n_ServerID n) ss d = Inr d' \<and> (isl r \<or> r = Inr (map ID ss))"
  using assms by (auto simp: Ingest_def commit_def split: option.splits if_splits sum.splits tx_end.splits)

lemma Ingest_inv:
  assumes c: "now \<le> c" "c \<le> now + hour" and inv: "hub_inv tau srv c d"
    and t: "\<And>x. x \<in> set ss \<Longrightarrow> n_ServerID n = srv \<Longrightarrow> Time x = tau (ID x)" and i: "Ingest tx now n ss d = (d', r)"
  shows "hub_inv tau srv c d'"
  using Ingest_cases [OF i] ingest_loop_inv [OF c inv t] inv by blast

lemma Ingest_rows:
  assumes c: "now \<le> c" "c \<le> now + hour" and inv: "hub_inv tau srv c d"
    and t: "\<And>x. x \<in> set ss \<Longrightarrow> Time x = tau (ID x)" and s: "n_ServerID n = srv" and i: "Ingest tx now n ss d = (d', r)"
  shows "(\<forall>i. rows srv i d \<le> rows srv i d') \<and> (\<forall>ack. r = Inr ack \<longrightarrow> (\<forall>i \<in> set ack. rows srv i d' = 1))"
proof (cases "ingest_loop now srv ss d = Inr d'")
  case True
  from ingest_loop_rows [OF c inv t True] Ingest_cases [OF i] show ?thesis by auto
next
  case False
  then show ?thesis using Ingest_cases [OF i] s by auto
qed

lemma rows_other: "v \<noteq> srv \<Longrightarrow> ingest_loop now v ss d = Inr d' \<Longrightarrow> rows srv i d' = rows srv i d"
proof (induction ss arbitrary: d)
  case (Cons x ss)
  then show ?case using Cons.IH [of "if mget (receipts d) (v, ID x) = None
     then d\<lparr>receipts := mput (v, ID x) now (receipts d), metrics := metrics d @ [(v, x)]\<rparr> else d"]
    by (auto simp: rows_append split: option.splits if_splits)
qed simp

lemma Ingest_rows_other:
  assumes "n_ServerID n \<noteq> srv" "Ingest tx now n ss d = (d', r)"
  shows "rows srv i d' = rows srv i d"
  using Ingest_cases [OF assms(2)] rows_other [OF assms(1)] by blast

text \<open>\<open>receive\<close> touches the tables only through \<^verbatim>\<open>Ingest\<close>, and acknowledges only what it returned.\<close>

lemma receive_record_ack: "receive_record now n valid r reply m = (m', reply') \<Longrightarrow> rs_Ack reply = [] \<Longrightarrow>
   rs_Ack reply' = [] \<or> (\<exists>ack. r = Inr ack \<and> rs_Ack reply' = ack)"
  by (auto simp: receive_record_def split: option.splits if_splits sum.splits)

lemma receive_cases:
  assumes "receive env n req g (m, d) = ((m', d'), reply)"
  shows "d' = d \<and> rs_Ack reply = [] \<or>
     (\<exists>r. Ingest (rv_tx env) (rv_ingest_now env) n (filter (\<lambda>s. \<not> skewed (rv_now env) s) (rq_Samples req)) d = (d', r) \<and>
        (rs_Ack reply = [] \<or> r = Inr (rs_Ack reply)))"
proof -
  obtain m1 known where p: "receive_presence (rv_now env) (rv_checked env) n req g m = (m1, known)" by fastforce
  let ?valid = "filter (\<lambda>s. \<not> skewed (rv_now env) s) (rq_Samples req)"
  obtain d1 r where i: "Ingest (rv_tx env) (rv_ingest_now env) n ?valid d = (d1, r)" by fastforce
  show ?thesis
  proof (cases "known \<and> rq_Kind req \<noteq> ''heartbeat'' \<and> ?valid \<noteq> [] \<and> rv_slot env = GotSlot")
    case False
    then show ?thesis using assms p by (auto simp: receive_def Let_def split: if_splits)
  next
    case True
    let ?reply = "\<lparr>rs_Ack = [], rs_Rejected = map ID (filter (skewed (rv_now env)) (rq_Samples req)), rs_Retry = False, rs_ServerTime = rv_now env\<rparr>"
    from True have "receive_record (rv_now env) n ?valid r ?reply (meanwhile env m1) = (m', reply)" "d' = d1"
      using assms p i by (auto simp: receive_def Let_def split: prod.splits)
    then show ?thesis using i receive_record_ack by fastforce
  qed
qed

section \<open>What the agent's actions may do\<close>

text \<open>Sample files carry the capture time of their identifier, and only committed identifiers are settled.\<close>

definition act_fits :: "runtime \<Rightarrow> (string \<Rightarrow> time) \<Rightarrow> string set \<Rightarrow> act \<Rightarrow> bool" where
  "act_fits rt tau S a =
     (case a of
        Create t \<Rightarrow> is_pending t
      | Rename t n b \<Rightarrow> HasSuffix n sample_suffix \<longrightarrow> (\<forall>x. unmarshal rt b = Some x \<longrightarrow> Time x = tau (ID x))
      | Settle i \<Rightarrow> i \<in> S
      | _ \<Rightarrow> True)"

definition timed :: "runtime \<Rightarrow> (string \<Rightarrow> time) \<Rightarrow> dir \<Rightarrow> bool" where
  "timed rt tau d \<longleftrightarrow> (\<forall>f b x. HasSuffix f sample_suffix \<longrightarrow> \<not> is_pending f \<longrightarrow> mget d f = Some (Regular b) \<longrightarrow>
     unmarshal rt b = Some x \<longrightarrow> Time x = tau (ID x))"

definition world_fits :: "runtime \<Rightarrow> (string \<Rightarrow> time) \<Rightarrow> string set \<Rightarrow> world \<Rightarrow> bool" where
  "world_fits rt tau S w \<longleftrightarrow> timed rt tau (cur w) \<and> timed rt tau (dur w) \<and> set (settled w) \<subseteq> S"

lemma act_fits_world: "act_fits rt tau S a \<Longrightarrow> world_fits rt tau S w \<Longrightarrow> world_fits rt tau S (apply_act a w)"
  by (cases a) (auto simp: act_fits_def world_fits_def timed_def split: if_splits)

lemma acts_fit_world: "list_all (act_fits rt tau S) acts \<Longrightarrow> world_fits rt tau S w \<Longrightarrow> world_fits rt tau S (run_acts acts w)"
  by (induction acts arbitrary: w) (auto simp: act_fits_world simp del: apply_act.simps)

lemma list_all_take: "list_all P xs \<Longrightarrow> list_all P (take k xs)"
  by (metis append_take_drop_id list_all_append)

lemma crashed_fits: "world_fits rt tau S w \<Longrightarrow> crashed w w' \<Longrightarrow> world_fits rt tau S w'"
  unfolding crashed_def world_fits_def timed_def by fastforce

lemma writeAtomic_fits:
  "writeAtomic env path b = (acts, ok) \<Longrightarrow> HasSuffix path sample_suffix \<longrightarrow> (\<forall>x. unmarshal rt b = Some x \<longrightarrow> Time x = tau (ID x)) \<Longrightarrow>
     list_all (act_fits rt tau S) acts"
  by (auto simp: writeAtomic_def act_fits_def Let_def split: write_end.splits if_splits)

lemma write_count_fits: "list_all (act_fits rt tau S) (fst (writeAtomic env dropped_name b))"
  using writeAtomic_fits [of env dropped_name b "fst (writeAtomic env dropped_name b)" "snd (writeAtomic env dropped_name b)"] by simp

lemma fits_simps [simp]:
  "act_fits rt tau S Sync" "act_fits rt tau S (Ask n)" "act_fits rt tau S (Accept i)" "act_fits rt tau S (Lose i)" "act_fits rt tau S (Unlink t)"
  "act_fits rt tau S (Settle i) = (i \<in> S)"
  by (simp_all add: act_fits_def)

lemma closing_fits: "list_all (act_fits rt tau S) (closing_sync io)"
  by (simp add: closing_sync_def)

lemma prune_loop_fits: "list_all (act_fits rt tau S) (fst (snd (prune_loop io cutoff mx k es by d)))"
  by (induction es arbitrary: k "by" d) (simp_all add: Let_def split_beta write_count_fits)

lemma pruneLocked_fits: "list_all (act_fits rt tau S) (fst (snd (pruneLocked io now q)))"
  by (simp add: pruneLocked_def Let_def split_beta prune_loop_fits closing_fits)

lemma Batch_fits: "list_all (act_fits rt tau S) (fst (snd (Batch io now q)))"
  by (simp add: Batch_def Let_def split_beta pruneLocked_fits)

lemma ack_loop_fits:
  "(\<And>i. i \<in> set ids \<Longrightarrow> act_fits rt tau S (mk i)) \<Longrightarrow> list_all (act_fits rt tau S) (fst (snd (ack_loop mk fails ids k es by)))"
  by (induction es arbitrary: k "by") (simp_all add: Let_def split_beta)

lemma ackLocked_fits:
  "(\<And>i. i \<in> set ids \<Longrightarrow> act_fits rt tau S (mk i)) \<Longrightarrow> list_all (act_fits rt tau S) (fst (snd (ackLocked mk io ids q)))"
  by (simp add: ackLocked_def Let_def split_beta ack_loop_fits closing_fits)

lemma Reject_fits: "list_all (act_fits rt tau S) (fst (snd (Reject io ids q)))"
  by (simp add: Reject_def Let_def split_beta write_count_fits ackLocked_fits)

lemma Add_fits:
  assumes rt: "runtime_ok rt" and t: "Time x = tau (ID x)"
  shows "list_all (act_fits rt tau S) (fst (snd (Add_sample rt now0 we now io x q)))"
proof (cases "Validate now0 x = None \<and> (\<exists>b. marshal rt x = Some b)")
  case False
  then show ?thesis by (auto simp: Add_sample_def split: option.splits)
next
  case True
  then obtain b where v: "Validate now0 x = None" and b: "marshal rt x = Some b" by blast
  have "hex_ok (ID x)" using Validate_ID [OF v] by (simp add: hex_ok_def)
  with runtime_marshal [OF rt b] t have "\<forall>y. unmarshal rt b = Some y \<longrightarrow> Time y = tau (ID y)" by auto
  then have "list_all (act_fits rt tau S) (fst (writeAtomic we (sample_name (ID x)) b))"
    using writeAtomic_fits [of we "sample_name (ID x)" b _ "snd (writeAtomic we (sample_name (ID x)) b)"] by simp
  then show ?thesis using v b by (simp add: Add_sample_def Let_def split_beta pruneLocked_fits)
qed

lemma OpenSpool_fits: "list_all (act_fits rt tau S) (fst (OpenSpool rt env now io d))"
proof -
  have l: "list_all (act_fits rt tau S) (fst (load_loop rt env d fs es by))" for fs es "by"
    using load_loop_acts [OF surjective_pairing, of rt env d fs es "by"] by (auto simp: list_all_iff)
  show ?thesis
    by (simp add: OpenSpool_def Let_def split_beta l pruneLocked_fits split: sum.split)
qed

text \<open>What the queue holds and sends carries the right capture times.\<close>

lemma stored_timed: "stored rt d e \<Longrightarrow> timed rt tau d \<Longrightarrow> entry_time e = tau (entry_id e)"
  using sample_suffixed [of "entry_id e"] unfolding stored_def timed_def by metis

lemma spool_timed: "spool_inv rt q w \<Longrightarrow> world_fits rt tau S w \<Longrightarrow> e \<in> set (entries q) \<Longrightarrow> entry_time e = tau (entry_id e)"
  using stored_timed unfolding running_inv_def queue_inv_def world_fits_def by blast

lemma fill_batch_set: "set (fill_batch out es) \<subseteq> set out \<union> sample ` set es"
  by (induction out es rule: fill_batch.induct) auto

lemma Batch_samples:
  assumes "Batch io now q = (q', acts, Some ss)"
  shows "set ss \<subseteq> sample ` set (entries q')"
proof (cases "entries q' = []")
  case False
  then have "ss = fill_batch [sample (last (entries q'))] (butlast (entries q'))"
    using assms by (auto simp: Batch_def Let_def split: if_splits prod.splits)
  moreover have "set [sample (last (entries q'))] \<union> sample ` set (butlast (entries q')) \<subseteq> sample ` set (entries q')"
    using False by (auto dest: in_set_butlastD)
  ultimately show ?thesis
    using fill_batch_set [of "[sample (last (entries q'))]" "butlast (entries q')"] by blast
qed (use assms in \<open>auto simp: Batch_def Let_def split: if_splits prod.splits\<close>)

section \<open>Exactly once\<close>

definition stored_ids :: "uint \<Rightarrow> hub_db \<Rightarrow> string set" where
  "stored_ids srv d = {i. rows srv i d = 1}"

definition link_inv :: "runtime \<Rightarrow> (string \<Rightarrow> time) \<Rightarrow> uint \<Rightarrow> e2e \<Rightarrow> bool" where
  "link_inv rt tau srv s \<longleftrightarrow> world_fits rt tau (stored_ids srv (db s)) (wd s) \<and> hub_inv tau srv (clock s) (db s) \<and>
     (\<forall>x \<in> set (sent s). Time x = tau (ID x)) \<and> (\<forall>r \<in> set (replies s). set (rs_Ack r) \<subseteq> stored_ids srv (db s))"

definition e2e_inv :: "runtime \<Rightarrow> (string \<Rightarrow> time) \<Rightarrow> uint \<Rightarrow> e2e \<Rightarrow> bool" where
  "e2e_inv rt tau srv s \<longleftrightarrow> (runtime_ok rt \<longrightarrow> outbox_inv rt (ag s, wd s) \<and> link_inv rt tau srv s)"

lemma link_op_spool: "link_op rt tau s q acts q' out \<Longrightarrow> spool_op rt q acts q'"
  by (erule link_op.cases) (auto intro: spool_op.intros)

lemma link_op_fits:
  assumes "runtime_ok rt" "link_op rt tau s q acts q' out" "\<forall>r \<in> set (replies s). set (rs_Ack r) \<subseteq> S"
  shows "list_all (act_fits rt tau S) acts"
  using assms(2)
proof cases
  case (link_add x now0 we now io r)
  then show ?thesis using Add_fits [OF assms(1), of x tau S now0 we now io q] by simp
next
  case (link_batch io now out)
  then show ?thesis using Batch_fits [of rt tau S io now q] by simp
next
  case (link_ack r io ok)
  then have "list_all (act_fits rt tau S) (fst (snd (ackLocked Settle io (rs_Ack r) q)))"
    using assms(3) by (intro ackLocked_fits) auto
  then show ?thesis using link_ack by (simp add: Ack_def)
next
  case (link_reject r io ok)
  then show ?thesis using Reject_fits [of rt tau S io "rs_Rejected r" q] by simp
next
  case (link_health we b ok)
  then show ?thesis using writeAtomic_fits [of we health_name b acts ok] by simp
qed

lemma link_op_out:
  assumes "link_op rt tau s q acts q' out" "spool_inv rt q' w" "world_fits rt tau S w"
  shows "\<forall>x \<in> set out. Time x = tau (ID x)"
  using assms(1)
proof cases
  case (link_batch io now ss)
  then show ?thesis
    using Batch_samples [of io now q q' acts] spool_timed [OF assms(2,3)] by (cases ss) auto
qed simp_all

lemma fits_mono: "world_fits rt tau S w \<Longrightarrow> S \<subseteq> T \<Longrightarrow> world_fits rt tau T w"
  by (auto simp: world_fits_def)

text \<open>Steps of the Hub keep what is stored.\<close>

definition hub_grows :: "uint \<Rightarrow> hub_db \<Rightarrow> hub_db \<Rightarrow> bool" where
  "hub_grows srv d d' \<longleftrightarrow> stored_ids srv d \<subseteq> stored_ids srv d'"

lemma link_hub:
  assumes "link_inv rt tau srv s" "hub_inv tau srv c d" "hub_grows srv (db s) d" "\<forall>r \<in> set new. set (rs_Ack r) \<subseteq> stored_ids srv d"
  shows "link_inv rt tau srv (s\<lparr>mon := m, db := d, clock := c, replies := new @ replies s\<rparr>)"
  using assms fits_mono [of rt tau "stored_ids srv (db s)" "wd s" "stored_ids srv d"]
  unfolding link_inv_def hub_grows_def by fastforce

lemma receive_hub:
  assumes inv: "hub_inv tau srv c d" and c: "c \<le> rv_ingest_now env + hour"
    and t: "\<And>x. x \<in> set (rq_Samples req) \<Longrightarrow> n_ServerID n = srv \<Longrightarrow> Time x = tau (ID x)"
    and r: "receive env n req g (m, d) = ((m', d'), reply)"
  shows "hub_inv tau srv (max c (rv_ingest_now env)) d'" and "hub_grows srv d d'"
    and "n_ServerID n = srv \<Longrightarrow> set (rs_Ack reply) \<subseteq> stored_ids srv d'"
proof -
  let ?now = "rv_ingest_now env" and ?c = "max c (rv_ingest_now env)" let ?v = "filter (\<lambda>s. \<not> skewed (rv_now env) s) (rq_Samples req)"
  have i: "hub_inv tau srv ?c d" by (rule hub_inv_later [OF inv]) simp
  have b: "?now \<le> ?c" "?c \<le> ?now + hour" using c by (simp_all add: duration_units)
  have tv: "\<And>x. x \<in> set ?v \<Longrightarrow> n_ServerID n = srv \<Longrightarrow> Time x = tau (ID x)" using t by simp
  show h: "hub_inv tau srv ?c d'"
    using receive_cases [OF r] Ingest_inv [OF b i tv] i by blast
  show "hub_grows srv d d'"
  proof (cases "n_ServerID n = srv")
    case True
    have "\<forall>j. rows srv j d \<le> rows srv j d'" using receive_cases [OF r] Ingest_rows [OF b i tv [OF _ True] True] by fastforce
    moreover have "\<forall>j. rows srv j d' \<le> 1" using h by (simp add: hub_inv_def)
    ultimately show ?thesis unfolding hub_grows_def stored_ids_def by (metis (mono_tags, lifting) le_antisym mem_Collect_eq subsetI)
  next
    case False
    then show ?thesis using receive_cases [OF r] Ingest_rows_other [OF False] by (auto simp: hub_grows_def stored_ids_def)
  qed
  show "set (rs_Ack reply) \<subseteq> stored_ids srv d'" if s: "n_ServerID n = srv"
    using receive_cases [OF r] Ingest_rows [OF b i tv [OF _ s] s] by (fastforce simp: stored_ids_def)
qed

lemma mget_filter_vals: "mok m \<Longrightarrow> mget (filter (\<lambda>(k, v). P v) m) k = (case mget m k of Some v \<Rightarrow> if P v then Some v else None | None \<Rightarrow> None)"
proof (induction m)
  case (Cons p m)
  then show ?case by (cases p) (auto simp: mok_def map_of_eq_None_iff image_iff split: option.splits)
qed simp

lemma Cleanup_hub:
  assumes inv: "hub_inv tau srv c d"
  shows "hub_inv tau srv (max c now) (Cleanup now ok1 ok2 d)" and "hub_grows srv d (Cleanup now ok1 ok2 d)"
proof -
  have rows: "rows srv i (Cleanup now ok1 ok2 d) = rows srv i d" for i
    by (simp add: Cleanup_def rows_def Let_def)
  then show "hub_grows srv d (Cleanup now ok1 ok2 d)" by (simp add: hub_grows_def stored_ids_def)
  have m: "mok (receipts d)" using inv by (simp add: hub_inv_def)
  have l: "hub_inv tau srv (max c now) d" by (rule hub_inv_later [OF inv]) simp
  let ?r = "filter (\<lambda>(k, t). \<not> Before t (Add now (- (48 * hour)))) (receipts d)"
  have r: "receipts (Cleanup now ok1 ok2 d) = (if ok1 then ?r else receipts d)" by (simp add: Cleanup_def Let_def)
  have g: "mget ?r k = (case mget (receipts d) k of Some t \<Rightarrow> if now - 48 * hour \<le> t then Some t else None | None \<Rightarrow> None)" for k
    using mget_filter_vals [OF m, of "\<lambda>t. \<not> Before t (Add now (- (48 * hour)))" k] by (auto split: option.splits)
  show "hub_inv tau srv (max c now) (Cleanup now ok1 ok2 d)"
  proof (cases ok1)
    case False
    then show ?thesis using l by (simp add: Cleanup_def)
  next
    case True
    have old: "tau i < max c now - 48 * hour + 5 * minute" if one: "rows srv i d = 1" and no: "mget ?r (srv, i) = None" for i
    proof (cases "mget (receipts d) (srv, i)")
      case None
      then show ?thesis using l one by (simp add: hub_inv_def)
    next
      case (Some t)
      then have "t < now - 48 * hour" using no g [of "(srv, i)"] by (simp split: if_splits)
      moreover have "tau i \<le> t + 5 * minute" using l Some by (simp add: hub_inv_def)
      ultimately show ?thesis by simp
    qed
    have kept: "mget (receipts d) (srv, i) = Some t" if "mget ?r (srv, i) = Some t" for i t
      using that g [of "(srv, i)"] by (simp split: option.splits if_splits)
    have ok: "mok ?r" using m by (simp add: mok_def distinct_map_filter)
    have e: "receipts (Cleanup now ok1 ok2 d) = ?r" using r True by simp
    show ?thesis
      using ok l old kept unfolding hub_inv_def rows e by blast
  qed
qed

lemma admin_hub: "hub_inv tau srv c (d\<lparr>servers := ss, agent_nodes := ns\<rparr>) = hub_inv tau srv c d"
  "stored_ids srv (d\<lparr>servers := ss, agent_nodes := ns\<rparr>) = stored_ids srv d"
  by (simp_all add: hub_inv_def rows_def stored_ids_def)

lemma e2e_agent:
  assumes rt: "runtime_ok rt" and inv: "outbox_inv rt (ag s, wd s)" and l: "link_inv rt tau srv s"
    and a: "ag s = Some q" and op: "link_op rt tau s q acts q' out"
  shows "outbox_inv rt (Some q', run_acts acts (wd s)) \<and> link_inv rt tau srv (s\<lparr>ag := Some q', wd := run_acts acts (wd s), sent := out @ sent s\<rparr>)"
    and "crashed (run_acts (take k acts) (wd s)) w' \<Longrightarrow> outbox_inv rt (None, w') \<and> link_inv rt tau srv (s\<lparr>ag := None, wd := w'\<rparr>)"
proof -
  let ?S = "stored_ids srv (db s)"
  have f: "list_all (act_fits rt tau ?S) acts" by (rule link_op_fits [OF rt op]) (use l in \<open>simp add: link_inv_def\<close>)
  have w: "world_fits rt tau ?S (wd s)" using l by (simp add: link_inv_def)
  have st: "spool_step rt (ag s, wd s) (Some q', run_acts acts (wd s))" unfolding a by (rule op_done [OF link_op_spool [OF op]])
  have o: "outbox_inv rt (Some q', run_acts acts (wd s))" by (rule outbox.inv_step [OF inv st])
  have w': "world_fits rt tau ?S (run_acts acts (wd s))" by (rule acts_fit_world [OF f w])
  have "\<forall>x \<in> set out. Time x = tau (ID x)" using link_op_out [OF op _ w'] o rt by (simp add: outbox_inv_def)
  then show "outbox_inv rt (Some q', run_acts acts (wd s)) \<and> link_inv rt tau srv (s\<lparr>ag := Some q', wd := run_acts acts (wd s), sent := out @ sent s\<rparr>)"
    using o w' l by (auto simp: link_inv_def)
  show "outbox_inv rt (None, w') \<and> link_inv rt tau srv (s\<lparr>ag := None, wd := w'\<rparr>)" if c: "crashed (run_acts (take k acts) (wd s)) w'"
  proof -
    have "spool_step rt (ag s, wd s) (None, w')" unfolding a by (rule op_crash [OF link_op_spool [OF op] c])
    then have "outbox_inv rt (None, w')" by (rule outbox.inv_step [OF inv])
    moreover have "world_fits rt tau ?S w'" by (rule crashed_fits [OF acts_fit_world [OF list_all_take [OF f] w] c])
    ultimately show ?thesis using l by (simp add: link_inv_def)
  qed
qed

lemma e2e_start:
  assumes inv: "outbox_inv rt (ag s, wd s)" and l: "link_inv rt tau srv s"
    and a: "ag s = None" and op: "OpenSpool rt env now io (cur (wd s)) = (acts, r)"
  shows "outbox_inv rt (case r of Inr q \<Rightarrow> Some q | Inl e \<Rightarrow> None, run_acts acts (wd s)) \<and>
      link_inv rt tau srv (s\<lparr>ag := (case r of Inr q \<Rightarrow> Some q | Inl e \<Rightarrow> None), wd := run_acts acts (wd s)\<rparr>)"
    and "crashed (run_acts (take k acts) (wd s)) w' \<Longrightarrow> outbox_inv rt (ag s, w') \<and> link_inv rt tau srv (s\<lparr>wd := w'\<rparr>)"
proof -
  let ?S = "stored_ids srv (db s)"
  have f: "list_all (act_fits rt tau ?S) acts" using OpenSpool_fits [of rt tau ?S env now io "cur (wd s)"] op by simp
  have w: "world_fits rt tau ?S (wd s)" using l by (simp add: link_inv_def)
  have "spool_step rt (ag s, wd s) (case r of Inr q \<Rightarrow> Some q | Inl e \<Rightarrow> None, run_acts acts (wd s))"
    unfolding a using op by (cases r) (auto intro: open_done open_failed)
  with outbox.inv_step [OF inv] acts_fit_world [OF f w] l
  show "outbox_inv rt (case r of Inr q \<Rightarrow> Some q | Inl e \<Rightarrow> None, run_acts acts (wd s)) \<and>
      link_inv rt tau srv (s\<lparr>ag := (case r of Inr q \<Rightarrow> Some q | Inl e \<Rightarrow> None), wd := run_acts acts (wd s)\<rparr>)"
    by (auto simp: link_inv_def)
  show "outbox_inv rt (ag s, w') \<and> link_inv rt tau srv (s\<lparr>wd := w'\<rparr>)" if c: "crashed (run_acts (take k acts) (wd s)) w'"
  proof -
    have "spool_step rt (ag s, wd s) (ag s, w')" unfolding a by (rule open_crash [OF op c])
    with outbox.inv_step [OF inv] crashed_fits [OF acts_fit_world [OF list_all_take [OF f] w] c] l show ?thesis
      by (auto simp: link_inv_def)
  qed
qed

interpretation e2e: transition_system e2e_init "e2e_step rt tau srv" "e2e_inv rt tau srv" for rt tau srv
proof
  fix s assume i: "e2e_init s"
  then have "outbox_inv rt (ag s, wd s)" by (auto simp: e2e_init_def intro: outbox.inv_init)
  moreover have "link_inv rt tau srv s"
    using i by (auto simp: e2e_init_def spool_init_def link_inv_def world_fits_def timed_def hub_inv_def rows_def mok_def)
  ultimately show "e2e_inv rt tau srv s" by (simp add: e2e_inv_def)
next
  fix s t assume inv: "e2e_inv rt tau srv s" and st: "e2e_step rt tau srv s t"
  show "e2e_inv rt tau srv t"
    unfolding e2e_inv_def
  proof
    assume rt: "runtime_ok rt"
    then have o: "outbox_inv rt (ag s, wd s)" and l: "link_inv rt tau srv s" using inv by (simp_all add: e2e_inv_def)
    have h: "hub_inv tau srv (clock s) (db s)" using l by (simp add: link_inv_def)
    from st show "outbox_inv rt (ag t, wd t) \<and> link_inv rt tau srv t"
    proof cases
      case (agent_op q acts q' out)
      with e2e_agent(1) [OF rt o l agent_op(2,3)] show ?thesis by simp
    next
      case (agent_crash q acts q' out k w')
      with e2e_agent(2) [OF rt o l agent_crash(2,3,4)] show ?thesis by simp
    next
      case agent_stop
      then show ?thesis using o l by (auto simp: outbox_inv_def link_inv_def)
    next
      case (agent_start env now io acts r)
      with e2e_start(1) [OF o l agent_start(2,3)] show ?thesis by simp
    next
      case (agent_start_crash env now io acts r k w')
      with e2e_start(2) [OF o l agent_start_crash(2,3,4)] show ?thesis by simp
    next
      case (hub_receive n req env g m' db' reply)
      have t: "\<And>x. x \<in> set (rq_Samples req) \<Longrightarrow> n_ServerID n = srv \<Longrightarrow> Time x = tau (ID x)"
        using hub_receive(3) l by (auto simp: link_inv_def)
      note R = receive_hub [OF h hub_receive(5) t hub_receive(6)]
      have "link_inv rt tau srv (s\<lparr>mon := m', db := db', clock := max (clock s) (rv_ingest_now env), replies := [reply] @ replies s\<rparr>)"
        by (rule link_hub [OF l R(1,2)]) (use R(3) hub_receive(2) in simp_all)
      then show ?thesis using hub_receive(1) o by simp
    next
      case (hub_other n env req g m' db' reply)
      have t: "\<And>x. x \<in> set (rq_Samples req) \<Longrightarrow> n_ServerID n = srv \<Longrightarrow> Time x = tau (ID x)" using hub_other(2) by simp
      note R = receive_hub [OF h hub_other(3) t hub_other(4)]
      have "link_inv rt tau srv (s\<lparr>mon := m', db := db', clock := max (clock s) (rv_ingest_now env), replies := [] @ replies s\<rparr>)"
        by (rule link_hub [OF l R(1,2)]) simp_all
      then show ?thesis using hub_other(1) o by simp
    next
      case (hub_cleanup now ok1 ok2)
      have "link_inv rt tau srv (s\<lparr>mon := mon s, db := Cleanup now ok1 ok2 (db s), clock := max (clock s) now, replies := [] @ replies s\<rparr>)"
        by (rule link_hub [OF l Cleanup_hub [OF h]]) simp_all
      then show ?thesis using hub_cleanup(1) o by simp
    next
      case (hub_admin m' ss ns)
      then show ?thesis using o l by (simp add: link_inv_def admin_hub)
    qed
  qed
qed

text \<open>C1. Delivery from end to end. An agent and its Hub run in any way: failing file systems, crashes and
  restarts of the agent, messages and replies lost, delayed or repeated, transactions that fail or
  commit without saying so, requests that overlap at the Hub (the time a request stamps may be an hour
  older than the newest one), the Hub restarted, receipts cleaned up, other agents reporting. Then no
  sample is ever stored twice, and every sample taken into the outbox is still owed, with a durable
  file, or is stored exactly once, or was given up, which the persisted counter accounts for.\<close>

theorem delivered_exactly_once:
  assumes rt: "runtime_ok rt" and r: "reach e2e_init (e2e_step rt tau srv) s"
  shows "(\<forall>i. rows srv i (db s) \<le> 1) \<and>
    (\<forall>i. i \<in> set (accepted (wd s)) \<longrightarrow>
       (i \<in> set (owed (wd s)) \<and> kept_on rt (dur (wd s)) i) \<or> rows srv i (db s) = 1 \<or> i \<in> set (lost (wd s))) \<and>
    (asked (wd s) < 18446744073709551616 \<longrightarrow> length (lost (wd s)) \<le> counter (dur (wd s)))"
proof -
  have "outbox_inv rt (ag s, wd s)" "link_inv rt tau srv s" using e2e.reach_inv [OF r] rt by (simp_all add: e2e_inv_def)
  then have w: "world_inv rt (wd s)" and "set (settled (wd s)) \<subseteq> stored_ids srv (db s)" "hub_inv tau srv (clock s) (db s)"
    using rt by (simp_all add: outbox_inv_def link_inv_def world_fits_def)
  then show ?thesis unfolding world_inv_def hub_inv_def stored_ids_def by blast
qed

text \<open>One sample on its way: collected, sent, stored, acknowledged.\<close>

definition demo_node :: AgentNode where
  "demo_node = fresh_node 1 ''install'' ''hash'' ''cipher'' [] ''target''"

definition demo_hub_db :: hub_db where
  "demo_hub_db = \<lparr>servers = [(1, \<lparr>sv_ID = 1, sv_target = ''target''\<rparr>)], agent_nodes = [(1, demo_node)], receipts = [], metrics = []\<rparr>"

definition demo_e0 :: e2e where
  "demo_e0 = \<lparr>ag = None, wd = demo_w0, mon = \<lparr>rm_nodes = [], rm_closed = False, revoked = []\<rparr>, db = demo_hub_db, clock = 0,
     sent = [], replies = []\<rparr>"

definition demo_e1 :: e2e where
  "demo_e1 = demo_e0\<lparr>ag := Some demo_opened, wd := run_acts [Sync] demo_w0\<rparr>"

definition agent_did :: "Spool \<times> act list \<times> 'a \<Rightarrow> Sample list \<Rightarrow> e2e \<Rightarrow> e2e" where
  "agent_did r out s = s\<lparr>ag := Some (fst r), wd := run_acts (fst (snd r)) (wd s), sent := out @ sent s\<rparr>"

definition demo_e2 :: e2e where
  "demo_e2 = agent_did demo_added [] demo_e1"

definition demo_sent :: "Spool \<times> act list \<times> Sample list option" where
  "demo_sent = Batch demo_io 0 (fst demo_added)"

definition demo_e3 :: e2e where
  "demo_e3 = agent_did demo_sent (case snd (snd demo_sent) of Some ss \<Rightarrow> ss | None \<Rightarrow> []) demo_e2"

definition demo_request_msg :: Request where
  "demo_request_msg = \<lparr>rq_Protocol = 2, rq_Version = ''1'', rq_Kind = ''samples'', rq_Latest = None,
     rq_Samples = [demo_sample demo_id 0], rq_Pending = 1, rq_Dropped = 0\<rparr>"

definition demo_renv :: receive_env where
  "demo_renv = \<lparr>rv_now = 0, rv_checked = 0, rv_slot = GotSlot, rv_ingest_now = 1, rv_tx = TxCommitted, meanwhile = (\<lambda>m. m)\<rparr>"

definition demo_received :: "(ResidentMonitor \<times> hub_db) \<times> Response" where
  "demo_received = receive demo_renv demo_node demo_request_msg 0 (mon demo_e3, db demo_e3)"

definition demo_e4 :: e2e where
  "demo_e4 = demo_e3\<lparr>mon := fst (fst demo_received), db := snd (fst demo_received), clock := 1,
     replies := snd demo_received # replies demo_e3\<rparr>"

definition demo_acked :: "Spool \<times> act list \<times> bool" where
  "demo_acked = Ack demo_io (rs_Ack (snd demo_received)) (fst demo_sent)"

definition demo_e5 :: e2e where
  "demo_e5 = agent_did demo_acked [] demo_e4"

lemma demo_e5_facts:
  "accepted (wd demo_e5) = [demo_id]" "owed (wd demo_e5) = []" "lost (wd demo_e5) = []" "rs_Ack (snd demo_received) = [demo_id]"
  by code_simp+

lemma demo_sent_samples: "demo_sample demo_id 0 \<in> set (sent demo_e3)"
  by code_simp

lemma demo_request_valid: "validate_request 0 demo_request_msg = None"
  by code_simp

lemma demo_e2e_reach: "reach e2e_init (e2e_step demo_runtime (\<lambda>_. 0) 1) demo_e5"
proof -
  let ?step = "e2e_step demo_runtime (\<lambda>_. 0) 1"
  have "e2e_init demo_e0" by (simp add: e2e_init_def demo_e0_def demo_hub_db_def spool_init_def demo_w0_def)
  then have "reach e2e_init ?step demo_e0" by (rule reach_init)
  moreover have "?step demo_e0 demo_e1"
    using agent_start [of demo_e0 demo_runtime demo_env 0 demo_io "[Sync]" "Inr demo_opened"] demo_opened_eq
    by (simp add: demo_e1_def demo_e0_def demo_w0_def)
  moreover have "?step demo_e1 demo_e2"
    unfolding demo_e2_def agent_did_def
    by (rule agent_op, simp add: demo_e1_def,
        rule link_add [of "demo_sample demo_id 0" _ _ 0 demo_write 0 demo_io _ _ _ "snd (snd demo_added)"])
      (simp_all add: demo_added_def demo_sample_def)
  moreover have "?step demo_e2 demo_e3"
    unfolding demo_e3_def agent_did_def
    by (rule agent_op, simp add: demo_e2_def agent_did_def, rule link_batch [of demo_io 0]) (simp add: demo_sent_def)
  moreover have "?step demo_e3 demo_e4"
    unfolding demo_e4_def
    using hub_receive [of demo_node 1 demo_request_msg demo_e3 demo_renv 0 "fst (fst demo_received)" "snd (fst demo_received)" "snd demo_received"]
      demo_sent_samples demo_request_valid
    by (simp add: demo_received_def demo_renv_def demo_request_msg_def demo_node_def fresh_node_def demo_e3_def demo_e2_def demo_e1_def
        demo_e0_def agent_did_def duration_units)
  moreover have "?step demo_e4 demo_e5"
    unfolding demo_e5_def agent_did_def
    by (rule agent_op, simp add: demo_e4_def demo_e3_def agent_did_def,
        rule link_ack [of "snd demo_received" _ demo_io _ _ _ "snd (snd demo_acked)"])
      (simp_all add: demo_e4_def demo_acked_def)
  ultimately show ?thesis by (meson reach_step)
qed

theorem delivered_exactly_once_witness:
  "runtime_ok demo_runtime \<and> reach e2e_init (e2e_step demo_runtime (\<lambda>_. 0) 1) demo_e5 \<and>
   accepted (wd demo_e5) = [demo_id] \<and> rows 1 demo_id (db demo_e5) = 1"
  using delivered_exactly_once [OF demo_runtime_ok demo_e2e_reach] demo_runtime_ok demo_e2e_reach demo_e5_facts by simp

section \<open>Stored rows\<close>

text \<open>The values a row may have.\<close>

definition in_range :: "float64 option \<Rightarrow> (rat \<Rightarrow> bool) \<Rightarrow> bool" where
  "in_range v P \<longleftrightarrow> (\<forall>f. v = Some f \<longrightarrow> (\<exists>x. f = Fin x \<and> P x))"

definition counted :: "int option \<Rightarrow> int option \<Rightarrow> bool" where
  "counted used tot \<longleftrightarrow> (\<forall>u. used = Some u \<longrightarrow> 0 \<le> u) \<and> (\<forall>t. tot = Some t \<longrightarrow> 0 \<le> t) \<and>
     (\<forall>u t. used = Some u \<and> tot = Some t \<longrightarrow> u \<le> t)"

definition row_wf :: "Sample \<Rightarrow> bool" where
  "row_wf x \<longleftrightarrow> length (ID x) = 32 \<and> (\<forall>c \<in> set (ID x). is_hex c) \<and>
     in_range (CPU x) (\<lambda>v. 0 \<le> v \<and> v \<le> 100) \<and> (\<forall>l \<in> {Load1 x, Load5 x, Load15 x}. in_range l (\<lambda>v. 0 \<le> v)) \<and>
     counted (MemoryUsed x) (MemoryTotal x) \<and> counted (SwapUsed x) (SwapTotal x) \<and> counted (DiskUsed x) (DiskTotal x) \<and>
     (\<forall>c \<in> {NetRecv x, NetSent x, DiskRead x, DiskWrite x, Uptime x}. counted c None)"

lemma metric_in_range: "\<not> invalid_metric v \<Longrightarrow> in_range v (\<lambda>x. 0 \<le> x)"
  by (auto simp: invalid_metric_def in_range_def split: float64.splits)

lemma counter_counted: "\<not> invalid_counter c \<Longrightarrow> counted c None"
  by (cases c) (auto simp: invalid_counter_def counted_def)

lemma pair_counted: "\<not> invalid_counter u \<Longrightarrow> \<not> invalid_counter t \<Longrightarrow> \<not> exceeds (u, t) \<Longrightarrow> counted u t"
  by (auto simp: invalid_counter_def counted_def exceeds_def)

lemma guard_None: "(if P then Some e else r) = None \<longleftrightarrow> \<not> P \<and> r = None"
  by simp

lemma shape_wf: "validate_shape x = None \<Longrightarrow> row_wf x"
proof -
  assume a: "validate_shape x = None"
  have i: "int (length (ID x)) = 32" "hex_ok (ID x)"
    and m: "\<not> list_ex invalid_metric [CPU x, Load1 x, Load5 x, Load15 x]"
    and c: "\<not> (case CPU x of Some (Fin v) \<Rightarrow> v > 100 | _ \<Rightarrow> False)"
    and k: "\<not> list_ex invalid_counter [MemoryUsed x, MemoryTotal x, SwapUsed x, SwapTotal x, DiskUsed x, DiskTotal x,
       NetRecv x, NetSent x, DiskRead x, DiskWrite x, Uptime x]"
    and e: "\<not> list_ex exceeds [(MemoryUsed x, MemoryTotal x), (SwapUsed x, SwapTotal x), (DiskUsed x, DiskTotal x)]"
    using a unfolding validate_shape_def guard_None not_not by blast+
  have "in_range (CPU x) (\<lambda>v. 0 \<le> v)" using metric_in_range m by simp
  then have "in_range (CPU x) (\<lambda>v. 0 \<le> v \<and> v \<le> 100)" using c by (auto simp: in_range_def)
  then show ?thesis
    using i m k e by (simp add: row_wf_def hex_ok_def list_all_iff metric_in_range counter_counted pair_counted)
qed

definition rows_inv :: "e2e \<Rightarrow> bool" where
  "rows_inv s \<longleftrightarrow> (\<forall>(v, x) \<in> set (metrics (db s)). row_wf x)"

lemma ingest_loop_wf:
  "ingest_loop now v ss d = Inr d' \<Longrightarrow> \<forall>(u, x) \<in> set (metrics d). row_wf x \<Longrightarrow> \<forall>(u, x) \<in> set (metrics d'). row_wf x"
proof (induction ss arbitrary: d)
  case (Cons x ss)
  let ?d = "if mget (receipts d) (v, ID x) = None
     then d\<lparr>receipts := mput (v, ID x) now (receipts d), metrics := metrics d @ [(v, x)]\<rparr> else d"
  have val: "Validate now x = None" and rest: "ingest_loop now v ss ?d = Inr d'"
    using Cons.prems(1) by (auto split: option.splits)
  have "row_wf x" by (rule shape_wf) (use val in \<open>simp add: Validate_accepts\<close>)
  then have "\<forall>(u, y) \<in> set (metrics ?d). row_wf y" using Cons.prems(2) by (simp split: if_split)
  then show ?case by (rule Cons.IH [OF rest])
qed simp

lemma receive_wf:
  assumes "receive env n req g (m, d) = ((m', d'), reply)" "\<forall>(u, x) \<in> set (metrics d). row_wf x"
  shows "\<forall>(u, x) \<in> set (metrics d'). row_wf x"
  using receive_cases [OF assms(1)] Ingest_cases ingest_loop_wf assms(2) by blast

interpretation stored_rows: transition_system e2e_init "e2e_step rt tau srv" rows_inv for rt tau srv
proof
  fix s t assume inv: "rows_inv s" and st: "e2e_step rt tau srv s t"
  from st show "rows_inv t"
  proof cases
    case (hub_receive n req env g m' db' reply)
    then show ?thesis using receive_wf [OF hub_receive(6)] inv by (simp add: rows_inv_def)
  next
    case (hub_other n env req g m' db' reply)
    then show ?thesis using receive_wf [OF hub_other(4)] inv by (simp add: rows_inv_def)
  qed (use inv in \<open>simp_all add: rows_inv_def Cleanup_def Let_def\<close>)
qed (simp add: e2e_init_def rows_inv_def)

text \<open>C31. Whatever the agents of any server report, every row the Hub has stored is well-formed: a sample of
  32 hexadecimal digits, a finite CPU share between 0 and 100, finite loads and counters that are
  not negative, and no used amount above its total.\<close>

theorem stored_rows_wellformed:
  assumes "reach e2e_init (e2e_step rt tau srv) s"
  shows "\<forall>(v, x) \<in> set (metrics (db s)). row_wf x"
  using stored_rows.reach_inv [OF assms] by (simp add: rows_inv_def)

theorem stored_rows_wellformed_witness:
  "reach e2e_init (e2e_step demo_runtime (\<lambda>_. 0) 1) demo_e5 \<and>
   metrics (db demo_e5) = [(1, demo_sample demo_id 0)] \<and> row_wf (demo_sample demo_id 0)"
proof -
  have "metrics (db demo_e5) = [(1, demo_sample demo_id 0)]" by code_simp
  then show ?thesis using stored_rows_wellformed [OF demo_e2e_reach] demo_e2e_reach by simp
qed

end
