(* ===== verification/Exec_Limit.thy ===== *)
theory Exec_Limit
  imports Talus_Prelude
begin

text \<open>
  Bounded capture of a remote command's output (\<^verbatim>\<open>service/execlimit.go\<close>).

  The two \<^verbatim>\<open>cappedWriter\<close>s of one command share the mutex and the total through
  pointers. The total is therefore passed beside the writer, and a run of the command is
  a sequence of \<open>(stream, chunk)\<close> writes, each of them one critical section, in any
  interleaving. \<open>exec_run_ok\<close> and its corollaries show the caps, that each stream keeps
  a prefix of what the command wrote and that truncation is reported exactly when it
  happened. Sizes stay far below the int64 range and are unbounded integers here.
\<close>

section \<open>The writer\<close>

record cappedWriter =
  totalMax :: int
  streamMax :: int
  buf :: bytes
  retained :: int
  discarded :: int

definition newCappedWriter :: "int \<Rightarrow> int \<Rightarrow> cappedWriter" where
  "newCappedWriter tmax smax =
     \<lparr>totalMax = tmax, streamMax = smax, buf = [], retained = 0, discarded = 0\<rparr>"

text \<open>\<^verbatim>\<open>Write\<close> returns the new writer, the new shared total and the byte count it
  reports, which is always the whole chunk.\<close>

definition Write :: "cappedWriter \<Rightarrow> int \<Rightarrow> bytes \<Rightarrow> cappedWriter \<times> int \<times> int" where
  "Write w tot p =
     (let allow0 = streamMax w - retained w;
          room = totalMax w - tot;
          allow1 = (if room < allow0 then room else allow0);
          allow = (if allow1 < 0 then 0 else allow1);
          n = int (length p);
          tk = (if n > allow then allow else n);
          w1 = (if tk > 0
                then w\<lparr>buf := buf w @ take (nat tk) p, retained := retained w + tk\<rparr> else w);
          total1 = (if tk > 0 then tot + tk else tot);
          w2 = (if n > tk then w1\<lparr>discarded := discarded w1 + (n - tk)\<rparr> else w1)
      in (w2, total1, int (length p)))"

record ExecResult =
  Stdout :: bytes
  Stderr :: bytes
  ExitCode :: int
  OutputTruncated :: bool
  StdoutTruncated :: bool
  StderrTruncated :: bool
  StdoutRetained :: int
  StderrRetained :: int
  StdoutDiscarded :: int
  StderrDiscarded :: int

definition execResult :: "cappedWriter \<Rightarrow> cappedWriter \<Rightarrow> int \<Rightarrow> ExecResult" where
  "execResult out err code =
     \<lparr>Stdout = buf out, Stderr = buf err, ExitCode = code,
      OutputTruncated = (discarded out > 0 \<or> discarded err > 0),
      StdoutTruncated = (discarded out > 0),
      StderrTruncated = (discarded err > 0),
      StdoutRetained = retained out, StderrRetained = retained err,
      StdoutDiscarded = discarded out, StderrDiscarded = discarded err\<rparr>"

section \<open>Two writers on one total\<close>

datatype stream = Out | Err

record capture =
  out_w :: cappedWriter
  err_w :: cappedWriter
  shared :: int

definition capture0 :: "int \<Rightarrow> int \<Rightarrow> capture" where
  "capture0 tmax smax =
     \<lparr>out_w = newCappedWriter tmax smax, err_w = newCappedWriter tmax smax, shared = 0\<rparr>"

fun capture_step :: "capture \<Rightarrow> stream \<times> bytes \<Rightarrow> capture" where
  "capture_step c (Out, p) =
     (case Write (out_w c) (shared c) p of (w, t, _) \<Rightarrow> c\<lparr>out_w := w, shared := t\<rparr>)"
| "capture_step c (Err, p) =
     (case Write (err_w c) (shared c) p of (w, t, _) \<Rightarrow> c\<lparr>err_w := w, shared := t\<rparr>)"

definition capture_run :: "int \<Rightarrow> int \<Rightarrow> (stream \<times> bytes) list \<Rightarrow> capture" where
  "capture_run tmax smax ws = foldl capture_step (capture0 tmax smax) ws"

fun written :: "stream \<Rightarrow> (stream \<times> bytes) list \<Rightarrow> bytes" where
  "written s [] = []"
| "written s ((s', p) # ws) = (if s = s' then p @ written s ws else written s ws)"

lemma written_append [simp]: "written s (xs @ ys) = written s xs @ written s ys"
  by (induction xs rule: written.induct) auto

section \<open>One writer\<close>

text \<open>What a writer has kept of the bytes it was given: a prefix, with the counters that
  describe the rest, and a suffix is dropped only once no byte is allowed any more.\<close>

definition writer_ok :: "cappedWriter \<Rightarrow> int \<Rightarrow> bytes \<Rightarrow> bool" where
  "writer_ok w tot given \<longleftrightarrow>
     take (length (buf w)) given = buf w \<and>
     retained w = int (length (buf w)) \<and>
     discarded w = int (length given) - int (length (buf w)) \<and>
     length (buf w) \<le> length given \<and>
     (0 < discarded w \<longrightarrow> streamMax w \<le> retained w \<or> totalMax w \<le> tot)"

lemmas write_defs = Write_def writer_ok_def Let_def

lemma Write_limits [simp]:
  "totalMax (fst (Write w t p)) = totalMax w"
  "streamMax (fst (Write w t p)) = streamMax w"
  by (simp_all add: Write_def Let_def)

lemma Write_reports_all: "snd (snd (Write w t p)) = int (length p)"
  by (simp add: Write_def Let_def)

lemma Write_total:
  assumes "Write w t p = (w', t', n)"
  shows "t' - t = retained w' - retained w" and "t \<le> t'"
    and "t \<le> totalMax w \<Longrightarrow> t' \<le> totalMax w"
    and "retained w \<le> streamMax w \<Longrightarrow> retained w' \<le> streamMax w"
  using assms by (auto simp: Write_def Let_def split: if_splits)

lemma writer_ok_mono: "writer_ok w t given \<Longrightarrow> t \<le> t' \<Longrightarrow> writer_ok w t' given"
  by (auto simp: writer_ok_def)

text \<open>Nothing is allowed any more, so the chunk only counts as discarded.\<close>

lemma Write_blocked:
  assumes "streamMax w \<le> retained w \<or> totalMax w \<le> t"
  shows "Write w t p =
    ((if p = [] then w else w\<lparr>discarded := discarded w + int (length p)\<rparr>), t, int (length p))"
  using assms by (cases p) (auto simp: Write_def Let_def)

lemma Write_ok:
  assumes ok: "writer_ok w t given" and wr: "Write w t p = (w', t', n)"
  shows "writer_ok w' t' (given @ p)"
proof (cases "streamMax w \<le> retained w \<or> totalMax w \<le> t")
  case True
  with wr ok show ?thesis
    by (auto simp: Write_blocked writer_ok_def split: if_splits)
next
  case False
  with ok have "length (buf w) = length given" by (auto simp: writer_ok_def)
  with ok have given: "buf w = given" "retained w = int (length given)" "discarded w = 0"
    by (simp_all add: writer_ok_def)
  define allow where "allow = min (streamMax w - retained w) (totalMax w - t)"
  have pos: "0 < allow" using False by (auto simp: allow_def)
  have wr': "Write w t p =
    (let tk = min (int (length p)) allow;
         w1 = (if tk > 0 then w\<lparr>buf := given @ take (nat tk) p, retained := retained w + tk\<rparr> else w)
     in (if int (length p) > tk then w1\<lparr>discarded := int (length p) - tk\<rparr> else w1,
         t + tk, int (length p)))"
    using False given pos unfolding Write_def Let_def allow_def min_def by auto
  show ?thesis
  proof (cases "int (length p) \<le> allow")
    case True
    with wr wr' pos given show ?thesis
      by (auto simp: writer_ok_def Let_def min_def split: if_splits)
  next
    case False
    with wr wr' pos given have w': "w' = w\<lparr>buf := given @ take (nat allow) p,
        retained := retained w + allow, discarded := int (length p) - allow\<rparr>"
      and t': "t' = t + allow"
      by (auto simp: Let_def min_def)
    have "streamMax w \<le> retained w + allow \<or> totalMax w \<le> t + allow"
      by (auto simp: allow_def min_def)
    with False pos given show ?thesis
      by (auto simp: w' t' writer_ok_def nat_add_distrib min_def)
  qed
qed

section \<open>A whole run\<close>

definition capture_ok :: "int \<Rightarrow> int \<Rightarrow> (stream \<times> bytes) list \<Rightarrow> capture \<Rightarrow> bool" where
  "capture_ok tmax smax ws c \<longleftrightarrow>
     totalMax (out_w c) = tmax \<and> totalMax (err_w c) = tmax \<and>
     streamMax (out_w c) = smax \<and> streamMax (err_w c) = smax \<and>
     shared c = retained (out_w c) + retained (err_w c) \<and>
     shared c \<le> tmax \<and> retained (out_w c) \<le> smax \<and> retained (err_w c) \<le> smax \<and>
     writer_ok (out_w c) (shared c) (written Out ws) \<and>
     writer_ok (err_w c) (shared c) (written Err ws)"

lemma capture_step_ok:
  assumes "capture_ok tmax smax ws c"
  shows "capture_ok tmax smax (ws @ [x]) (capture_step c x)"
proof -
  obtain s p where x: "x = (s, p)" by (cases x)
  show ?thesis
  proof (cases s)
    case Out
    obtain w t n where wr: "Write (out_w c) (shared c) p = (w, t, n)"
      by (cases "Write (out_w c) (shared c) p") auto
    have "totalMax w = totalMax (out_w c)" "streamMax w = streamMax (out_w c)"
      using Write_limits [of "out_w c" "shared c" p] wr by simp_all
    moreover have "writer_ok w t (written Out ws @ p)"
      using assms wr by (auto simp: capture_ok_def intro: Write_ok)
    moreover have "writer_ok (err_w c) t (written Err ws)"
      using assms Write_total(2) [OF wr] by (auto simp: capture_ok_def intro: writer_ok_mono)
    ultimately show ?thesis
      using assms x Out wr Write_total [OF wr] by (simp add: capture_ok_def)
  next
    case Err
    obtain w t n where wr: "Write (err_w c) (shared c) p = (w, t, n)"
      by (cases "Write (err_w c) (shared c) p") auto
    have "totalMax w = totalMax (err_w c)" "streamMax w = streamMax (err_w c)"
      using Write_limits [of "err_w c" "shared c" p] wr by simp_all
    moreover have "writer_ok w t (written Err ws @ p)"
      using assms wr by (auto simp: capture_ok_def intro: Write_ok)
    moreover have "writer_ok (out_w c) t (written Out ws)"
      using assms Write_total(2) [OF wr] by (auto simp: capture_ok_def intro: writer_ok_mono)
    ultimately show ?thesis
      using assms x Err wr Write_total [OF wr] by (simp add: capture_ok_def)
  qed
qed

lemma capture_run_ok:
  assumes "0 \<le> tmax" and "0 \<le> smax"
  shows "capture_ok tmax smax ws (capture_run tmax smax ws)"
proof (induction ws rule: rev_induct)
  case Nil
  from assms show ?case
    by (simp add: capture_run_def capture0_def capture_ok_def newCappedWriter_def writer_ok_def)
next
  case (snoc x ws)
  then show ?case
    using capture_step_ok [OF snoc] by (simp add: capture_run_def)
qed

text \<open>C10. For every interleaving of writes to stdout and stderr, the captured output
  stays within the per-stream and the shared cap, each captured stream is a prefix of what
  the command wrote to it, every byte is either retained or counted as discarded, and a
  stream is reported truncated exactly when something of it is missing.\<close>

theorem exec_capture_correct:
  fixes tmax smax code :: int and ws :: "(stream \<times> bytes) list"
  assumes "0 \<le> tmax" and "0 \<le> smax"
  defines "c \<equiv> capture_run tmax smax ws"
  defines "r \<equiv> execResult (out_w c) (err_w c) code"
  shows "int (length (Stdout r)) \<le> smax \<and> int (length (Stderr r)) \<le> smax \<and>
    int (length (Stdout r)) + int (length (Stderr r)) \<le> tmax \<and>
    (\<exists>rest. written Out ws = Stdout r @ rest \<and> int (length rest) = StdoutDiscarded r) \<and>
    (\<exists>rest. written Err ws = Stderr r @ rest \<and> int (length rest) = StderrDiscarded r) \<and>
    (StdoutTruncated r \<longleftrightarrow> Stdout r \<noteq> written Out ws) \<and>
    (StderrTruncated r \<longleftrightarrow> Stderr r \<noteq> written Err ws) \<and>
    (OutputTruncated r \<longleftrightarrow> StdoutTruncated r \<or> StderrTruncated r)"
proof -
  have ok: "capture_ok tmax smax ws c"
    using assms(1,2) unfolding c_def by (rule capture_run_ok)
  have pre: "\<exists>rest. given = buf w @ rest \<and> int (length rest) = discarded w"
    and iff: "discarded w > 0 \<longleftrightarrow> buf w \<noteq> given"
    if "writer_ok w t given" for w t given
  proof -
    have "given = buf w @ drop (length (buf w)) given"
      using that append_take_drop_id [of "length (buf w)" given] by (simp add: writer_ok_def)
    moreover have "int (length (drop (length (buf w)) given)) = discarded w"
      using that by (simp add: writer_ok_def)
    ultimately show "\<exists>rest. given = buf w @ rest \<and> int (length rest) = discarded w"
      by blast
    show "discarded w > 0 \<longleftrightarrow> buf w \<noteq> given"
      using that by (cases "length (buf w) = length given") (auto simp: writer_ok_def)
  qed
  from ok have "writer_ok (out_w c) (shared c) (written Out ws)"
    and "writer_ok (err_w c) (shared c) (written Err ws)"
    unfolding capture_ok_def by blast+
  from pre [OF this(1)] pre [OF this(2)] iff [OF this(1)] iff [OF this(2)] ok show ?thesis
    by (simp add: r_def execResult_def capture_ok_def writer_ok_def)
qed

theorem exec_capture_correct_witness:
  "(0::int) \<le> 5 \<and> (0::int) \<le> 3 \<and>
   (let c = capture_run 5 3 [(Out, ''abcd''), (Err, ''xyz''), (Out, ''e'')];
        r = execResult (out_w c) (err_w c) 0
    in Stdout r = ''abc'' \<and> Stderr r = ''xy'' \<and>
       int (length (Stdout r)) + int (length (Stderr r)) \<le> 5 \<and>
       (StdoutTruncated r \<longleftrightarrow> Stdout r \<noteq> ''abcde''))"
  using exec_capture_correct [of 5 3 "[(Out, ''abcd''), (Err, ''xyz''), (Out, ''e'')]" 0]
  by (simp add: capture_run_def capture0_def newCappedWriter_def Write_def Let_def
      execResult_def)

end
