(* ===== verification/Monitor_Schedule.thy ===== *)
theory Monitor_Schedule
  imports Talus_Prelude
begin

text \<open>
  The collection scheduler (\<^verbatim>\<open>service/monitor_schedule.go\<close>) and the loop that drives
  it (\<^verbatim>\<open>service/monitor.go\<close>, \<^verbatim>\<open>Start\<close>).

  \<^verbatim>\<open>monitorScheduler\<close> is a record; every method is one critical section under its
  mutex and therefore one function on it. \<open>fl\<close> and \<open>rnd\<close> stand for the value of
  \<^verbatim>\<open>rng.Float64()\<close> and for float64 rounding. \<open>sched_step\<close> interleaves the loop's
  \<^verbatim>\<open>sync\<close> and \<^verbatim>\<open>plan\<close> with the completion of the workers it started; \<open>workers\<close> is
  the list of workers that have not reported yet.
\<close>

section \<open>Data\<close>

definition monitorMaxInFlight :: int where "monitorMaxInFlight = 16"

definition monitorBackoffCap :: duration where "monitorBackoffCap = 300 * second"

definition monitorWarnAfter :: int where "monitorWarnAfter = 3"

datatype monitorOutcome = outcomeSuccess | outcomeFailure | outcomeSkipped | outcomeCancelled

record monitorNode =
  node_id :: uint
  failures :: int
  due :: time
  inFlight :: bool
  queued :: bool
  queuedAt :: time
  defers :: int
  failureWarned :: bool
  deferWarned :: bool

definition new_node :: "uint \<Rightarrow> time \<Rightarrow> monitorNode" where
  "new_node i now = \<lparr>node_id = i, failures = 0, due = now, inFlight = False, queued = False,
     queuedAt = 0, defers = 0, failureWarned = False, deferWarned = False\<rparr>"

record monitorCompletion =
  Failures :: int
  WarnDegraded :: bool
  Recovered :: bool

definition no_completion :: monitorCompletion where
  "no_completion = \<lparr>Failures = 0, WarnDegraded = False, Recovered = False\<rparr>"

record monitorTick =
  Admitted :: "uint list"
  Queued :: "uint list"
  Skipped :: "uint list"
  WarnDeferred :: "uint list"
  RecoveredDefer :: "uint list"
  Deferred :: int

definition no_tick :: monitorTick where
  "no_tick = \<lparr>Admitted = [], Queued = [], Skipped = [], WarnDeferred = [],
     RecoveredDefer = [], Deferred = 0\<rparr>"

record monitorScheduler =
  interval :: duration
  maxInFlight :: int
  nodes :: "(uint, monitorNode) gomap"
  order :: "uint list"
  cursor :: nat
  outstanding :: int

definition newMonitorScheduler :: "duration \<Rightarrow> monitorScheduler" where
  "newMonitorScheduler iv =
     \<lparr>interval = (if iv \<le> 0 then minute else iv), maxInFlight = monitorMaxInFlight,
      nodes = [], order = [], cursor = 0, outstanding = 0\<rparr>"

section \<open>Operations\<close>

definition capacityLocked :: "monitorScheduler \<Rightarrow> int" where
  "capacityLocked s =
     (let n = int (length (nodes s)) in if n > maxInFlight s then maxInFlight s else n)"

definition inFlightLocked :: "monitorScheduler \<Rightarrow> int" where
  "inFlightLocked s = outstanding s"

fun sync_add :: "time \<Rightarrow> uint list \<Rightarrow> monitorScheduler \<Rightarrow> monitorScheduler" where
  "sync_add now [] s = s"
| "sync_add now (i # live) s =
     (case mget (nodes s) i of
        Some _ \<Rightarrow> sync_add now live s
      | None \<Rightarrow> sync_add now live
                 (s\<lparr>nodes := mput i (new_node i now) (nodes s), order := order s @ [i]\<rparr>))"

definition sync :: "monitorScheduler \<Rightarrow> uint list \<Rightarrow> time \<Rightarrow> monitorScheduler \<times> uint list" where
  "sync s live now =
     (let s1 = sync_add now live s;
          s2 = s1\<lparr>order := sort (order s1)\<rparr>;
          kept = filter (\<lambda>i. i \<in> set live) (order s2);
          removed = filter (\<lambda>i. i \<notin> set live) (order s2);
          s3 = s2\<lparr>nodes := fold mdel removed (nodes s2), order := kept\<rparr>;
          s4 = (if cursor s3 \<ge> length (order s3) then s3\<lparr>cursor := 0\<rparr> else s3)
      in (s4, removed))"

definition noteDeferLocked ::
  "duration \<Rightarrow> monitorNode \<Rightarrow> monitorTick \<Rightarrow> time \<Rightarrow> monitorNode \<times> monitorTick" where
  "noteDeferLocked iv node tick now =
     (if After (due node) now then (node, tick)
      else
        let node1 = node\<lparr>defers := defers node + 1, due := Add (due node) iv\<rparr>;
            tick1 = tick\<lparr>Deferred := Deferred tick + 1\<rparr>
        in if defers node1 \<ge> monitorWarnAfter \<and> \<not> deferWarned node1
           then (node1\<lparr>deferWarned := True\<rparr>,
                 tick1\<lparr>WarnDeferred := WarnDeferred tick1 @ [node_id node1]\<rparr>)
           else (node1, tick1))"

definition dueLocked :: "monitorNode \<Rightarrow> time \<Rightarrow> bool" where
  "dueLocked node now \<longleftrightarrow> (if queued node then True else \<not> After (due node) now)"

text \<open>One iteration of the loop in \<^verbatim>\<open>plan\<close> for the node the cursor points at; the
  third component is the local \<^verbatim>\<open>inFlight\<close>.\<close>

definition plan_node ::
  "time \<Rightarrow> int \<Rightarrow> uint \<Rightarrow> monitorNode \<Rightarrow> monitorScheduler \<times> int \<times> monitorTick \<Rightarrow>
     monitorScheduler \<times> int \<times> monitorTick" where
  "plan_node now capacity i node = (\<lambda>(s, infl, tick).
     if inFlight node then
       (let tick1 = tick\<lparr>Skipped := Skipped tick @ [i]\<rparr>;
            r = noteDeferLocked (interval s) node tick1 now
        in (s\<lparr>nodes := mput i (fst r) (nodes s)\<rparr>, infl, snd r))
     else if \<not> dueLocked node now then (s, infl, tick)
     else if infl \<ge> capacity then
       (let node1 = (if \<not> queued node then node\<lparr>queued := True, queuedAt := now\<rparr> else node);
            tick1 = tick\<lparr>Queued := Queued tick @ [i]\<rparr>;
            r = noteDeferLocked (interval s) node1 tick1 now
        in (s\<lparr>nodes := mput i (fst r) (nodes s)\<rparr>, infl, snd r))
     else
       (let node1 = node\<lparr>inFlight := True, queued := False, defers := 0, deferWarned := False\<rparr>;
            tick1 = (if deferWarned node
                     then tick\<lparr>RecoveredDefer := RecoveredDefer tick @ [i]\<rparr> else tick)
        in (s\<lparr>nodes := mput i node1 (nodes s), outstanding := outstanding s + 1\<rparr>, infl + 1,
            tick1\<lparr>Admitted := Admitted tick1 @ [i]\<rparr>)))"

fun plan_loop ::
  "nat \<Rightarrow> time \<Rightarrow> int \<Rightarrow> monitorScheduler \<times> int \<times> monitorTick \<Rightarrow>
     monitorScheduler \<times> int \<times> monitorTick" where
  "plan_loop 0 now capacity st = st"
| "plan_loop (Suc k) now capacity (s, infl, tick) =
     (let i = order s ! (cursor s mod length (order s));
          s1 = s\<lparr>cursor := (cursor s + 1) mod length (order s)\<rparr>
      in case mget (nodes s1) i of
           None \<Rightarrow> plan_loop k now capacity (s1, infl, tick)
         | Some node \<Rightarrow> plan_loop k now capacity (plan_node now capacity i node (s1, infl, tick)))"

definition plan :: "monitorScheduler \<Rightarrow> time \<Rightarrow> monitorScheduler \<times> monitorTick" where
  "plan s now =
     (if order s = [] then (s, no_tick)
      else
        let r = plan_loop (length (order s)) now (capacityLocked s) (s, inFlightLocked s, no_tick)
        in (fst r, snd (snd r)))"

text \<open>The slot loop of \<^verbatim>\<open>nextAlignedLocked\<close>; the constructor keeps the interval
  positive, which is what makes the loop end.\<close>

function advance_past :: "duration \<Rightarrow> time \<Rightarrow> time \<Rightarrow> time" where
  "advance_past iv now nxt =
     (if After nxt now \<or> iv \<le> 0 then nxt else advance_past iv now (Add nxt iv))"
  by pat_completeness auto
termination
  by (relation "measure (\<lambda>(iv, now, nxt). nat (now - nxt + 1))") auto

declare advance_past.simps [simp del]

definition nextAlignedLocked :: "monitorScheduler \<Rightarrow> time \<Rightarrow> time \<Rightarrow> time" where
  "nextAlignedLocked s previous now =
     (if IsZero previous \<or> \<not> After previous now then
        let steps0 = wrap64 (go_div (Sub now previous) (interval s) + 1);
            steps = (if IsZero previous then 1 else steps0);
            nxt = Add previous (wrap64 (steps * interval s))
        in advance_past (interval s) now nxt
      else previous)"

fun backoff_base :: "nat \<Rightarrow> duration \<Rightarrow> duration \<Rightarrow> duration" where
  "backoff_base 0 cp base = base"
| "backoff_base (Suc k) cp base =
     (if base \<ge> go_div cp 2 then cp else backoff_base k cp (wrap64 (base * 2)))"

definition backoffDelayLocked :: "monitorScheduler \<Rightarrow> rounding \<Rightarrow> rat \<Rightarrow> int \<Rightarrow> duration" where
  "backoffDelayLocked s rnd fl fs =
     (let cp = (if interval s < monitorBackoffCap then monitorBackoffCap else interval s);
          base0 = backoff_base (nat (fs - 1)) cp (interval s);
          base = (if base0 > cp then cp else base0);
          jitter = rnd (rnd (rnd (fl * 2) - 1) * rnd (1 / 10));
          delay0 = trunc_rat (rnd (rnd (of_int base) * rnd (1 + jitter)));
          delay1 = (if delay0 < interval s then interval s else delay0)
      in (if delay1 > cp then cp else delay1))"

definition complete ::
  "monitorScheduler \<Rightarrow> rounding \<Rightarrow> rat \<Rightarrow> uint \<Rightarrow> monitorOutcome \<Rightarrow> time \<Rightarrow>
     monitorScheduler \<times> monitorCompletion" where
  "complete s rnd fl i outcome now =
     (let s1 = (if outstanding s > 0 then s\<lparr>outstanding := outstanding s - 1\<rparr> else s)
      in case mget (nodes s) i of
           None \<Rightarrow> (s1, no_completion)
         | Some node \<Rightarrow>
             if \<not> inFlight node then (s1, no_completion)
             else
               let node0 = node\<lparr>inFlight := False\<rparr>;
                   r = (case outcome of
                          outcomeSuccess \<Rightarrow>
                            (node0\<lparr>failureWarned := False, failures := 0,
                               due := nextAlignedLocked s (due node0) now, queued := False\<rparr>,
                             no_completion\<lparr>Recovered := failureWarned node0\<rparr>)
                        | outcomeFailure \<Rightarrow>
                            (let node1 = node0\<lparr>failures := failures node0 + 1\<rparr>;
                                 warn = (failures node1 \<ge> monitorWarnAfter \<and> \<not> failureWarned node1);
                                 node2 = (if warn then node1\<lparr>failureWarned := True\<rparr> else node1)
                             in (node2\<lparr>due := Add now (backoffDelayLocked s rnd fl (failures node2)),
                                   queued := False\<rparr>,
                                 no_completion\<lparr>WarnDegraded := warn\<rparr>))
                        | _ \<Rightarrow>
                            ((if \<not> queued node0
                              then node0\<lparr>due := nextAlignedLocked s (due node0) now\<rparr> else node0),
                             no_completion))
               in (s1\<lparr>nodes := mput i (fst r) (nodes s1)\<rparr>,
                   (snd r)\<lparr>Failures := failures (fst r)\<rparr>))"

definition admissionTiming :: "monitorScheduler \<Rightarrow> uint \<Rightarrow> time \<times> time" where
  "admissionTiming s i =
     (case mget (nodes s) i of None \<Rightarrow> (0, 0) | Some node \<Rightarrow> (due node, queuedAt node))"

definition hasAdmissible :: "monitorScheduler \<Rightarrow> time \<Rightarrow> bool" where
  "hasAdmissible s now \<longleftrightarrow>
     (if inFlightLocked s \<ge> capacityLocked s then False
      else list_ex (\<lambda>i. case mget (nodes s) i of None \<Rightarrow> False
             | Some node \<Rightarrow> \<not> inFlight node \<and> (queued node \<or> \<not> After (due node) now)) (order s))"

text \<open>The nodes \<^verbatim>\<open>earliestDue\<close> looks at: present, not running and not queued.\<close>

definition waiting :: "monitorScheduler \<Rightarrow> uint \<Rightarrow> monitorNode option" where
  "waiting s i =
     (case mget (nodes s) i of None \<Rightarrow> None
      | Some node \<Rightarrow> if inFlight node \<or> queued node then None else Some node)"

fun earliest_loop :: "monitorScheduler \<Rightarrow> time \<Rightarrow> uint list \<Rightarrow> time \<Rightarrow> time" where
  "earliest_loop s now [] earliest = earliest"
| "earliest_loop s now (i # is) earliest =
     (case waiting s i of
        None \<Rightarrow> earliest_loop s now is earliest
      | Some node \<Rightarrow>
          if \<not> After (due node) now then earliest_loop s now is earliest
          else if IsZero earliest \<or> Before (due node) earliest
          then earliest_loop s now is (due node)
          else earliest_loop s now is earliest)"

definition earliestDue :: "monitorScheduler \<Rightarrow> time \<Rightarrow> time" where
  "earliestDue s now =
     (if inFlightLocked s < capacityLocked s \<and>
         list_ex (\<lambda>i. case waiting s i of None \<Rightarrow> False
                      | Some node \<Rightarrow> \<not> After (due node) now) (order s)
      then 0
      else earliest_loop s now (order s) 0)"

text \<open>How long the monitor loop sleeps after a pass (\<^verbatim>\<open>service/monitor.go\<close>, \<^verbatim>\<open>Start\<close>), unless a
  completion or a topology change wakes it; the two questions are separate lock sections, so a completion may
  change the scheduler between them.\<close>

definition next_delay :: "duration \<Rightarrow> monitorScheduler \<Rightarrow> monitorScheduler \<Rightarrow> time \<Rightarrow> duration" where
  "next_delay iv s1 s2 scheduled =
     (if hasAdmissible s1 scheduled then 0
      else
        let wait = earliestDue s2 scheduled; until = Sub wait scheduled
        in if \<not> IsZero wait \<and> until > 0 \<and> until < iv then until else iv)"

definition queuedCount :: "monitorScheduler \<Rightarrow> nat" where
  "queuedCount s = count_if (\<lambda>p. queued (snd p)) (nodes s)"

definition failures_of :: "monitorScheduler \<Rightarrow> uint \<Rightarrow> int" where
  "failures_of s i = (case mget (nodes s) i of None \<Rightarrow> 0 | Some node \<Rightarrow> failures node)"

section \<open>One planning pass\<close>

text \<open>\<open>plan_one\<close> is one loop iteration for a given node id and \<open>plan_ids\<close> a whole pass
  over a list of ids; the cursor arithmetic of \<open>plan_loop\<close> is separated from them by
  \<open>plan_loop_ids\<close>.\<close>

definition plan_one ::
  "time \<Rightarrow> int \<Rightarrow> uint \<Rightarrow> monitorScheduler \<times> int \<times> monitorTick \<Rightarrow>
     monitorScheduler \<times> int \<times> monitorTick" where
  "plan_one now capacity i st =
     (case mget (nodes (fst st)) i of None \<Rightarrow> st | Some node \<Rightarrow> plan_node now capacity i node st)"

definition set_cur :: "nat \<Rightarrow> monitorScheduler \<times> 'a \<Rightarrow> monitorScheduler \<times> 'a" where
  "set_cur c st = ((fst st)\<lparr>cursor := c\<rparr>, snd st)"

definition admissible :: "monitorScheduler \<Rightarrow> time \<Rightarrow> uint \<Rightarrow> bool" where
  "admissible s now i \<longleftrightarrow>
     (case mget (nodes s) i of None \<Rightarrow> False
      | Some node \<Rightarrow> \<not> inFlight node \<and> dueLocked node now)"

definition running :: "monitorScheduler \<Rightarrow> uint \<Rightarrow> bool" where
  "running s i \<longleftrightarrow> (case mget (nodes s) i of None \<Rightarrow> False | Some node \<Rightarrow> inFlight node)"

lemma mkeys_put_old: "mget m k = Some w \<Longrightarrow> mkeys (mput k v m) = mkeys m"
  by (induction m) (auto split: if_splits)

lemma noteDefer_frame [simp]:
  "inFlight (fst (noteDeferLocked iv node tick now)) = inFlight node"
  "failures (fst (noteDeferLocked iv node tick now)) = failures node"
  "failureWarned (fst (noteDeferLocked iv node tick now)) = failureWarned node"
  "queued (fst (noteDeferLocked iv node tick now)) = queued node"
  "Admitted (snd (noteDeferLocked iv node tick now)) = Admitted tick"
  by (simp_all add: noteDeferLocked_def Let_def)

lemma plan_one_set_cur: "plan_one now cp i (set_cur c st) = set_cur c (plan_one now cp i st)"
  by (cases st)
    (simp add: plan_one_def set_cur_def plan_node_def Let_def split: option.split)

lemma fold_plan_one_set_cur:
  "fold (plan_one now cp) is (set_cur c st) = set_cur c (fold (plan_one now cp) is st)"
  by (induction "is" arbitrary: st) (simp_all add: plan_one_set_cur)

lemma plan_one_frame [simp]:
  "order (fst (plan_one now cp i st)) = order (fst st)"
  "cursor (fst (plan_one now cp i st)) = cursor (fst st)"
  "interval (fst (plan_one now cp i st)) = interval (fst st)"
  "maxInFlight (fst (plan_one now cp i st)) = maxInFlight (fst st)"
  "mkeys (nodes (fst (plan_one now cp i st))) = mkeys (nodes (fst st))"
  by (cases st; simp add: plan_one_def plan_node_def Let_def mkeys_put_old split: option.split)+

lemma fold_plan_one_frame [simp]:
  "order (fst (fold (plan_one now cp) is st)) = order (fst st)"
  "cursor (fst (fold (plan_one now cp) is st)) = cursor (fst st)"
  "interval (fst (fold (plan_one now cp) is st)) = interval (fst st)"
  "maxInFlight (fst (fold (plan_one now cp) is st)) = maxInFlight (fst st)"
  "mkeys (nodes (fst (fold (plan_one now cp) is st))) = mkeys (nodes (fst st))"
  by (induction "is" arbitrary: st) simp_all

lemma plan_loop_ids:
  "order (fst st) \<noteq> [] \<Longrightarrow> cursor (fst st) < length (order (fst st)) \<Longrightarrow>
   plan_loop k now cp st =
     set_cur ((cursor (fst st) + k) mod length (order (fst st)))
       (fold (plan_one now cp)
          (map (\<lambda>j. order (fst st) ! ((cursor (fst st) + j) mod length (order (fst st)))) [0..<k]) st)"
proof (induction k arbitrary: st)
  case 0
  then show ?case by (cases st) (simp add: set_cur_def)
next
  case (Suc k)
  let ?n = "length (order (fst st))" and ?c = "cursor (fst st)"
  let ?i = "order (fst st) ! (?c mod ?n)"
  let ?st = "set_cur ((?c + 1) mod ?n) (plan_one now cp ?i st)"
  have n: "0 < ?n" using Suc.prems by simp
  have step: "plan_loop (Suc k) now cp st = plan_loop k now cp ?st"
    unfolding plan_one_set_cur [symmetric]
    by (cases st) (simp add: set_cur_def plan_one_def Let_def split: option.split)
  have idx: "(Suc ?c mod ?n + j) mod ?n = Suc (?c + j) mod ?n" for j
    by (metis add_Suc mod_add_left_eq)
  have "plan_loop k now cp ?st =
     set_cur (((?c + 1) mod ?n + k) mod ?n) (fold (plan_one now cp)
       (map (\<lambda>j. order (fst st) ! ((?c + Suc j) mod ?n)) [0..<k]) (plan_one now cp ?i st))"
    using Suc.IH [of ?st] Suc.prems n
    by (simp add: set_cur_def fold_plan_one_set_cur [unfolded set_cur_def] idx)
  also have "((?c + 1) mod ?n + k) mod ?n = (?c + Suc k) mod ?n"
    by (simp add: mod_add_left_eq)
  also have "map (\<lambda>j. order (fst st) ! ((?c + Suc j) mod ?n)) [0..<k] =
    tl (map (\<lambda>j. order (fst st) ! ((?c + j) mod ?n)) [0..<Suc k])"
    by (simp add: upt_conv_Cons map_Suc_upt [symmetric] del: upt_Suc)
  finally show ?case
    using step by (simp add: upt_conv_Cons del: upt_Suc)
qed

text \<open>The pass visits the whole rotation, so it ends with the cursor where it began.\<close>

lemma plan_ids:
  assumes "cursor s < length (order s)"
  shows "plan s now =
    (let r = fold (plan_one now (capacityLocked s)) (rotate (cursor s) (order s))
               (s, inFlightLocked s, no_tick) in (fst r, snd (snd r)))"
proof -
  let ?n = "length (order s)"
  have "map (\<lambda>j. order s ! ((cursor s + j) mod ?n)) [0..<?n] = rotate (cursor s) (order s)"
    by (rule nth_equalityI) (simp_all add: nth_rotate)
  moreover have "set_cur (cursor s) (fold (plan_one now (capacityLocked s)) is
      (s, inFlightLocked s, no_tick)) =
    fold (plan_one now (capacityLocked s)) is (s, inFlightLocked s, no_tick)" for "is"
    using fold_plan_one_set_cur [of now _ "is" "cursor s" "(s, inFlightLocked s, no_tick)"]
    by (simp add: set_cur_def)
  ultimately show ?thesis
    using assms plan_loop_ids [of "(s, inFlightLocked s, no_tick)" ?n now "capacityLocked s"]
    by (auto simp: plan_def Let_def)
qed

lemma plan_one_other:
  "j \<noteq> i \<Longrightarrow> mget (nodes (fst (plan_one now cp i st))) j = mget (nodes (fst st)) j"
  by (cases st) (simp add: plan_one_def plan_node_def Let_def split: option.split)

lemma plan_one_effect:
  "plan_one now cp i (s, infl, tick) = (s', infl', tick') \<Longrightarrow>
   Admitted tick' = Admitted tick @ (if admissible s now i \<and> infl < cp then [i] else []) \<and>
   infl' = infl + (if admissible s now i \<and> infl < cp then 1 else 0) \<and>
   outstanding s' = outstanding s + (if admissible s now i \<and> infl < cp then 1 else 0) \<and>
   (running s' i \<longleftrightarrow> running s i \<or> admissible s now i \<and> infl < cp)"
  by (auto simp: plan_one_def plan_node_def admissible_def running_def Let_def
      split: option.splits if_splits)

lemma fold_plan_one_effect:
  "distinct is \<Longrightarrow>
   fold (plan_one now cp) is (s, infl, tick) = (s', infl', tick') \<Longrightarrow>
   A = take (nat (cp - infl)) (filter (admissible s now) is) \<Longrightarrow>
   Admitted tick' = Admitted tick @ A \<and> infl' = infl + int (length A) \<and>
   outstanding s' = outstanding s + int (length A) \<and>
   (\<forall>j. running s' j \<longleftrightarrow> running s j \<or> j \<in> set A)"
proof (induction "is" arbitrary: s infl tick A)
  case Nil
  then show ?case by simp
next
  case (Cons i "is")
  obtain s1 infl1 tick1 where one: "plan_one now cp i (s, infl, tick) = (s1, infl1, tick1)"
    by (cases "plan_one now cp i (s, infl, tick)") auto
  let ?go = "admissible s now i \<and> infl < cp"
  have adm: "admissible s1 now j \<longleftrightarrow> admissible s now j"
    and run: "running s1 j \<longleftrightarrow> running s j" if "j \<noteq> i" for j
    using plan_one_other [OF that, of now cp "(s, infl, tick)"] one
    by (simp_all add: admissible_def running_def)
  have run_all: "running s1 j \<longleftrightarrow> running s j \<or> j = i \<and> ?go" for j
    using plan_one_effect [OF one] run [of j] by (cases "j = i") auto
  have flt: "filter (admissible s1 now) is = filter (admissible s now) is"
    using Cons.prems(1) by (intro filter_cong refl adm) auto
  let ?A1 = "take (nat (cp - infl1)) (filter (admissible s now) is)"
  have A: "A = (if ?go then i # ?A1 else ?A1)"
  proof (cases "infl < cp")
    case True
    then have "nat (cp - infl) = Suc (nat (cp - (infl + 1)))" by simp
    with True Cons.prems(3) plan_one_effect [OF one] show ?thesis by auto
  qed (use Cons.prems(3) plan_one_effect [OF one] in auto)
  show ?case
    using Cons.IH [OF _ _ refl, of s1 infl1 tick1] Cons.prems(1,2) one flt A
      plan_one_effect [OF one] run_all
    by (cases ?go) auto
qed

lemma admissible_iff:
  "admissible s now i \<longleftrightarrow>
     (case mget (nodes s) i of None \<Rightarrow> False
      | Some node \<Rightarrow> \<not> inFlight node \<and> (queued node \<or> \<not> After (due node) now))"
  by (simp add: admissible_def dueLocked_def split: option.split)

section \<open>Invariant\<close>

definition node_ok :: "monitorNode \<Rightarrow> bool" where
  "node_ok n \<longleftrightarrow> 0 \<le> failures n \<and> 0 \<le> defers n \<and>
     (failureWarned n \<longleftrightarrow> monitorWarnAfter \<le> failures n) \<and>
     (deferWarned n \<longleftrightarrow> monitorWarnAfter \<le> defers n)"

definition sched_ok :: "monitorScheduler \<Rightarrow> bool" where
  "sched_ok s \<longleftrightarrow> 0 < interval s \<and> maxInFlight s = monitorMaxInFlight \<and> mok (nodes s) \<and>
     sorted (order s) \<and> distinct (order s) \<and> set (order s) = set (mkeys (nodes s)) \<and>
     cursor s = 0 \<and> 0 \<le> outstanding s \<and> outstanding s \<le> maxInFlight s \<and>
     (\<forall>i n. mget (nodes s) i = Some n \<longrightarrow> node_ok n)"

lemmas node_simps = node_ok_def monitorWarnAfter_def

lemma newMonitorScheduler_ok: "sched_ok (newMonitorScheduler iv)"
  by (simp add: sched_ok_def newMonitorScheduler_def monitorMaxInFlight_def duration_units)

lemma mget_fold_mdel: "mget (fold mdel ks m) j = (if j \<in> set ks then None else mget m j)"
  by (induction ks arbitrary: m) auto

lemma mok_fold_mdel: "mok m \<Longrightarrow> mok (fold mdel ks m)"
  by (induction ks arbitrary: m) auto

lemma keys_fold_mdel: "fst ` set (fold mdel ks m) = fst ` set m - set ks"
  by (induction ks arbitrary: m) auto

lemma sync_add_frame [simp]:
  "interval (sync_add now live s) = interval s" "maxInFlight (sync_add now live s) = maxInFlight s"
  "cursor (sync_add now live s) = cursor s" "outstanding (sync_add now live s) = outstanding s"
  by (induction now live s rule: sync_add.induct) (simp_all split: option.split)

lemma sync_add_nodes:
  assumes "mok (nodes s)" and "distinct (order s)" and "set (order s) = set (mkeys (nodes s))"
  shows "mok (nodes (sync_add now live s)) \<and> distinct (order (sync_add now live s)) \<and>
    set (order (sync_add now live s)) = set (mkeys (nodes (sync_add now live s))) \<and>
    (\<forall>j. mget (nodes (sync_add now live s)) j =
       (case mget (nodes s) j of Some n \<Rightarrow> Some n
        | None \<Rightarrow> if j \<in> set live then Some (new_node j now) else None))"
  using assms
proof (induction now live s rule: sync_add.induct)
  case (1 now s)
  then show ?case by (simp split: option.split)
next
  case (2 now i live s)
  show ?case
  proof (cases "mget (nodes s) i")
    case None
    then have "i \<notin> set (order s)" using "2.prems"(3) mget_keys [of "nodes s" i] by simp
    with None "2.prems" "2.IH"(1) [OF None] show ?thesis
      by (auto split: option.split)
  next
    case (Some n)
    with "2.prems" "2.IH"(2) [OF Some] show ?thesis by (auto split: option.split)
  qed
qed

lemma new_node_ok: "node_ok (new_node i now)"
  by (simp add: node_simps new_node_def)

lemma sync_nodes:
  assumes "sched_ok s" and "sync s live now = (s', removed)"
  shows "sched_ok s'" and "outstanding s' = outstanding s"
    and "set (order s') = set live"
    and "set removed = set (order s) - set live"
    and "mget (nodes s') j =
      (if j \<notin> set live then None else
         case mget (nodes s) j of Some n \<Rightarrow> Some n | None \<Rightarrow> Some (new_node j now))"
proof -
  let ?a = "sync_add now live s"
  have a: "mok (nodes ?a)" "distinct (order ?a)" "set (order ?a) = set (mkeys (nodes ?a))"
    and g: "\<And>j. mget (nodes ?a) j = (case mget (nodes s) j of Some n \<Rightarrow> Some n
        | None \<Rightarrow> if j \<in> set live then Some (new_node j now) else None)"
    using sync_add_nodes [of s now live] assms(1) unfolding sched_ok_def by blast+
  have keys: "set (order ?a) = set (order s) \<union> set live"
  proof -
    have "j \<in> set (order ?a) \<longleftrightarrow> j \<in> set (order s) \<union> set live" for j
      using a(3) g [of j] assms(1) mget_keys [of "nodes ?a" j] mget_keys [of "nodes s" j]
      by (auto simp: sched_ok_def split: option.splits if_splits)
    then show ?thesis by blast
  qed
  let ?rm = "filter (\<lambda>i. i \<notin> set live) (sort (order ?a))"
  have s': "s' = ?a\<lparr>order := filter (\<lambda>i. i \<in> set live) (sort (order ?a)),
      nodes := fold mdel ?rm (nodes ?a), cursor := 0\<rparr>"
    and rm: "removed = ?rm"
    using assms by (auto simp: sync_def Let_def sched_ok_def)
  show "outstanding s' = outstanding s" and "set (order s') = set live"
    and "set removed = set (order s) - set live"
    using keys by (auto simp: s' rm)
  show get: "mget (nodes s') j = (if j \<notin> set live then None else
      case mget (nodes s) j of Some n \<Rightarrow> Some n | None \<Rightarrow> Some (new_node j now))" for j
    using g [of j] keys assms(1) mget_keys [of "nodes s" j]
    by (auto simp: s' mget_fold_mdel sched_ok_def split: option.splits)
  have "node_ok n" if "mget (nodes s') i = Some n" for i n
    using that assms(1) get [of i]
    by (auto simp: sched_ok_def new_node_ok split: if_splits option.splits)
  with a keys assms(1) show "sched_ok s'"
    by (auto simp: sched_ok_def s' mok_fold_mdel keys_fold_mdel sorted_wrt_filter)
qed

lemma plan_one_node_ok:
  assumes "\<And>j n. mget (nodes (fst st)) j = Some n \<Longrightarrow> node_ok n"
    and "mget (nodes (fst (plan_one now cp i st))) j = Some n"
  shows "node_ok n"
proof (cases "j = i")
  case False
  with assms plan_one_other [of j i now cp st] show ?thesis by auto
next
  case True
  have dfr: "node_ok (fst (noteDeferLocked iv m tick now))" if "node_ok m" for iv m tick
    using that by (auto simp: noteDeferLocked_def node_simps Let_def)
  obtain s infl tick where st: "st = (s, infl, tick)" by (cases st)
  obtain m where m: "mget (nodes s) i = Some m"
    using assms(2) True st by (auto simp: plan_one_def split: option.splits)
  have "node_ok m" using assms(1) m st by auto
  moreover from this have "node_ok (m\<lparr>queued := b, queuedAt := t\<rparr>)" for b t
    by (simp add: node_simps)
  ultimately show ?thesis
    using assms(2) True st m dfr
    by (auto simp: plan_one_def plan_node_def Let_def node_simps split: if_splits)
qed

lemma fold_plan_one_node_ok:
  "(\<And>j n. mget (nodes (fst st)) j = Some n \<Longrightarrow> node_ok n) \<Longrightarrow>
   mget (nodes (fst (fold (plan_one now cp) is st))) j = Some n \<Longrightarrow> node_ok n"
proof (induction "is" arbitrary: st)
  case Nil
  then show ?case by simp
next
  case (Cons i "is")
  have "node_ok n'" if "mget (nodes (fst (plan_one now cp i st))) j' = Some n'" for j' n'
    using Cons.prems(1) that by (rule plan_one_node_ok)
  then show ?case
    using Cons.IH [of "plan_one now cp i st"] Cons.prems(2) by simp
qed

text \<open>The whole effect of a pass on a well-formed scheduler.\<close>

lemma plan_effect:
  assumes ok: "sched_ok s" and pl: "plan s now = (s', tick)"
  defines "A \<equiv> take (nat (capacityLocked s - outstanding s)) (filter (admissible s now) (order s))"
  shows "Admitted tick = A" and "outstanding s' = outstanding s + int (length A)"
    and "running s' j \<longleftrightarrow> running s j \<or> j \<in> set A" and "sched_ok s'"
    and "order s' = order s" and "cursor s' = cursor s"
proof -
  have "Admitted tick = A \<and> outstanding s' = outstanding s + int (length A) \<and>
    (\<forall>j. running s' j \<longleftrightarrow> running s j \<or> j \<in> set A) \<and> sched_ok s' \<and>
    order s' = order s \<and> cursor s' = cursor s"
  proof (cases "order s = []")
    case True
    with pl ok show ?thesis by (auto simp: plan_def no_tick_def A_def)
  next
    case False
    define r where "r = fold (plan_one now (capacityLocked s)) (order s) (s, outstanding s, no_tick)"
    have pl': "s' = fst r" "tick = snd (snd r)"
      using False pl ok plan_ids [of s now]
      by (auto simp: sched_ok_def inFlightLocked_def r_def Let_def)
    have eff: "Admitted tick = A \<and> outstanding s' = outstanding s + int (length A) \<and>
      (\<forall>j. running s' j \<longleftrightarrow> running s j \<or> j \<in> set A)"
      using fold_plan_one_effect [of "order s" now "capacityLocked s" s "outstanding s" no_tick
          "fst r" "fst (snd r)" "snd (snd r)" A] ok pl'
      by (simp add: sched_ok_def r_def A_def no_tick_def)
    have "int (length A) \<le> max 0 (capacityLocked s - outstanding s)"
      by (simp add: A_def)
    moreover have "capacityLocked s \<le> maxInFlight s"
      by (simp add: capacityLocked_def Let_def)
    ultimately have "outstanding s + int (length A) \<le> maxInFlight s"
      using ok by (simp add: sched_ok_def max_def split: if_splits)
    moreover have "node_ok n" if "mget (nodes s') i = Some n" for i n
      using that fold_plan_one_node_ok [of "(s, outstanding s, no_tick)" now "capacityLocked s"
          "order s" i n] ok pl' by (auto simp: sched_ok_def r_def)
    moreover have "mkeys (nodes s') = mkeys (nodes s)" by (simp add: pl' r_def)
    ultimately show ?thesis
      using eff ok pl' by (auto simp: sched_ok_def mok_def r_def)
  qed
  then show "Admitted tick = A" and "outstanding s' = outstanding s + int (length A)"
    and "running s' j \<longleftrightarrow> running s j \<or> j \<in> set A" and "sched_ok s'"
    and "order s' = order s" and "cursor s' = cursor s" by blast+
qed

section \<open>Backoff and alignment\<close>

lemma backoff_base_closed:
  assumes "0 < b" and "b \<le> cp" and "cp \<le> max_int64" and "even cp \<or> b = cp"
  shows "backoff_base k cp b = min (b * 2 ^ k) cp"
  using assms
proof (induction k arbitrary: b)
  case 0
  then show ?case by simp
next
  case (Suc k)
  have half: "go_div cp 2 = cp div 2" using Suc.prems by (simp add: go_div_nonneg)
  show ?case
  proof (cases "cp div 2 \<le> b")
    case True
    have "cp \<le> b * 2" using True Suc.prems(1,4) by auto
    also have "b * 2 \<le> b * 2 ^ Suc k" using Suc.prems(1) by simp
    finally show ?thesis using True half by simp
  next
    case False
    with Suc.prems have "even cp" "b * 2 \<le> cp" by auto
    moreover from this Suc.prems have "wrap64 (b * 2) = b * 2"
      by (intro wrap64_id) (auto simp: min_int64_def)
    ultimately show ?thesis
      using False half Suc.prems Suc.IH [of "b * 2"] by (simp add: mult.assoc)
  qed
qed

lemma advance_past_spec:
  assumes "0 < iv"
  shows "now < advance_past iv now nxt \<and> nxt \<le> advance_past iv now nxt \<and>
    (nxt \<le> now + iv \<longrightarrow> advance_past iv now nxt \<le> now + iv) \<and>
    (advance_past iv now nxt - nxt) mod iv = 0"
  using assms
proof (induction iv now nxt rule: advance_past.induct)
  case (1 iv now nxt)
  show ?case
  proof (cases "now < nxt")
    case True
    then show ?thesis by (subst (1 2 3 4) advance_past.simps) simp
  next
    case False
    let ?r = "advance_past iv now (nxt + iv)"
    have eq: "advance_past iv now nxt = ?r"
      using False "1.prems" by (subst advance_past.simps) simp
    have ih: "now < ?r" "nxt + iv \<le> ?r" "?r \<le> now + iv" "(?r - (nxt + iv)) mod iv = 0"
      using "1.IH" "1.prems" False by auto
    have "(?r - nxt) mod iv = ((?r - (nxt + iv)) + iv) mod iv" by simp
    also have "\<dots> = 0" by (simp only: mod_add_self2 ih(4))
    finally show ?thesis using ih "1.prems" by (simp add: eq)
  qed
qed

section \<open>Completion\<close>

lemma complete_effect:
  assumes ok: "sched_ok s" and c: "complete s rnd fl i outcome now = (s', r)"
  shows "sched_ok s'"
    and "outstanding s' = (if outstanding s > 0 then outstanding s - 1 else outstanding s)"
    and "running s' j \<longleftrightarrow> running s j \<and> j \<noteq> i"
proof -
  have "sched_ok s' \<and>
    outstanding s' = (if outstanding s > 0 then outstanding s - 1 else outstanding s) \<and>
    (\<forall>j. running s' j \<longleftrightarrow> running s j \<and> j \<noteq> i)"
  proof (cases "running s i")
    case False
    then have s': "s' = (if outstanding s > 0 then s\<lparr>outstanding := outstanding s - 1\<rparr> else s)"
      using c by (auto simp: complete_def running_def Let_def split: option.splits if_splits)
    have "sched_ok s'" using ok by (simp add: s' sched_ok_def)
    moreover have "running s' j = running s j" for j by (simp add: s' running_def)
    ultimately show ?thesis using False s' by auto
  next
    case True
    then obtain n where n: "mget (nodes s) i = Some n" "inFlight n"
      by (auto simp: running_def split: option.splits)
    from n c obtain n' where s': "nodes s' = mput i n' (nodes s)"
      "interval s' = interval s" "maxInFlight s' = maxInFlight s" "order s' = order s"
      "cursor s' = cursor s"
      "outstanding s' = (if outstanding s > 0 then outstanding s - 1 else outstanding s)"
      and n': "\<not> inFlight n'" "node_ok n \<longrightarrow> node_ok n'"
      by (cases outcome)
        (auto simp: complete_def Let_def node_simps no_completion_def split: if_splits)
    have key: "i \<in> fst ` set (nodes s)" using n mget_keys [of "nodes s" i] by auto
    from s' n n' ok key show ?thesis
      by (auto simp: sched_ok_def running_def insert_absorb split: option.splits if_splits)
  qed
  then show "sched_ok s'"
    and "outstanding s' = (if outstanding s > 0 then outstanding s - 1 else outstanding s)"
    and "running s' j \<longleftrightarrow> running s j \<and> j \<noteq> i" by blast+
qed

section \<open>The scheduler with its workers\<close>

record sched_sys =
  sch :: monitorScheduler
  workers :: "uint list"

definition sched_init :: "sched_sys \<Rightarrow> bool" where
  "sched_init Y \<longleftrightarrow> (\<exists>iv. sch Y = newMonitorScheduler iv) \<and> workers Y = []"

inductive sched_step :: "sched_sys \<Rightarrow> sched_sys \<Rightarrow> bool" where
  do_sync: "sync (sch Y) live now = (s', removed) \<Longrightarrow> sched_step Y (Y\<lparr>sch := s'\<rparr>)"
| do_plan: "plan (sch Y) now = (s', tick) \<Longrightarrow>
    sched_step Y (Y\<lparr>sch := s', workers := workers Y @ Admitted tick\<rparr>)"
| do_complete: "i \<in> set (workers Y) \<Longrightarrow> complete (sch Y) rnd fl i outcome now = (s', r) \<Longrightarrow>
    sched_step Y (Y\<lparr>sch := s', workers := remove1 i (workers Y)\<rparr>)"

definition sched_inv :: "sched_sys \<Rightarrow> bool" where
  "sched_inv Y \<longleftrightarrow> sched_ok (sch Y) \<and> outstanding (sch Y) = int (length (workers Y)) \<and>
     (\<forall>i. running (sch Y) i \<longrightarrow> i \<in> set (workers Y))"

lemma sched_step_inv:
  assumes "sched_inv Y" and "sched_step Y Z"
  shows "sched_inv Z"
  using assms(2,1)
proof cases
  case (do_sync live now s' removed)
  have ok: "sched_ok (sch Y)" using assms(1) by (simp add: sched_inv_def)
  have "running s' j \<Longrightarrow> running (sch Y) j" for j
    using sync_nodes(5) [OF ok do_sync(2), of j]
    by (auto simp: running_def new_node_def split: option.splits if_splits)
  then show ?thesis
    using assms(1) do_sync sync_nodes(1,2) [OF ok do_sync(2)] by (auto simp: sched_inv_def)
next
  case (do_plan now s' tick)
  have ok: "sched_ok (sch Y)" using assms(1) by (simp add: sched_inv_def)
  show ?thesis
    using assms(1) do_plan plan_effect [OF ok do_plan(2)] by (auto simp: sched_inv_def)
next
  case (do_complete i rnd fl outcome now s' r)
  have ok: "sched_ok (sch Y)" using assms(1) by (simp add: sched_inv_def)
  have "int (length (workers Y) - 1) = int (length (workers Y)) - 1"
    using do_complete by (cases "workers Y") auto
  then show ?thesis
    using assms(1) do_complete complete_effect [OF ok do_complete(3)]
    by (auto simp: sched_inv_def length_remove1 in_set_remove1)
qed

interpretation sched: transition_system sched_init sched_step sched_inv
proof
  fix Y assume "sched_init Y"
  then show "sched_inv Y"
    by (auto simp: sched_init_def sched_inv_def newMonitorScheduler_ok)
      (simp_all add: newMonitorScheduler_def running_def)
qed (rule sched_step_inv)

lemma earliest_loop_spec:
  fixes s :: monitorScheduler
  assumes "0 \<le> now" and "e = 0 \<or> now < e"
  defines "D \<equiv> \<lambda>is. {due n | i n. i \<in> set is \<and> waiting s i = Some n \<and> now < due n}"
  shows "(earliest_loop s now is e = 0 \<longleftrightarrow> e = 0 \<and> D is = {}) \<and>
    (earliest_loop s now is e \<noteq> 0 \<longrightarrow>
       earliest_loop s now is e \<in> D is \<union> ({e} - {0}) \<and>
       (\<forall>d \<in> D is \<union> ({e} - {0}). earliest_loop s now is e \<le> d))"
  using assms(2)
proof (induction "is" arbitrary: e)
  case Nil
  then show ?case by (auto simp: D_def)
next
  case (Cons i "is")
  have skip: "D (i # is) = D is" if "\<And>n. waiting s i = Some n \<Longrightarrow> \<not> now < due n"
    using that by (auto simp: D_def)
  have grow: "D (i # is) = insert (due n) (D is)" if "waiting s i = Some n" "now < due n" for n
    using that by (auto simp: D_def)
  show ?case
  proof (cases "waiting s i")
    case None
    with Cons skip show ?thesis by simp
  next
    case (Some n)
    show ?thesis
    proof (cases "now < due n")
      case False
      with Cons Some skip show ?thesis by simp
    next
      case True
      have nz: "due n \<noteq> 0" using True assms(1) by auto
      show ?thesis
      proof (cases "e = 0 \<or> due n < e")
        case le: True
        then show ?thesis
          using Cons.IH [of "due n"] True Some nz grow [OF Some True] by fastforce
      next
        case False
        then show ?thesis
          using Cons.IH [of e] Cons.prems True Some nz grow [OF Some True] by fastforce
      qed
    qed
  qed
qed

section \<open>Properties\<close>

text \<open>C11. In every reachable interleaving of the monitor loop with its workers, the
  scheduler's in-flight count is exactly the number of workers that have not reported, it
  never exceeds 16, every node marked in flight has such a worker, and the scheduling order
  is the sorted list of the known nodes.\<close>

theorem scheduler_capacity:
  assumes "reach sched_init sched_step Y"
  shows "outstanding (sch Y) = int (length (workers Y)) \<and> length (workers Y) \<le> 16 \<and>
    (\<forall>i. running (sch Y) i \<longrightarrow> i \<in> set (workers Y)) \<and>
    sorted (order (sch Y)) \<and> distinct (order (sch Y)) \<and>
    set (order (sch Y)) = fst ` set (nodes (sch Y))"
  using sched.reach_inv [OF assms]
  by (auto simp: sched_inv_def sched_ok_def monitorMaxInFlight_def)

definition sched_example :: "nat \<Rightarrow> sched_sys" where
  "sched_example k =
     (let s0 = newMonitorScheduler minute;
          s1 = fst (sync s0 [2, 1] 5);
          r = plan s1 5
      in if k = 0 then \<lparr>sch = s0, workers = []\<rparr>
         else if k = 1 then \<lparr>sch = s1, workers = []\<rparr>
         else \<lparr>sch = fst r, workers = Admitted (snd r)\<rparr>)"

lemma sched_example_reach: "reach sched_init sched_step (sched_example 2)"
proof (rule reach_step)
  show "reach sched_init sched_step (sched_example 1)"
  proof (rule reach_step)
    show "reach sched_init sched_step (sched_example 0)"
      by (rule reach_init) (auto simp: sched_init_def sched_example_def Let_def)
    show "sched_step (sched_example 0) (sched_example 1)"
      using do_sync [of "sched_example 0" "[2, 1]" 5]
      by (cases "sync (sch (sched_example 0)) [2, 1] 5")
        (simp add: sched_example_def Let_def)
  qed
  show "sched_step (sched_example 1) (sched_example 2)"
    using do_plan [of "sched_example 1" 5]
    by (cases "plan (sch (sched_example 1)) 5") (simp add: sched_example_def Let_def)
qed

lemma sched_example_workers: "workers (sched_example 2) = [1, 2]"
  by (simp add: sched_example_def Let_def newMonitorScheduler_def sync_def new_node_def plan_def
      plan_node_def capacityLocked_def inFlightLocked_def dueLocked_def no_tick_def
      monitorMaxInFlight_def duration_units numeral_2_eq_2 insort_key.simps)

theorem scheduler_capacity_witness:
  "workers (sched_example 2) = [1, 2] \<and> outstanding (sch (sched_example 2)) = 2"
  using scheduler_capacity [OF sched_example_reach] by (simp add: sched_example_workers)

text \<open>C30. A planning pass admits exactly the first admissible nodes of the order (present,
  not in flight, queued or due), as many as there is free capacity; it marks exactly these
  in flight and counts them, so a pass leaves no capacity unused while an admissible node
  waits.\<close>

theorem plan_admits_first:
  assumes "sched_ok s" and "plan s now = (s', tick)"
  shows "Admitted tick =
      take (nat (capacityLocked s - outstanding s)) (filter (admissible s now) (order s)) \<and>
    outstanding s' = outstanding s + int (length (Admitted tick)) \<and>
    (\<forall>j. running s' j \<longleftrightarrow> running s j \<or> j \<in> set (Admitted tick)) \<and>
    ((\<exists>i \<in> set (order s). admissible s now i \<and> i \<notin> set (Admitted tick)) \<longrightarrow>
       capacityLocked s \<le> outstanding s')"
proof -
  note e = plan_effect [OF assms]
  have "capacityLocked s \<le> outstanding s'"
    if "i \<in> set (order s)" "admissible s now i" "i \<notin> set (Admitted tick)" for i
  proof (rule ccontr)
    let ?F = "filter (admissible s now) (order s)"
    assume "\<not> capacityLocked s \<le> outstanding s'"
    then have "int (length (take (nat (capacityLocked s - outstanding s)) ?F)) <
        capacityLocked s - outstanding s"
      using e(2) by simp
    then have "take (nat (capacityLocked s - outstanding s)) ?F = ?F" by simp
    with that e(1) show False by simp
  qed
  with e show ?thesis by auto
qed

lemma sched_example_ok: "sched_ok (sch (sched_example 1))"
  by (rule sync_nodes(1) [OF newMonitorScheduler_ok [of minute], of "[2, 1]" 5 _
        "snd (sync (newMonitorScheduler minute) [2, 1] 5)"])
    (simp add: sched_example_def Let_def)

theorem plan_admits_first_witness:
  "Admitted (snd (plan (sch (sched_example 1)) 5)) = [1, 2] \<and>
   running (fst (plan (sch (sched_example 1)) 5)) 2"
proof -
  have adm: "Admitted (snd (plan (sch (sched_example 1)) 5)) = [1, 2]"
    using sched_example_workers by (simp add: sched_example_def Let_def)
  obtain s' tick where pl: "plan (sch (sched_example 1)) 5 = (s', tick)"
    by (cases "plan (sch (sched_example 1)) 5")
  from plan_admits_first [OF sched_example_ok pl] adm pl show ?thesis by simp
qed

text \<open>C40. The rotation never rotates. In every reachable state the cursor is 0 before and after a
  pass, and a pass is exactly one visit to each known node, from the lowest id to the highest: it is the
  iteration of the loop body over the sorted list of all node ids, with nothing before, between or
  after. The nodes with the lowest ids are therefore considered first in every pass.\<close>

theorem plan_never_rotates:
  assumes "reach sched_init sched_step Y"
  shows "cursor (sch Y) = 0 \<and> cursor (fst (plan (sch Y) now)) = 0 \<and>
    order (sch Y) = sorted_list_of_set (set (mkeys (nodes (sch Y)))) \<and>
    plan (sch Y) now =
      (let r = fold (plan_one now (capacityLocked (sch Y))) (sorted_list_of_set (set (mkeys (nodes (sch Y)))))
                 (sch Y, inFlightLocked (sch Y), no_tick)
       in (fst r, snd (snd r)))"
proof -
  have ok: "sched_ok (sch Y)" using sched.reach_inv [OF assms] by (simp add: sched_inv_def)
  obtain s' tick where pl: "plan (sch Y) now = (s', tick)" by (cases "plan (sch Y) now")
  have o: "order (sch Y) = sorted_list_of_set (set (mkeys (nodes (sch Y))))"
    using ok sorted_list_of_set.idem_if_sorted_distinct [of "order (sch Y)"] by (simp add: sched_ok_def)
  have "plan (sch Y) now =
      (let r = fold (plan_one now (capacityLocked (sch Y))) (order (sch Y)) (sch Y, inFlightLocked (sch Y), no_tick)
       in (fst r, snd (snd r)))"
  proof (cases "order (sch Y) = []")
    case True
    then show ?thesis by (simp add: plan_def)
  next
    case False
    then show ?thesis using ok plan_ids [of "sch Y" now] by (simp add: sched_ok_def)
  qed
  then show ?thesis using ok plan_effect(6) [OF ok pl] pl o by (simp add: sched_ok_def)
qed

theorem plan_never_rotates_witness:
  "cursor (sch (sched_example 2)) = 0 \<and> cursor (fst (plan (sch (sched_example 2)) 7)) = 0 \<and>
   order (sch (sched_example 2)) = sorted_list_of_set (set (mkeys (nodes (sch (sched_example 2)))))"
  using plan_never_rotates [OF sched_example_reach, of 7] by blast

text \<open>C35. \<^verbatim>\<open>hasAdmissible\<close> predicts the planner: it holds exactly when a pass at the
  same time would admit some node.\<close>

theorem hasAdmissible_iff_plan:
  assumes "sched_ok s"
  shows "hasAdmissible s now \<longleftrightarrow> Admitted (snd (plan s now)) \<noteq> []"
proof -
  obtain s' tick where pl: "plan s now = (s', tick)" by (cases "plan s now")
  have "hasAdmissible s now \<longleftrightarrow>
    outstanding s < capacityLocked s \<and> (\<exists>i \<in> set (order s). admissible s now i)"
    by (auto simp: hasAdmissible_def list_ex_iff inFlightLocked_def admissible_iff)
  then show ?thesis
    using plan_effect(1) [OF assms pl] pl by (auto simp: filter_empty_conv)
qed

theorem hasAdmissible_iff_plan_witness:
  "hasAdmissible (sch (sched_example 2)) 7 \<longleftrightarrow>
     Admitted (snd (plan (sch (sched_example 2)) 7)) \<noteq> []"
  using sched.reach_inv [OF sched_example_reach]
  by (intro hasAdmissible_iff_plan) (simp add: sched_inv_def)

text \<open>C36. The backoff after \<open>fs\<close> consecutive failures: the saturating doubling loop
  computes \<open>min (I * 2^(fs-1)) cap\<close> without overflow, and for every jitter and every float
  rounding the delay lies between the interval and \<open>cap = max I 300s\<close>; with exact
  arithmetic and a centred jitter it is that base.\<close>

theorem backoff_bounds:
  fixes s :: monitorScheduler
  assumes "0 < interval s" and "interval s \<le> max_int64" and "1 \<le> fs"
  defines "cp \<equiv> max (interval s) monitorBackoffCap"
  shows "backoff_base (nat (fs - 1)) cp (interval s) = min (interval s * 2 ^ nat (fs - 1)) cp \<and>
    interval s \<le> backoffDelayLocked s rnd fl fs \<and> backoffDelayLocked s rnd fl fs \<le> cp \<and>
    backoffDelayLocked s (\<lambda>x. x) (1 / 2) fs = min (interval s * 2 ^ nat (fs - 1)) cp"
proof -
  have cap: "cp = (if interval s < monitorBackoffCap then monitorBackoffCap else interval s)"
    by (simp add: cp_def)
  have base: "backoff_base (nat (fs - 1)) cp (interval s) = min (interval s * 2 ^ nat (fs - 1)) cp"
    using assms(1,2)
    by (intro backoff_base_closed) (auto simp: cp_def monitorBackoffCap_def second_def max_int64_def)
  have "interval s * 1 \<le> interval s * 2 ^ nat (fs - 1)"
    using assms(1) by (intro mult_left_mono) auto
  define b where "b = min (interval s * 2 ^ nat (fs - 1)) cp"
  with \<open>interval s * 1 \<le> _\<close> have lo: "interval s \<le> b" "b \<le> cp" by (simp_all add: cp_def)
  have delay: "backoffDelayLocked s r f fs =
    (let d = trunc_rat (r (r (of_int b) * r (1 + r (r (r (f * 2) - 1) * r (1 / 10)))))
     in if (if d < interval s then interval s else d) > cp then cp
        else if d < interval s then interval s else d)" for r f
    using lo unfolding backoffDelayLocked_def Let_def cap [symmetric] base b_def by simp
  have "interval s \<le> backoffDelayLocked s rnd fl fs \<and> backoffDelayLocked s rnd fl fs \<le> cp"
    using lo unfolding delay Let_def by (simp split: if_split)
  moreover have "backoffDelayLocked s (\<lambda>x. x) (1 / 2) fs = b"
    using lo unfolding delay Let_def by (simp add: trunc_rat_def)
  ultimately show ?thesis using base b_def by blast
qed

theorem backoff_bounds_witness:
  "backoffDelayLocked (newMonitorScheduler minute) (\<lambda>x. x) (1 / 2) 3 = 240 * second"
  using backoff_bounds [of "newMonitorScheduler minute" 3 "\<lambda>x. x" "1 / 2"]
  by (simp add: newMonitorScheduler_def duration_units max_int64_def monitorBackoffCap_def)

text \<open>C37. After a completed round the next slot is strictly in the future, whatever the
  previous due time; and while the distance fits an int64 it is the first slot of the node's
  own phase, at most one interval away, so missed slots are never replayed.\<close>

theorem nextAligned_slot:
  assumes "0 < interval s"
  shows "now < nextAlignedLocked s prev now \<and>
    (prev \<noteq> 0 \<longrightarrow> prev \<le> now \<longrightarrow> now - prev + interval s \<le> max_int64 \<longrightarrow>
       nextAlignedLocked s prev now \<le> now + interval s \<and>
       (nextAlignedLocked s prev now - prev) mod interval s = 0)"
proof (cases "prev = 0 \<or> prev \<le> now")
  case False
  then show ?thesis by (simp add: nextAlignedLocked_def)
next
  case True
  let ?I = "interval s"
  define k where "k = (if prev = 0 then 1 else wrap64 (go_div (Sub now prev) ?I + 1))"
  let ?n = "prev + wrap64 (k * ?I)"
  have eq: "nextAlignedLocked s prev now = advance_past ?I now ?n"
    using True by (auto simp: nextAlignedLocked_def Let_def k_def)
  have "nextAlignedLocked s prev now \<le> now + ?I \<and> (nextAlignedLocked s prev now - prev) mod ?I = 0"
    if "prev \<noteq> 0" "prev \<le> now" "now - prev + ?I \<le> max_int64"
  proof -
    let ?q = "(now - prev) div ?I"
    have sub: "Sub now prev = now - prev"
      using that assms by (intro Sub_exact) (auto simp: min_int64_def)
    let ?m = "(now - prev) mod ?I"
    have dm: "?q * ?I + ?m = now - prev" by (rule div_mult_mod_eq)
    have m: "0 \<le> ?m" "?m < ?I" using assms by simp_all
    have "?q * ?I \<le> now - prev" and "now - prev < ?q * ?I + ?I"
      using dm m by linarith+
    moreover have "0 \<le> ?q" using that(2) assms by (simp add: pos_imp_zdiv_nonneg_iff)
    ultimately have q: "?q * ?I \<le> now - prev" "now - prev < ?q * ?I + ?I" "0 \<le> ?q" .
    have "?q * 1 \<le> ?q * ?I" using q(3) assms by (intro mult_left_mono) auto
    then have "wrap64 (?q + 1) = ?q + 1"
      using q that(3) assms by (intro wrap64_id) (auto simp: min_int64_def)
    then have k: "k = ?q + 1"
      using that assms sub by (simp add: k_def go_div_nonneg)
    have "wrap64 (k * ?I) = k * ?I"
      using q that assms by (intro wrap64_id) (auto simp: k min_int64_def distrib_right)
    with q have n: "?n = prev + (?q * ?I + ?I)" "now < ?n" by (simp_all add: k distrib_right)
    then have "advance_past ?I now ?n = ?n" by (subst advance_past.simps) simp
    with eq n q show ?thesis by simp
  qed
  with advance_past_spec [OF assms, of now ?n] eq show ?thesis by simp
qed

theorem nextAligned_slot_witness:
  "nextAlignedLocked (newMonitorScheduler minute) 1 (150 * second) \<le> 150 * second + minute"
  using nextAligned_slot [of "newMonitorScheduler minute" "150 * second" 1]
  by (simp add: newMonitorScheduler_def duration_units max_int64_def)

text \<open>C38. Escalation is exactly once per streak: completing a running task warns exactly
  at the third consecutive failure, reports recovery exactly on a success that ends a streak
  of at least three, and skipped or cancelled tasks leave the failure count alone.\<close>

theorem complete_escalates_once:
  assumes "sched_ok s" and "mget (nodes s) i = Some n" and "inFlight n"
    and "complete s rnd fl i outcome now = (s', r)"
  shows "(WarnDegraded r \<longleftrightarrow> outcome = outcomeFailure \<and> failures n = 2) \<and>
    (Recovered r \<longleftrightarrow> outcome = outcomeSuccess \<and> 3 \<le> failures n) \<and>
    Failures r = (case outcome of outcomeSuccess \<Rightarrow> 0 | outcomeFailure \<Rightarrow> failures n + 1
                  | _ \<Rightarrow> failures n) \<and>
    failures_of s' i = Failures r"
proof -
  have "node_ok n" using assms(1,2) unfolding sched_ok_def by blast
  with assms(2-4) show ?thesis
    by (cases outcome)
      (auto simp: complete_def Let_def node_simps no_completion_def failures_of_def)
qed

theorem complete_escalates_once_witness:
  "Failures (snd (complete (sch (sched_example 2)) (\<lambda>x. x) 0 1 outcomeFailure 9)) = 1"
proof -
  let ?s = "sch (sched_example 2)"
  obtain s' r where c: "complete ?s (\<lambda>x. x) 0 1 outcomeFailure 9 = (s', r)"
    by (cases "complete ?s (\<lambda>x. x) 0 1 outcomeFailure 9")
  have ok: "sched_ok ?s"
    using sched.reach_inv [OF sched_example_reach] by (simp add: sched_inv_def)
  have "mget (nodes ?s) 1 = Some ((new_node 1 5)\<lparr>inFlight := True\<rparr>)"
    by (simp add: sched_example_def Let_def newMonitorScheduler_def sync_def new_node_def plan_def
        plan_node_def capacityLocked_def inFlightLocked_def dueLocked_def no_tick_def
        monitorMaxInFlight_def duration_units numeral_2_eq_2)
  from complete_escalates_once [OF ok this _ c] c show ?thesis by (simp add: new_node_def)
qed

text \<open>C39. The next wake-up. Among the nodes that are neither running nor queued, \<^verbatim>\<open>earliestDue\<close>
  is zero exactly when one of them is due while capacity is free, or none of them has a future slot; otherwise it
  is the earliest of their future slots. Queued nodes do not count there; the monitor loop asks
  \<^verbatim>\<open>hasAdmissible\<close> first, which does count them. So, with both questions put to one state, the loop sleeps
  not at all exactly when something is admissible, and otherwise for a positive time, at most one interval,
  that ends with the interval or exactly at a future slot, and past no future slot of a waiting
  node.\<close>

theorem earliestDue_correct:
  fixes s :: monitorScheduler
  assumes "0 \<le> now" and "0 < iv" and "iv \<le> max_int64"
  defines "D \<equiv> {due n | i n. i \<in> set (order s) \<and> waiting s i = Some n \<and> now < due n}"
    and "free \<equiv> outstanding s < capacityLocked s \<and>
      (\<exists>i n. i \<in> set (order s) \<and> waiting s i = Some n \<and> due n \<le> now)"
  shows "(earliestDue s now = 0 \<longleftrightarrow> free \<or> D = {}) \<and>
    (earliestDue s now \<noteq> 0 \<longrightarrow> earliestDue s now \<in> D \<and> (\<forall>d \<in> D. earliestDue s now \<le> d)) \<and>
    (next_delay iv s s now = 0 \<longleftrightarrow> hasAdmissible s now) \<and>
    (\<not> hasAdmissible s now \<longrightarrow> 0 < next_delay iv s s now \<and> next_delay iv s s now \<le> iv \<and>
       (next_delay iv s s now = iv \<or> now + next_delay iv s s now \<in> D) \<and>
       (\<forall>d \<in> D. now + next_delay iv s s now \<le> d))"
proof -
  have "earliestDue s now = (if free then 0 else earliest_loop s now (order s) 0)"
    by (auto simp: earliestDue_def free_def inFlightLocked_def list_ex_iff not_less
        split: option.splits)
  with earliest_loop_spec [OF assms(1), of 0 s "order s"]
  have E: "earliestDue s now = 0 \<longleftrightarrow> free \<or> D = {}"
    "earliestDue s now \<noteq> 0 \<longrightarrow> earliestDue s now \<in> D \<and> (\<forall>d \<in> D. earliestDue s now \<le> d)"
    by (auto simp: D_def)
  have adm: "hasAdmissible s now" if "free"
    using that by (auto simp: hasAdmissible_def free_def inFlightLocked_def list_ex_iff waiting_def
        split: option.splits if_splits intro!: bexI)
  have nd: "0 < next_delay iv s s now \<and> next_delay iv s s now \<le> iv \<and>
       (next_delay iv s s now = iv \<or> now + next_delay iv s s now \<in> D) \<and>
       (\<forall>d \<in> D. now + next_delay iv s s now \<le> d)" if na: "\<not> hasAdmissible s now"
  proof (cases "earliestDue s now = 0")
    case True
    then have "D = {}" using E(1) adm na by blast
    then show ?thesis using True na assms(2) by (simp add: next_delay_def)
  next
    case False
    define e where "e = earliestDue s now"
    have e: "e \<in> D" "\<forall>d \<in> D. e \<le> d" "e \<noteq> 0" using False E(2) by (simp_all add: e_def)
    have "now < e" using e(1) by (auto simp: D_def)
    then have u: "Sub e now = min (e - now) max_int64"
      by (auto simp: Sub_def min_int64_def max_int64_def)
    have "next_delay iv s s now = (if e - now < iv then e - now else iv)"
      using na e(3) \<open>now < e\<close> assms(2,3) u by (auto simp: next_delay_def Let_def e_def [symmetric])
    then show ?thesis using e(1,2) \<open>now < e\<close> assms(2) by auto
  qed
  have "next_delay iv s s now = 0" if "hasAdmissible s now" using that by (simp add: next_delay_def)
  with nd E show ?thesis by (cases "hasAdmissible s now") auto
qed

theorem earliestDue_correct_witness:
  "earliestDue (sch (sched_example 1)) 0 = 5 \<and>
   earliestDue (sch (sched_example 1)) 0 \<in>
     {due n | i n. i \<in> set (order (sch (sched_example 1))) \<and>
        waiting (sch (sched_example 1)) i = Some n \<and> 0 < due n} \<and>
   0 < next_delay minute (sch (sched_example 1)) (sch (sched_example 1)) 0"
proof -
  have "earliestDue (sch (sched_example 1)) 0 = 5" "\<not> hasAdmissible (sch (sched_example 1)) 0"
    by (simp_all add: sched_example_def Let_def newMonitorScheduler_def sync_def new_node_def
        earliestDue_def waiting_def capacityLocked_def inFlightLocked_def hasAdmissible_def
        monitorMaxInFlight_def duration_units)
  with earliestDue_correct [of 0 minute "sch (sched_example 1)"] show ?thesis
    by (simp add: duration_units max_int64_def)
qed

text \<open>A run in which a queued node is admissible: three nodes run, one of them succeeds, another
  is replaced by a new node, which queues behind the two live workers, and then one of these ends.\<close>

definition sched_run :: "nat \<Rightarrow> sched_sys" where
  "sched_run k =
     (let s1 = fst (sync (newMonitorScheduler minute) [1, 3, 4] 5);
          r2 = plan s1 5;
          s3 = fst (complete (fst r2) id 0 3 outcomeSuccess 6);
          s4 = fst (sync s3 [2, 3] 7);
          r5 = plan s4 7;
          s6 = fst (complete (fst r5) id 0 1 outcomeCancelled 8)
      in [\<lparr>sch = newMonitorScheduler minute, workers = []\<rparr>, \<lparr>sch = s1, workers = []\<rparr>,
          \<lparr>sch = fst r2, workers = [1, 3, 4]\<rparr>, \<lparr>sch = s3, workers = [1, 4]\<rparr>, \<lparr>sch = s4, workers = [1, 4]\<rparr>,
          \<lparr>sch = fst r5, workers = [1, 4]\<rparr>, \<lparr>sch = s6, workers = [4]\<rparr>] ! k)"

lemma sched_run_admitted:
  "Admitted (snd (plan (sch (sched_run 1)) 5)) = [1, 3, 4]" "Admitted (snd (plan (sch (sched_run 4)) 7)) = []"
  by code_simp+

lemma sched_run_reach: "reach sched_init sched_step (sched_run 6)"
proof -
  have "reach sched_init sched_step (sched_run 0)"
    by (rule reach_init) (auto simp: sched_init_def sched_run_def Let_def)
  moreover have "sched_step (sched_run 0) (sched_run 1)"
    using do_sync [of "sched_run 0" "[1, 3, 4]" 5, OF prod.collapse [symmetric]]
    by (simp add: sched_run_def Let_def)
  ultimately have "reach sched_init sched_step (sched_run 1)" by (rule reach_step)
  moreover have "sched_step (sched_run 1) (sched_run 2)"
    using do_plan [of "sched_run 1" 5, OF prod.collapse [symmetric], unfolded sched_run_admitted]
    by (simp add: sched_run_def Let_def)
  ultimately have "reach sched_init sched_step (sched_run 2)" by (rule reach_step)
  moreover have "sched_step (sched_run 2) (sched_run 3)"
    using do_complete [of 3 "sched_run 2" id 0 outcomeSuccess 6, OF _ prod.collapse [symmetric]]
    by (simp add: sched_run_def Let_def)
  ultimately have "reach sched_init sched_step (sched_run 3)" by (rule reach_step)
  moreover have "sched_step (sched_run 3) (sched_run 4)"
    using do_sync [of "sched_run 3" "[2, 3]" 7, OF prod.collapse [symmetric]]
    by (simp add: sched_run_def Let_def)
  ultimately have "reach sched_init sched_step (sched_run 4)" by (rule reach_step)
  moreover have "sched_step (sched_run 4) (sched_run 5)"
    using do_plan [of "sched_run 4" 7, OF prod.collapse [symmetric], unfolded sched_run_admitted]
    by (simp add: sched_run_def Let_def)
  ultimately have "reach sched_init sched_step (sched_run 5)" by (rule reach_step)
  moreover have "sched_step (sched_run 5) (sched_run 6)"
    using do_complete [of 1 "sched_run 5" id 0 outcomeCancelled 8, OF _ prod.collapse [symmetric]]
    by (simp add: sched_run_def Let_def)
  ultimately show ?thesis by (rule reach_step)
qed

text \<open>C34. What \<^verbatim>\<open>earliestDue\<close> leaves to its caller: there is a reachable state with a queued node
  and free capacity, in which a pass would admit that node at once, and yet \<^verbatim>\<open>earliestDue\<close> is not zero but
  the slot of another node nearly a minute ahead. Only the preceding \<^verbatim>\<open>hasAdmissible\<close> keeps the loop
  from sleeping on it.\<close>

theorem earliestDue_skips_queued:
  "\<exists>Y. reach sched_init sched_step Y \<and> queuedCount (sch Y) = 1 \<and>
     inFlightLocked (sch Y) < capacityLocked (sch Y) \<and> Admitted (snd (plan (sch Y) 8)) = [2] \<and>
     earliestDue (sch Y) 8 = 5 + minute \<and> next_delay minute (sch Y) (sch Y) 8 = 0"
proof (intro exI conjI)
  show "reach sched_init sched_step (sched_run 6)" by (rule sched_run_reach)
  show "queuedCount (sch (sched_run 6)) = 1" by code_simp
  show "inFlightLocked (sch (sched_run 6)) < capacityLocked (sch (sched_run 6))" by code_simp
  show "Admitted (snd (plan (sch (sched_run 6)) 8)) = [2]" by code_simp
  show "earliestDue (sch (sched_run 6)) 8 = 5 + minute" by code_simp
  show "next_delay minute (sch (sched_run 6)) (sch (sched_run 6)) 8 = 0" by code_simp
qed

end
