(* ===== verification/Session_Gate.thy ===== *)
theory Session_Gate
  imports Talus_Prelude
begin

text \<open>
  Session admission and revocation (\<^verbatim>\<open>gate/gate.go\<close>, \<^verbatim>\<open>gate/registry.go\<close>).

  \<^verbatim>\<open>Gate.withUser\<close> holds a user's lock from the version read to the end of the callback,
  so for one user it is one step; the callback acts on a caller-supplied world. What the
  contexts and the two version sources answered during the call is the record
  \<open>admission\<close>. \<open>gate_step\<close> puts the gate beside a database in which a commit can stay
  unresolved; the sources answer as the code documents them: the ordinary read returns the
  committed version, the locking read only answers once no commit of that row is open.

  The registry keeps its sessions by pointer; a session's ID is never reused, so the heap of
  sessions is a map from IDs, and \<open>live\<close> lists the IDs in \<^verbatim>\<open>Registry.sessions\<close>. Waiting
  for a session is described by the time its \<^verbatim>\<open>done\<close> channel closes, if it does.
\<close>

section \<open>Gate\<close>

record userState =
  initialized :: bool
  pending :: bool

type_synonym gate = "(uint, userState) gomap"

datatype 'e gate_error = ErrUnavailable | CtxErr | Callback 'e

record admission =
  wired :: bool
  lock_acquired :: bool
  ctx_err_locked :: bool
  read_version :: "int option"
  read_recovery :: "int option"
  ctx_err_read :: bool

definition stateFor :: "gate \<Rightarrow> uint \<Rightarrow> gate \<times> userState" where
  "stateFor g u =
     (case mget g u of
        Some st \<Rightarrow> (g, st)
      | None \<Rightarrow> let st = \<lparr>initialized = False, pending = False\<rparr> in (mput u st g, st))"

text \<open>The callback gets the version and the world and returns the world, whether the
  outcome of its write is uncertain, and its error.\<close>

type_synonym ('w, 'e) gate_fn = "int \<Rightarrow> 'w \<Rightarrow> 'w \<times> bool \<times> 'e gate_error option"

definition withUser ::
  "admission \<Rightarrow> gate \<Rightarrow> 'w \<Rightarrow> uint \<Rightarrow> ('w, 'e) gate_fn \<Rightarrow> gate \<times> 'w \<times> 'e gate_error option" where
  "withUser env g w u fn =
     (if \<not> wired env then (g, w, Some ErrUnavailable)
      else
        let (g1, st) = stateFor g u
        in if \<not> lock_acquired env then (g1, w, Some CtxErr)
           else if ctx_err_locked env then (g1, w, Some CtxErr)
           else case (if \<not> initialized st \<or> pending st then read_recovery env
                      else read_version env) of
                  None \<Rightarrow> (g1, w, Some ErrUnavailable)
                | Some v \<Rightarrow>
                    if ctx_err_read env then (g1, w, Some ErrUnavailable)
                    else
                      let (w', uncertain, err) = fn v w
                      in (mput u \<lparr>initialized = True, pending = uncertain\<rparr> g1, w', err))"

definition Admit ::
  "admission \<Rightarrow> gate \<Rightarrow> 'w \<Rightarrow> uint \<Rightarrow> (int \<Rightarrow> 'w \<Rightarrow> 'w \<times> 'e gate_error option) \<Rightarrow>
     gate \<times> 'w \<times> 'e gate_error option" where
  "Admit env g w u fn = withUser env g w u (\<lambda>v w. let (w', e) = fn v w in (w', False, e))"

definition Update ::
  "admission \<Rightarrow> gate \<Rightarrow> 'w \<Rightarrow> uint \<Rightarrow> ('w, 'e) gate_fn \<Rightarrow> gate \<times> 'w \<times> 'e gate_error option" where
  "Update env g w u fn = withUser env g w u fn"

definition UpdateWithBudget ::
  "admission \<Rightarrow> gate \<Rightarrow> 'w \<Rightarrow> uint \<Rightarrow> duration \<Rightarrow> bool \<Rightarrow> ('w, 'e) gate_fn \<Rightarrow>
     gate \<times> 'w \<times> 'e gate_error option" where
  "UpdateWithBudget env g w u budget write_ctx_err fn =
     (if budget \<le> 0 then (g, w, Some ErrUnavailable)
      else Update env g w u
             (\<lambda>v w. if write_ctx_err then (w, False, Some CtxErr) else fn v w))"

definition Recover :: "admission \<Rightarrow> gate \<Rightarrow> 'w \<Rightarrow> uint \<Rightarrow> gate \<times> 'w \<times> 'e gate_error option" where
  "Recover env g w u = Admit env g w u (\<lambda>_ w. (w, None))"

definition fenced :: "gate \<Rightarrow> uint \<Rightarrow> bool" where
  "fenced g u \<longleftrightarrow> (case mget g u of None \<Rightarrow> True | Some st \<Rightarrow> \<not> initialized st \<or> pending st)"

lemmas gate_defs = withUser_def stateFor_def fenced_def Let_def

lemma withUser_cases:
  assumes "withUser env g w u fn = (g', w', r)"
  obtains (refused) "w' = w" "fenced g' u = fenced g u" "r \<noteq> None" "mget g' v = mget g v \<or> v = u"
  | (ran) v uncertain err
      where "(if fenced g u then read_recovery env else read_version env) = Some v"
        "fn v w = (w', uncertain, err)" "r = err"
        "fenced g' u = uncertain"
  using assms
  by (cases "mget g u")
    (force simp: gate_defs split: if_splits option.splits prod.splits)+

lemma withUser_other: "withUser env g w u fn = (g', w', r) \<Longrightarrow> v \<noteq> u \<Longrightarrow> fenced g' v = fenced g v"
  by (auto simp: gate_defs split: if_splits option.splits prod.splits)

section \<open>Gate and database\<close>

text \<open>\<open>committed\<close> is the version a read sees, \<open>open_commit\<close> the version an unresolved
  transaction may still install.\<close>

record gate_sys =
  gt :: gate
  committed :: "uint \<Rightarrow> int"
  open_commit :: "uint \<Rightarrow> int option"

definition sources_ok :: "gate_sys \<Rightarrow> uint \<Rightarrow> admission \<Rightarrow> bool" where
  "sources_ok S u env \<longleftrightarrow>
     (\<forall>v. read_version env = Some v \<longrightarrow> v = committed S u) \<and>
     (\<forall>v. read_recovery env = Some v \<longrightarrow> v = committed S u \<and> open_commit S u = None)"

datatype write_result = Committed int | RolledBack | Unknown int

text \<open>The write of a password change or key mutation and what the caller learns of it:
  only an unknown commit is uncertain.\<close>

definition write_fn :: "uint \<Rightarrow> write_result \<Rightarrow> (gate_sys, string) gate_fn" where
  "write_fn u wr v S =
     (case wr of
        Committed n \<Rightarrow> (S\<lparr>committed := (committed S)(u := n)\<rparr>, False, None)
      | RolledBack \<Rightarrow> (S, False, Some (Callback ''rolled back''))
      | Unknown n \<Rightarrow> (S\<lparr>open_commit := (open_commit S)(u := Some n)\<rparr>, True, Some (Callback ''commit unknown'')))"

definition check_fn :: "int \<Rightarrow> int \<Rightarrow> gate_sys \<Rightarrow> gate_sys \<times> string gate_error option" where
  "check_fn tok v S = (S, if v = tok then None else Some (Callback ''unauthorized''))"

inductive gate_step :: "gate_sys \<Rightarrow> gate_sys \<Rightarrow> bool" where
  admit: "sources_ok S u env \<Longrightarrow> Admit env (gt S) S u (check_fn tok) = (g', S', r) \<Longrightarrow>
    gate_step S (S'\<lparr>gt := g'\<rparr>)"
| update: "sources_ok S u env \<Longrightarrow> Update env (gt S) S u (write_fn u wr) = (g', S', r) \<Longrightarrow>
    gate_step S (S'\<lparr>gt := g'\<rparr>)"
| resolve_commit: "open_commit S u = Some n \<Longrightarrow>
    gate_step S (S\<lparr>committed := (committed S)(u := n), open_commit := (open_commit S)(u := None)\<rparr>)"
| resolve_rollback: "open_commit S u = Some n \<Longrightarrow>
    gate_step S (S\<lparr>open_commit := (open_commit S)(u := None)\<rparr>)"
| restart: "gate_step S (S\<lparr>gt := []\<rparr>)"

definition gate_inv :: "gate_sys \<Rightarrow> bool" where
  "gate_inv S \<longleftrightarrow> (\<forall>u. open_commit S u \<noteq> None \<longrightarrow> fenced (gt S) u)"

definition gate_init :: "gate_sys \<Rightarrow> bool" where
  "gate_init S \<longleftrightarrow> gt S = []"

lemma admit_inv:
  assumes "gate_inv S" and "sources_ok S u env" and "Admit env (gt S) S u (check_fn tok) = (g', S', r)"
  shows "S' = S" and "gate_inv (S\<lparr>gt := g'\<rparr>)"
    and "r = None \<Longrightarrow> committed S u = tok \<and> open_commit S u = None"
proof -
  note run = assms(3) [unfolded Admit_def]
  have "S' = S \<and> (fenced g' u \<or> open_commit S u = None) \<and>
      (r = None \<longrightarrow> committed S u = tok \<and> open_commit S u = None) \<or>
    S' = S \<and> fenced g' u = fenced (gt S) u \<and> r \<noteq> None"
    using assms(1,2)
    by (cases rule: withUser_cases [OF run])
      (auto simp: check_fn_def sources_ok_def gate_inv_def split: if_splits)
  then have key: "S' = S" "fenced g' u \<or> open_commit S u = None"
    "r = None \<longrightarrow> committed S u = tok \<and> open_commit S u = None"
    using assms(1) by (auto simp: gate_inv_def)
  show "S' = S" by (rule key)
  show "r = None \<Longrightarrow> committed S u = tok \<and> open_commit S u = None" using key by blast
  have "fenced g' v" if "open_commit S v \<noteq> None" for v
    using that key(2) withUser_other [OF run, of v] assms(1)
    by (cases "v = u") (auto simp: gate_inv_def)
  then show "gate_inv (S\<lparr>gt := g'\<rparr>)" by (simp add: gate_inv_def)
qed

lemma update_inv:
  assumes "gate_inv S" and "sources_ok S u env" and "Update env (gt S) S u (write_fn u wr) = (g', S', r)"
  shows "gate_inv (S'\<lparr>gt := g'\<rparr>)"
proof -
  note run = assms(3) [unfolded Update_def]
  have "(fenced g' u \<or> open_commit S' u = None) \<and> (\<forall>v. v \<noteq> u \<longrightarrow> open_commit S' v = open_commit S v)"
    using assms(1,2)
    by (cases rule: withUser_cases [OF run])
      (auto simp: write_fn_def sources_ok_def gate_inv_def split: if_splits write_result.splits)
  then have "fenced g' v" if "open_commit S' v \<noteq> None" for v
    using that withUser_other [OF run, of v] assms(1)
    by (cases "v = u") (auto simp: gate_inv_def)
  then show ?thesis by (simp add: gate_inv_def)
qed

interpretation gates: transition_system gate_init gate_step gate_inv
proof
  fix S assume "gate_init S"
  then show "gate_inv S" by (simp add: gate_inv_def gate_init_def fenced_def)
next
  fix S T assume inv: "gate_inv S" and step: "gate_step S T"
  from step inv show "gate_inv T"
  proof cases
    case (admit u env tok g' S' r)
    with admit_inv(1,2) [OF inv admit(2,3)] show ?thesis by simp
  next
    case (update u env wr g' S' r)
    with update_inv [OF inv update(2,3)] show ?thesis by simp
  qed (auto simp: gate_inv_def fenced_def)
qed

text \<open>C24. A session or key is only admitted when its version is certain: in every
  reachable state of the gate beside the database, across password changes, unknown commit
  outcomes, late resolutions and process restarts, an admission that succeeds has accepted
  exactly the committed version, and no commit of that user is unresolved.\<close>

theorem admission_version_certain:
  assumes "reach gate_init gate_step S" and "sources_ok S u env"
    and "Admit env (gt S) S u (check_fn tok) = (g', S', None)"
  shows "committed S u = tok \<and> open_commit S u = None"
  using admit_inv(3) [OF gates.reach_inv [OF assms(1)] assms(2,3)] by simp

definition gate_env :: "int option \<Rightarrow> int option \<Rightarrow> admission" where
  "gate_env v r = \<lparr>wired = True, lock_acquired = True, ctx_err_locked = False,
     read_version = v, read_recovery = r, ctx_err_read = False\<rparr>"

definition gate_example :: gate_sys where
  "gate_example = \<lparr>gt = [], committed = (\<lambda>_. 7), open_commit = (\<lambda>_. None)\<rparr>"

theorem admission_version_certain_witness:
  "snd (snd (Admit (gate_env None (Some 7)) (gt gate_example) gate_example 1 (check_fn 7))) = None \<and>
   committed gate_example 1 = 7 \<and> open_commit gate_example 1 = None"
proof -
  have r: "reach gate_init gate_step gate_example"
    by (rule reach_init) (simp add: gate_init_def gate_example_def)
  have src: "sources_ok gate_example 1 (gate_env None (Some 7))"
    by (simp add: sources_ok_def gate_env_def gate_example_def)
  obtain g' S' e where ad:
    "Admit (gate_env None (Some 7)) (gt gate_example) gate_example 1 (check_fn 7) = (g', S', e)"
    by (cases "Admit (gate_env None (Some 7)) (gt gate_example) gate_example 1 (check_fn 7)")
  then have "e = None"
    by (auto simp: Admit_def withUser_def stateFor_def gate_env_def gate_example_def check_fn_def Let_def)
  with ad have ad': "Admit (gate_env None (Some 7)) (gt gate_example) gate_example 1 (check_fn 7) =
    (g', S', None)" by simp
  from admission_version_certain [OF r src ad'] ad' show ?thesis by simp
qed

text \<open>C21. The fence: once a write's outcome is unknown, the ordinary version source is
  never consulted for that user until a locking read has answered, and a locking read that
  fails leaves the fence and the world as they were and refuses the caller.\<close>

theorem fence_until_locked_read:
  assumes "Update env g w u fn = (g', w', r)" and "wired env" and "lock_acquired env"
    and "\<not> ctx_err_locked env" and "\<not> ctx_err_read env"
    and "(if fenced g u then read_recovery env else read_version env) = Some v"
    and "fst (snd (fn v w)) = True"
  shows "fenced g' u \<and>
    Admit env' g' w' u chk = Admit (env'\<lparr>read_version := x\<rparr>) g' w' u chk \<and>
    (read_recovery env' = None \<longrightarrow>
       (\<exists>g'' e. Admit env' g' w' u chk = (g'', w', Some e) \<and> fenced g'' u))"
proof -
  have "fenced g' u"
    using assms
    by (cases "mget g u") (auto simp: Update_def gate_defs split: if_splits prod.splits)
  then show ?thesis
    by (cases "mget g' u")
      (auto simp: Admit_def gate_defs split: if_splits option.splits prod.splits)
qed

theorem fence_until_locked_read_witness:
  "fenced (fst (Update (gate_env None (Some 7)) [] gate_example 1 (write_fn 1 (Unknown 8)))) 1 \<and>
   (\<exists>g'' e. Admit (gate_env (Some 7) None)
      (fst (Update (gate_env None (Some 7)) [] gate_example 1 (write_fn 1 (Unknown 8))))
      (fst (snd (Update (gate_env None (Some 7)) [] gate_example 1 (write_fn 1 (Unknown 8))))) 1
      (check_fn 7) =
      (g'', fst (snd (Update (gate_env None (Some 7)) [] gate_example 1 (write_fn 1 (Unknown 8)))), Some e)
      \<and> fenced g'' 1)"
proof -
  let ?U = "Update (gate_env None (Some 7)) [] gate_example 1 (write_fn 1 (Unknown 8))"
  have U: "?U = (fst ?U, fst (snd ?U), snd (snd ?U))" by simp
  show ?thesis
    using fence_until_locked_read [OF U, of 7 "gate_env (Some 7) None" "check_fn 7"]
    by (simp add: gate_env_def fenced_def write_fn_def)
qed

section \<open>Registry\<close>

datatype SessionState = StatePreparing | StateReady | StateRevoked

definition cleanupGrace :: duration where "cleanupGrace = 2 * second"

definition cleanupBudget :: duration where "cleanupBudget = 3 * second"

text \<open>The two callbacks of a session are represented by whether they are set and how often
  they have been called; \<open>forceOnce\<close> and \<open>done_closed\<close> are the \<^verbatim>\<open>sync.Once\<close> flags.\<close>

record Session =
  s_ID :: uint
  s_UserID :: uint
  s_Version :: int
  has_cancel :: bool
  has_force :: bool
  cancel_calls :: nat
  force_calls :: nat
  done_closed :: bool
  forceOnce :: bool
  s_state :: SessionState
  graceDeadline :: time
  deadline :: time

record Registry =
  nxt :: uint
  live :: "uint list"
  heap :: "(uint, Session) gomap"
  grace :: duration
  budget :: duration

definition NewRegistry :: Registry where
  "NewRegistry = \<lparr>nxt = 0, live = [], heap = [], grace = cleanupGrace, budget = cleanupBudget\<rparr>"

definition Register :: "Registry \<Rightarrow> uint \<Rightarrow> int \<Rightarrow> bool \<Rightarrow> bool \<Rightarrow> Registry \<times> uint" where
  "Register r u v can frc =
     (let i = nxt r + 1;
          s = \<lparr>s_ID = i, s_UserID = u, s_Version = v, has_cancel = can, has_force = frc,
               cancel_calls = 0, force_calls = 0, done_closed = False, forceOnce = False,
               s_state = StatePreparing, graceDeadline = 0, deadline = 0\<rparr>
      in (r\<lparr>nxt := i, live := live r @ [i], heap := mput i s (heap r)\<rparr>, i))"

text \<open>\<^verbatim>\<open>r.sessions[id]\<close> under the registry lock: the session pointer, or nil.\<close>

definition lookup_session :: "Registry \<Rightarrow> uint \<Rightarrow> uint option" where
  "lookup_session r i = (if i \<in> set (live r) then Some i else None)"

text \<open>The part of \<^verbatim>\<open>Admit\<close> and \<^verbatim>\<open>InputPermit\<close> under the session lock, on a pointer
  looked up before.\<close>

definition admit_locked :: "Registry \<Rightarrow> uint \<Rightarrow> Registry \<times> bool" where
  "admit_locked r p =
     (case mget (heap r) p of
        None \<Rightarrow> (r, False)
      | Some s \<Rightarrow>
          if s_state s \<noteq> StatePreparing then (r, False)
          else (r\<lparr>heap := mput p (s\<lparr>s_state := StateReady\<rparr>) (heap r)\<rparr>, True))"

definition RAdmit :: "Registry \<Rightarrow> uint \<Rightarrow> Registry \<times> bool" where
  "RAdmit r i = (case lookup_session r i of None \<Rightarrow> (r, False) | Some p \<Rightarrow> admit_locked r p)"

definition permit_locked :: "Registry \<Rightarrow> uint \<Rightarrow> bool" where
  "permit_locked r p = (case mget (heap r) p of None \<Rightarrow> False | Some s \<Rightarrow> s_state s = StateReady)"

definition InputPermit :: "Registry \<Rightarrow> uint \<Rightarrow> bool" where
  "InputPermit r i = (case lookup_session r i of None \<Rightarrow> False | Some p \<Rightarrow> permit_locked r p)"

definition MarkDone :: "Session \<Rightarrow> Session" where
  "MarkDone s = s\<lparr>done_closed := True\<rparr>"

definition upd_session :: "uint \<Rightarrow> (Session \<Rightarrow> Session) \<Rightarrow> Registry \<Rightarrow> Registry" where
  "upd_session p f r =
     (case mget (heap r) p of None \<Rightarrow> r | Some s \<Rightarrow> r\<lparr>heap := mput p (f s) (heap r)\<rparr>)"

definition Done :: "Registry \<Rightarrow> uint \<Rightarrow> Registry" where
  "Done r i =
     (let r1 = r\<lparr>live := removeAll i (live r)\<rparr>
      in case lookup_session r i of None \<Rightarrow> r1 | Some p \<Rightarrow> upd_session p MarkDone r1)"

definition BeginCleanup :: "Session \<Rightarrow> time \<Rightarrow> duration \<Rightarrow> duration \<Rightarrow> Session \<times> time \<times> time" where
  "BeginCleanup s start gr bu =
     (let s' = (if IsZero (deadline s)
                then s\<lparr>graceDeadline := Add start gr, deadline := Add start bu\<rparr> else s)
      in (s', graceDeadline s', deadline s'))"

definition Force :: "Session \<Rightarrow> Session" where
  "Force s =
     (if forceOnce s then s
      else s\<lparr>forceOnce := True, force_calls := force_calls s + (if has_force s then 1 else 0)\<rparr>)"

definition windows :: "Registry \<Rightarrow> duration \<times> duration" where
  "windows r = (if grace r \<le> 0 then cleanupGrace else grace r,
                if budget r \<le> 0 then cleanupBudget else budget r)"

text \<open>\<^verbatim>\<open>MarkRevoked\<close>: the loop under the registry lock, then the cancellations.\<close>

definition mark_session :: "duration \<times> duration \<Rightarrow> time \<Rightarrow> Session \<Rightarrow> Session" where
  "mark_session w started s =
     (let s1 = s\<lparr>s_state := StateRevoked\<rparr>
      in if IsZero (deadline s1)
         then s1\<lparr>graceDeadline := Add started (fst w), deadline := Add started (snd w)\<rparr> else s1)"

definition cancel_session :: "Session \<Rightarrow> Session" where
  "cancel_session s = (if has_cancel s then s\<lparr>cancel_calls := cancel_calls s + 1\<rparr> else s)"

fun mark_loop :: "Registry \<Rightarrow> uint \<Rightarrow> time \<Rightarrow> uint list \<Rightarrow> Registry \<times> uint list" where
  "mark_loop r u started [] = (r, [])"
| "mark_loop r u started (i # is) =
     (case mget (heap r) i of
        None \<Rightarrow> mark_loop r u started is
      | Some s \<Rightarrow>
          if s_UserID s = u then
            let (r', hit) = mark_loop (upd_session i (mark_session (windows r) started) r) u started is
            in (r', i # hit)
          else mark_loop r u started is)"

definition MarkRevoked :: "Registry \<Rightarrow> uint \<Rightarrow> time \<Rightarrow> Registry \<times> uint list" where
  "MarkRevoked r u started =
     (let (r1, hit) = mark_loop r u started (live r)
      in (fold (\<lambda>i. upd_session i cancel_session) hit r1, hit))"

definition LiveCount :: "Registry \<Rightarrow> nat" where
  "LiveCount r = length (live r)"

text \<open>\<^verbatim>\<open>waitClosed\<close> entered at time \<open>t\<close>, for a \<^verbatim>\<open>done\<close> channel that closes at
  \<open>done_at\<close>: whether it saw the close, and when it returns.\<close>

definition waitClosed :: "time \<Rightarrow> duration \<Rightarrow> time option \<Rightarrow> bool \<times> time" where
  "waitClosed t d done_at =
     (let lim = (if d \<le> 0 then t else t + d)
      in case done_at of
           None \<Rightarrow> (False, lim)
         | Some x \<Rightarrow> if x \<le> lim then (True, max t x) else (False, lim))"

record settled =
  st_complete :: bool
  st_forced :: bool
  st_at :: time

text \<open>The worker of \<^verbatim>\<open>Await\<close> for one session, up to its call of \<^verbatim>\<open>Done\<close>.\<close>

definition await_one ::
  "duration \<times> duration \<Rightarrow> time \<Rightarrow> time option \<Rightarrow> Session \<Rightarrow> Session \<times> settled" where
  "await_one w t done_at s =
     (let (s1, graceAt, dl) = BeginCleanup s t (fst w) (snd w);
          (fin1, t1) = waitClosed t (Sub graceAt t) done_at
      in if fin1 then (s1, \<lparr>st_complete = True, st_forced = False, st_at = t1\<rparr>)
         else
           let s2 = Force s1;
               (fin2, t2) = waitClosed t1 (Sub dl t1) done_at
           in (s2, \<lparr>st_complete = fin2, st_forced = True, st_at = t2\<rparr>))"

record CleanupResult =
  Complete :: bool
  Forced :: nat
  Pending :: nat

text \<open>\<^verbatim>\<open>Await\<close> called at \<open>t\<close>: \<open>done_at\<close> says when each session's \<^verbatim>\<open>done\<close> channel
  closes. The workers run side by side and touch different sessions; the results are
  summed.\<close>

fun Await ::
  "Registry \<Rightarrow> time \<Rightarrow> (uint \<Rightarrow> time option) \<Rightarrow> uint list \<Rightarrow> Registry \<times> CleanupResult" where
  "Await r t done_at [] = (r, \<lparr>Complete = True, Forced = 0, Pending = 0\<rparr>)"
| "Await r t done_at (i # is) =
     (case mget (heap r) i of
        None \<Rightarrow> Await r t done_at is
      | Some s \<Rightarrow>
          let (s', res) = await_one (windows r) t (done_at i) s;
              r1 = upd_session i (\<lambda>_. s') r;
              r2 = (if st_complete res then Done r1 (s_ID s) else r1);
              (r3, c) = Await r2 t done_at is
          in (r3, \<lparr>Complete = (st_complete res \<and> Complete c),
                   Forced = (if st_forced res then Forced c + 1 else Forced c),
                   Pending = (if st_complete res then Pending c else Pending c + 1)\<rparr>))"

definition RevokeUser ::
  "Registry \<Rightarrow> uint \<Rightarrow> time \<Rightarrow> time \<Rightarrow> (uint \<Rightarrow> time option) \<Rightarrow> Registry \<times> nat" where
  "RevokeUser r u started t done_at =
     (let (r1, hit) = MarkRevoked r u started; (r2, _) = Await r1 t done_at hit
      in (r2, length hit))"

section \<open>Interleavings of the registry\<close>

text \<open>The state is the clock and the registry; every lock-protected section is a step.
  \<open>admit_locked\<close> may run on any session ever registered: its lookup may have happened long
  before.\<close>

inductive reg_step :: "time \<times> Registry \<Rightarrow> time \<times> Registry \<Rightarrow> bool" where
  reg_tick: "n \<le> n' \<Longrightarrow> reg_step (n, r) (n', r)"
| reg_register: "Register r u v can frc = (r', i) \<Longrightarrow> reg_step (n, r) (n, r')"
| reg_admit: "admit_locked r p = (r', ok) \<Longrightarrow> reg_step (n, r) (n, r')"
| reg_done: "reg_step (n, r) (n, Done r i)"
| reg_cleanup: "reg_step (n, r)
    (n, upd_session p (\<lambda>s. fst (BeginCleanup s n (fst (windows r)) (snd (windows r)))) r)"
| reg_force: "reg_step (n, r) (n, upd_session p Force r)"
| reg_revoke: "MarkRevoked r u n = (r', hit) \<Longrightarrow> reg_step (n, r) (n, r')"

definition reg_init :: "time \<times> Registry \<Rightarrow> bool" where
  "reg_init x = (0 \<le> fst x \<and> snd x = NewRegistry)"

section \<open>Revocation is final\<close>

definition sess_pred :: "(Session \<Rightarrow> bool) \<Rightarrow> uint \<Rightarrow> Registry \<Rightarrow> bool" where
  "sess_pred P i r = (case mget (heap r) i of None \<Rightarrow> False | Some s \<Rightarrow> P s)"

lemma mget_upd_session:
  "mget (heap (upd_session p f r)) i =
     (if i = p then map_option f (mget (heap r) p) else mget (heap r) i)"
  by (auto simp: upd_session_def gm_laws split: option.splits)

lemma upd_session_keeps [simp]:
  "live (upd_session p f r) = live r" "nxt (upd_session p f r) = nxt r"
  "grace (upd_session p f r) = grace r" "budget (upd_session p f r) = budget r"
  by (simp_all add: upd_session_def split: option.splits)

lemma windows_upd_session [simp]: "windows (upd_session p f r) = windows r"
  by (simp add: windows_def)

lemma windows_pos: "0 < fst (windows r)" "0 < snd (windows r)"
  by (auto simp: windows_def cleanupGrace_def cleanupBudget_def duration_units)

lemma sess_upd:
  "sess_pred P i r \<Longrightarrow> (\<And>s. p = i \<Longrightarrow> P s \<Longrightarrow> P (f s)) \<Longrightarrow> sess_pred P i (upd_session p f r)"
  by (auto simp: sess_pred_def mget_upd_session split: option.splits)

lemma sess_fold:
  "sess_pred P i r \<Longrightarrow> (\<And>s. P s \<Longrightarrow> P (f s)) \<Longrightarrow> sess_pred P i (fold (\<lambda>j. upd_session j f) js r)"
  by (induction js arbitrary: r) (auto intro: sess_upd)

lemma sess_mark_loop:
  "sess_pred P i r \<Longrightarrow> (\<And>s. P s \<Longrightarrow> P (mark_session (windows r) t s)) \<Longrightarrow>
   sess_pred P i (fst (mark_loop r u t is))"
proof (induction "is" arbitrary: r)
  case (Cons j js)
  have "sess_pred P i (upd_session j (mark_session (windows r) t) r)"
    using Cons.prems by (auto intro: sess_upd)
  then have "sess_pred P i (fst (mark_loop (upd_session j (mark_session (windows r) t) r) u t js))"
    using Cons.prems(2) by (intro Cons.IH) auto
  then show ?case using Cons by (auto split: option.splits prod.splits)
qed simp

lemma fold_upd_keeps [simp]:
  "live (fold (\<lambda>j. upd_session j f) js r) = live r" "nxt (fold (\<lambda>j. upd_session j f) js r) = nxt r"
  by (induction js arbitrary: r) auto

lemma mark_loop_keeps:
  "live (fst (mark_loop r u t is)) = live r \<and> nxt (fst (mark_loop r u t is)) = nxt r"
  by (induction "is" arbitrary: r) (auto split: option.splits prod.splits, (metis fst_conv upd_session_keeps)+)

lemma sess_mark_hit:
  assumes "i \<in> set is" and "sess_pred Q i r" and "\<And>s. Q s \<Longrightarrow> s_UserID s = u"
    and "\<And>s. Q s \<or> P s \<Longrightarrow> P (mark_session (windows r) t s)"
  shows "sess_pred P i (fst (mark_loop r u t is)) \<and> i \<in> set (snd (mark_loop r u t is))"
  using assms
proof (induction "is" arbitrary: r)
  case (Cons j js)
  let ?r = "upd_session j (mark_session (windows r) t) r"
  show ?case
  proof (cases "i = j")
    case True
    then obtain s where s: "mget (heap r) j = Some s" "Q s"
      using Cons.prems(2) by (auto simp: sess_pred_def split: option.splits)
    have "sess_pred P i ?r"
      using s True Cons.prems(4) by (simp add: sess_pred_def mget_upd_session)
    then have "sess_pred P i (fst (mark_loop ?r u t js))"
      using Cons.prems(4) by (intro sess_mark_loop) auto
    then show ?thesis using s True Cons.prems(3) by (auto split: prod.splits)
  next
    case False
    then have "i \<in> set js" using Cons.prems(1) by simp
    moreover have "sess_pred Q i ?r" using Cons.prems(2) False by (auto intro: sess_upd)
    ultimately show ?thesis
      using Cons.IH [of r] Cons.IH [of ?r] Cons.prems(2,3,4)
      by (auto split: option.splits prod.splits)
  qed
qed simp

definition revoked_at :: "time \<Rightarrow> time \<Rightarrow> Session \<Rightarrow> bool" where
  "revoked_at g d s = (s_state s = StateRevoked \<and> graceDeadline s = g \<and> deadline s = d \<and> d \<noteq> 0)"

lemma revoked_keeps:
  "revoked_at g d s \<Longrightarrow> revoked_at g d (MarkDone s)"
  "revoked_at g d s \<Longrightarrow> revoked_at g d (Force s)"
  "revoked_at g d s \<Longrightarrow> revoked_at g d (cancel_session s)"
  "revoked_at g d s \<Longrightarrow> revoked_at g d (mark_session w t s)"
  "revoked_at g d s \<Longrightarrow> revoked_at g d (fst (BeginCleanup s t a b))"
  by (auto simp: revoked_at_def MarkDone_def Force_def cancel_session_def mark_session_def
      BeginCleanup_def time_defs)

lemma revoked_step:
  assumes "reg_step x y" and "sess_pred (revoked_at g d) i (snd x)" and "i \<le> nxt (snd x)"
  shows "sess_pred (revoked_at g d) i (snd y) \<and> i \<le> nxt (snd y)"
  using assms
proof (induction rule: reg_step.induct)
  case (reg_register r u v can frc r' j n)
  then show ?case by (auto simp: Register_def Let_def sess_pred_def gm_laws)
next
  case (reg_admit r p r' ok n)
  then show ?case
    by (auto simp: admit_locked_def sess_pred_def revoked_at_def gm_laws split: option.splits if_splits)
next
  case (reg_done n r j)
  then have "sess_pred (revoked_at g d) i (r\<lparr>live := removeAll j (live r)\<rparr>)"
    by (simp add: sess_pred_def)
  then show ?case
    using reg_done
    by (auto simp: Done_def Let_def revoked_keeps split: option.splits intro!: sess_upd)
next
  case (reg_cleanup n r p)
  then show ?case by (auto simp: revoked_keeps intro!: sess_upd)
next
  case (reg_force n r p)
  then show ?case by (auto simp: revoked_keeps intro!: sess_upd)
next
  case (reg_revoke r u n r' hit)
  have "sess_pred (revoked_at g d) i (fst (mark_loop r u n (live r)))"
    using reg_revoke.prems(1) by (intro sess_mark_loop) (auto simp: revoked_keeps)
  then have "sess_pred (revoked_at g d) i r'"
    using reg_revoke
    by (auto simp: MarkRevoked_def revoked_keeps split: prod.splits intro!: sess_fold)
  moreover have "nxt r' = nxt r"
    using reg_revoke mark_loop_keeps [of r u n "live r"] by (auto simp: MarkRevoked_def split: prod.splits)
  ultimately show ?case using reg_revoke.prems by simp
qed simp

interpretation revoked: transition_system
  "\<lambda>x. sess_pred (revoked_at g d) i (snd x) \<and> i \<le> nxt (snd x)" reg_step
  "\<lambda>x. sess_pred (revoked_at g d) i (snd x) \<and> i \<le> nxt (snd x)" for g d i
  by unfold_locales (use revoked_step in auto)

definition sess_ok :: "time \<Rightarrow> uint \<Rightarrow> uint \<Rightarrow> Session \<Rightarrow> bool" where
  "sess_ok n nx i s =
     (s_ID s = i \<and> i \<le> nx \<and> graceDeadline s \<le> deadline s \<and> deadline s \<le> n + cleanupBudget)"

definition heap_ok :: "time \<Rightarrow> Registry \<Rightarrow> bool" where
  "heap_ok n r = (\<forall>i s. mget (heap r) i = Some s \<longrightarrow> sess_ok n (nxt r) i s)"

definition reg_inv :: "time \<times> Registry \<Rightarrow> bool" where
  "reg_inv x = (case x of (n, r) \<Rightarrow>
     0 \<le> n \<and> grace r = cleanupGrace \<and> budget r = cleanupBudget \<and> distinct (live r) \<and>
     (\<forall>i\<in>set (live r). mget (heap r) i \<noteq> None) \<and> heap_ok n r)"

lemmas cleanup_consts = cleanupGrace_def cleanupBudget_def duration_units

lemma heap_ok_upd:
  "heap_ok n r \<Longrightarrow> (\<And>i s. sess_ok n (nxt r) i s \<Longrightarrow> sess_ok n (nxt r) i (f s)) \<Longrightarrow> heap_ok n (upd_session p f r)"
  by (auto simp: heap_ok_def mget_upd_session split: if_splits)

lemma heap_ok_fold:
  "heap_ok n r \<Longrightarrow> (\<And>nx i s. sess_ok n nx i s \<Longrightarrow> sess_ok n nx i (f s)) \<Longrightarrow>
   heap_ok n (fold (\<lambda>j. upd_session j f) js r)"
  by (induction js arbitrary: r) (auto simp: heap_ok_upd)

lemma dom_fold_upd: "mget (heap (fold (\<lambda>j. upd_session j f) js r)) i = None \<longleftrightarrow> mget (heap r) i = None"
  by (induction js arbitrary: r) (auto simp: mget_upd_session split: if_splits)

lemma mark_session_ok:
  "0 \<le> n \<Longrightarrow> grace r = cleanupGrace \<Longrightarrow> budget r = cleanupBudget \<Longrightarrow> sess_ok n nx i s \<Longrightarrow>
   sess_ok n nx i (mark_session (windows r) n s)"
  by (auto simp: sess_ok_def mark_session_def windows_def time_defs Let_def cleanup_consts)

lemma mark_loop_inv:
  assumes "reg_inv (n, r)"
  shows "reg_inv (n, fst (mark_loop r u n is)) \<and> windows (fst (mark_loop r u n is)) = windows r"
  using assms
proof (induction "is" arbitrary: r)
  case (Cons j js)
  have "reg_inv (n, upd_session j (mark_session (windows r) n) r)"
    using Cons.prems
    by (auto simp: reg_inv_def mget_upd_session intro!: heap_ok_upd mark_session_ok)
  from Cons.IH [OF this] Cons.IH [OF Cons.prems] show ?case
    by (auto split: option.splits prod.splits)
qed simp

lemma MarkRevoked_inv:
  assumes "reg_inv (n, r)" and "MarkRevoked r u n = (r', hit)"
  shows "reg_inv (n, r')"
proof -
  obtain r1 where r1: "mark_loop r u n (live r) = (r1, hit)"
    and r': "r' = fold (\<lambda>i. upd_session i cancel_session) hit r1"
    using assms(2) by (auto simp: MarkRevoked_def split: prod.splits)
  have "reg_inv (n, r1)" using mark_loop_inv [OF assms(1), of u "live r"] r1 by simp
  moreover have "grace r' = grace r1" "budget r' = budget r1"
    unfolding r' by (induction hit arbitrary: r1) auto
  ultimately show ?thesis
    unfolding reg_inv_def r'
    by (auto simp: dom_fold_upd sess_ok_def cancel_session_def simp del: not_None_eq intro!: heap_ok_fold)
qed

lemma reg_inv_step: "reg_step x y \<Longrightarrow> reg_inv x \<Longrightarrow> reg_inv y"
proof (induction rule: reg_step.induct)
  case (reg_tick n n' r)
  then show ?case by (fastforce simp: reg_inv_def heap_ok_def sess_ok_def)
next
  case (reg_register r u v can frc r' i n)
  then show ?case
    by (fastforce simp: Register_def Let_def reg_inv_def heap_ok_def sess_ok_def gm_laws cleanup_consts
        split: if_splits)
next
  case (reg_admit r p r' ok n)
  then show ?case
    by (fastforce simp: admit_locked_def reg_inv_def heap_ok_def sess_ok_def gm_laws
        split: option.splits if_splits)
next
  case (reg_done n r i)
  then show ?case
    by (auto simp: Done_def Let_def reg_inv_def heap_ok_def sess_ok_def mget_upd_session MarkDone_def
        distinct_removeAll lookup_session_def)
next
  case (reg_cleanup n r p)
  then show ?case
    by (auto simp: reg_inv_def mget_upd_session sess_ok_def BeginCleanup_def windows_def time_defs
        cleanup_consts intro!: heap_ok_upd)
next
  case (reg_force n r p)
  then show ?case
    by (auto simp: reg_inv_def mget_upd_session sess_ok_def Force_def intro!: heap_ok_upd)
next
  case (reg_revoke r u n r' hit)
  then show ?case by (simp add: MarkRevoked_inv)
qed

interpretation regs: transition_system reg_init reg_step reg_inv
proof (unfold_locales, goal_cases)
  case (1 x)
  then show ?case by (cases x) (auto simp: reg_init_def reg_inv_def NewRegistry_def heap_ok_def)
qed (rule reg_inv_step)

text \<open>C9. Revocation is final. Once \<^verbatim>\<open>MarkRevoked\<close> has run for a user, no session the
  user had registered is ever admitted or permitted input again, in any interleaving of
  registrations, admissions (also those that looked the session up before), cleanups, further
  revocations and the passing of time, and its two cleanup deadlines keep the values they first
  had.\<close>

theorem revocation_final:
  assumes "reach reg_init reg_step (n, r)" and "MarkRevoked r u n = (r', hit)"
    and "i \<in> set (live r)" and "mget (heap r) i = Some s" and "s_UserID s = u"
    and "reg_step\<^sup>*\<^sup>* (n, r') (n'', r'')"
  shows "i \<in> set hit \<and> \<not> InputPermit r'' i \<and> \<not> permit_locked r'' i \<and>
    \<not> snd (RAdmit r'' i) \<and> \<not> snd (admit_locked r'' i) \<and>
    (\<exists>s''. mget (heap r'') i = Some s'' \<and> s_state s'' = StateRevoked \<and>
       deadline s'' = (if IsZero (deadline s) then n + cleanupBudget else deadline s) \<and>
       graceDeadline s'' = (if IsZero (deadline s) then n + cleanupGrace else graceDeadline s))"
proof -
  let ?d = "if IsZero (deadline s) then n + cleanupBudget else deadline s"
  let ?g = "if IsZero (deadline s) then n + cleanupGrace else graceDeadline s"
  let ?R = "revoked_at ?g ?d"
  have inv: "reg_inv (n, r)" using regs.reach_inv [OF assms(1)] .
  then have w: "windows r = (cleanupGrace, cleanupBudget)" "0 \<le> n" "i \<le> nxt r"
    using assms(4) by (auto simp: reg_inv_def windows_def cleanup_consts heap_ok_def sess_ok_def)
  have hit: "sess_pred ?R i (fst (mark_loop r u n (live r))) \<and> i \<in> set (snd (mark_loop r u n (live r)))"
    by (rule sess_mark_hit [OF assms(3), of "\<lambda>x. x = s"])
      (use assms(4,5) w in \<open>auto simp: sess_pred_def revoked_at_def mark_session_def time_defs cleanup_consts\<close>)
  then have r': "sess_pred ?R i r'" "i \<in> set hit"
    using assms(2) by (auto simp: MarkRevoked_def revoked_keeps split: prod.splits intro!: sess_fold)
  moreover have "nxt r' = nxt r"
    using assms(2) mark_loop_keeps [of r u n "live r"] by (auto simp: MarkRevoked_def split: prod.splits)
  ultimately have "sess_pred ?R i r''"
    using revoked.steps_inv [OF assms(6), of ?g ?d i] w by simp
  then obtain s'' where "mget (heap r'') i = Some s''" "?R s''"
    by (auto simp: sess_pred_def split: option.splits)
  then show ?thesis
    using r' by (auto simp: InputPermit_def permit_locked_def RAdmit_def admit_locked_def revoked_at_def
        lookup_session_def)
qed

definition reg_example :: Registry where
  "reg_example = fst (Register NewRegistry 5 1 True True)"

lemma reg_example_reach: "reach reg_init reg_step (10, reg_example)"
proof -
  have "reach reg_init reg_step (10, NewRegistry)" by (rule reach_init) (simp add: reg_init_def)
  moreover have "reg_step (10, NewRegistry) (10, reg_example)"
    unfolding reg_example_def
    by (rule reg_register [of _ 5 1 True True _ "snd (Register NewRegistry 5 1 True True)"]) simp
  ultimately show ?thesis by (rule reach_step)
qed

lemmas reg_eval = reg_example_def NewRegistry_def Register_def Let_def MarkRevoked_def upd_session_def
  mark_session_def cancel_session_def windows_def cleanup_consts gm_laws time_defs

theorem revocation_final_witness:
  "1 \<in> set (snd (MarkRevoked reg_example 5 10)) \<and>
   \<not> InputPermit (fst (MarkRevoked reg_example 5 10)) 1"
proof -
  obtain s where s: "mget (heap reg_example) 1 = Some s" "s_UserID s = 5"
    by (simp add: reg_eval)
  have "1 \<in> set (live reg_example)" by (simp add: reg_eval)
  from revocation_final [OF reg_example_reach _ this s,
      of "fst (MarkRevoked reg_example 5 10)" "snd (MarkRevoked reg_example 5 10)"]
  show ?thesis by auto
qed

section \<open>Waiting for revoked sessions\<close>

lemma waitClosed_until:
  assumes "dl - t \<le> max_int64"
  shows "fst (waitClosed t (Sub dl t) x) \<longleftrightarrow> (\<exists>y. x = Some y \<and> y \<le> max t dl)"
    and "snd (waitClosed t (Sub dl t) x) \<le> max t dl" and "t \<le> snd (waitClosed t (Sub dl t) x)"
  using assms
  by (auto simp: waitClosed_def Sub_def Let_def max_int64_def min_int64_def split: option.splits)

lemma waitClosed_expires:
  assumes "dl - t \<le> max_int64" and "\<not> fst (waitClosed t (Sub dl t) x)"
  shows "snd (waitClosed t (Sub dl t) x) = max t dl"
  using assms
  by (auto simp: waitClosed_def Sub_def Let_def max_int64_def min_int64_def split: option.splits if_splits)

lemma await_one_settles:
  assumes "deadline s \<noteq> 0" and "graceDeadline s \<le> deadline s" and "deadline s \<le> t + cleanupBudget"
    and "await_one w t x s = (s', res)"
  shows "st_complete res \<longleftrightarrow> (\<exists>y. x = Some y \<and> y \<le> max t (deadline s))"
    and "\<not> st_complete res \<Longrightarrow> st_forced res"
    and "st_at res \<le> max t (deadline s)"
    and "s_ID s' = s_ID s"
proof -
  let ?g = "graceDeadline s" and ?d = "deadline s"
  define a where "a = waitClosed t (Sub ?g t) x"
  define b where "b = waitClosed (snd a) (Sub ?d (snd a)) x"
  have B: "BeginCleanup s t (fst w) (snd w) = (s, ?g, ?d)"
    using assms(1) by (simp add: BeginCleanup_def time_defs)
  have g: "?g - t \<le> max_int64" using assms(2,3) by (simp add: max_int64_def cleanup_consts)
  note A = waitClosed_until [OF g, of x, folded a_def]
  have d: "?d - snd a \<le> max_int64" using assms(3) A(3) by (simp add: max_int64_def cleanup_consts)
  note Bd = waitClosed_until [OF d, of x, folded b_def]
  have eq: "(s', res) = (if fst a then (s, \<lparr>st_complete = True, st_forced = False, st_at = snd a\<rparr>)
    else (Force s, \<lparr>st_complete = fst b, st_forced = True, st_at = snd b\<rparr>))"
    using assms(4) B by (auto simp: await_one_def Let_def a_def b_def split: prod.splits)
  have e: "\<not> fst a \<Longrightarrow> snd a = max t ?g"
    using waitClosed_expires [OF g, of x] by (simp add: a_def)
  show "st_complete res \<longleftrightarrow> (\<exists>y. x = Some y \<and> y \<le> max t (deadline s))"
    using eq A(1) Bd(1) e assms(2) by (cases "fst a") (auto simp: max_def split: if_splits)
  show "\<not> st_complete res \<Longrightarrow> st_forced res" using eq by (auto split: if_splits)
  show "st_at res \<le> max t (deadline s)"
    using eq A(2) Bd(2) e assms(2) by (cases "fst a") auto
  show "s_ID s' = s_ID s" using eq by (auto simp: Force_def split: if_splits)
qed

definition waitable :: "time \<Rightarrow> uint \<Rightarrow> Session \<Rightarrow> bool" where
  "waitable t i s = (s_ID s = i \<and> deadline s \<noteq> 0 \<and> graceDeadline s \<le> deadline s \<and>
     deadline s \<le> t + cleanupBudget)"

text \<open>The owner reports before the session's frozen deadline (or has reported when the wait
  starts after it).\<close>

definition in_time :: "time \<Rightarrow> time option \<Rightarrow> Session \<Rightarrow> bool" where
  "in_time t x s = (case x of None \<Rightarrow> False | Some y \<Rightarrow> y \<le> max t (deadline s))"

lemma live_Done [simp]: "live (Done r i) = removeAll i (live r)"
  by (simp add: Done_def Let_def split: option.splits)

lemma windows_Done [simp]: "windows (Done r i) = windows r"
  by (simp add: Done_def Let_def windows_def split: option.splits)

lemma mget_Done_other: "j \<noteq> i \<Longrightarrow> mget (heap (Done r i)) j = mget (heap r) j"
  by (simp add: Done_def Let_def lookup_session_def mget_upd_session)

lemma Await_spec:
  assumes "distinct is" and "\<forall>i\<in>set is. sess_pred (waitable t i) i r"
    and "Await r t da is = (r2, c)"
  shows "(Complete c \<longleftrightarrow> Pending c = 0) \<and> Pending c \<le> Forced c \<and> Forced c \<le> length is \<and>
    Pending c = length (filter (\<lambda>i. \<not> sess_pred (in_time t (da i)) i r) is) \<and>
    set (live r2) = set (live r) - {i \<in> set is. sess_pred (in_time t (da i)) i r}"
  using assms
proof (induction "is" arbitrary: r r2 c)
  case (Cons i js)
  then obtain s where s: "mget (heap r) i = Some s" "waitable t i s"
    by (auto simp: sess_pred_def split: option.splits)
  obtain s' res where a: "await_one (windows r) t (da i) s = (s', res)" by (cases "await_one (windows r) t (da i) s")
  define r1 where "r1 = (if st_complete res then Done (upd_session i (\<lambda>_. s') r) (s_ID s)
                         else upd_session i (\<lambda>_. s') r)"
  obtain r3 c1 where w: "Await r1 t da js = (r3, c1)" by (cases "Await r1 t da js")
  have eq: "r2 = r3" "Complete c = (st_complete res \<and> Complete c1)"
    "Forced c = (if st_forced res then Forced c1 + 1 else Forced c1)"
    "Pending c = (if st_complete res then Pending c1 else Pending c1 + 1)"
    using Cons.prems(3) s a w by (auto simp: r1_def [symmetric] Let_def)
  have id: "s_ID s = i" using s(2) by (simp add: waitable_def)
  have same: "mget (heap r1) j = mget (heap r) j" if "j \<noteq> i" for j
    using that id by (simp add: r1_def mget_Done_other mget_upd_session)
  then have same': "sess_pred P j r1 = sess_pred P j r" if "j \<in> set js" for P j
    using that Cons.prems(1) by (metis sess_pred_def distinct.simps(2))
  have IH: "(Complete c1 \<longleftrightarrow> Pending c1 = 0) \<and> Pending c1 \<le> Forced c1 \<and> Forced c1 \<le> length js \<and>
    Pending c1 = length (filter (\<lambda>j. \<not> sess_pred (in_time t (da j)) j r1) js) \<and>
    set (live r3) = set (live r1) - {j \<in> set js. sess_pred (in_time t (da j)) j r1}"
    by (rule Cons.IH [OF _ _ w]) (use Cons.prems same' in auto)
  have st: "st_complete res = sess_pred (in_time t (da i)) i r" "\<not> st_complete res \<Longrightarrow> st_forced res"
    using await_one_settles [OF _ _ _ a] s
    by (auto simp: waitable_def sess_pred_def in_time_def split: option.splits)
  have f: "filter (\<lambda>j. \<not> sess_pred (in_time t (da j)) j r1) js =
    filter (\<lambda>j. \<not> sess_pred (in_time t (da j)) j r) js"
    using same' by (auto intro: filter_cong)
  have l: "set (live r1) = set (live r) - (if st_complete res then {i} else {})"
    using id by (simp add: r1_def)
  show ?case
    using IH st l same' Cons.prems(1) unfolding eq f by auto
qed auto

lemma mark_loop_hits:
  assumes "distinct is" and "mark_loop r u n is = (r', hit)"
  shows "distinct hit \<and> set hit \<subseteq> set is"
  using assms by (induction "is" arbitrary: r r' hit) (fastforce split: option.splits if_splits prod.splits)+

lemma mark_loop_deadline:
  assumes "reg_inv (n, r)" and "mark_loop r u n is = (r', hit)" and "i \<in> set hit"
  shows "sess_pred (\<lambda>s. deadline s \<noteq> 0) i r'"
  using assms
proof (induction "is" arbitrary: r r' hit)
  case (Cons j js)
  let ?r = "upd_session j (mark_session (windows r) n) r"
  have inv: "reg_inv (n, ?r)"
    using Cons.prems(1) by (auto simp: reg_inv_def mget_upd_session intro!: heap_ok_upd mark_session_ok)
  have keep: "sess_pred (\<lambda>s. deadline s \<noteq> 0) i (fst (mark_loop ?r u n js))"
    if "i = j" "mget (heap r) j = Some s" for s
  proof (rule sess_mark_loop)
    show "sess_pred (\<lambda>s. deadline s \<noteq> 0) i ?r"
      using that Cons.prems(1)
      by (auto simp: sess_pred_def mget_upd_session mark_session_def time_defs reg_inv_def
          windows_def cleanup_consts Let_def split: if_splits)
  qed (auto simp: mark_session_def time_defs)
  show ?case
    using Cons.prems(2,3) Cons.IH [OF Cons.prems(1)] Cons.IH [OF inv] keep
    by (auto split: option.splits if_splits prod.splits)
qed simp

lemma MarkRevoked_waitable:
  assumes "reg_inv (n, r)" and "MarkRevoked r u n = (r', hit)" and "n \<le> t"
  shows "distinct hit \<and> set hit \<subseteq> set (live r') \<and> (\<forall>i\<in>set hit. sess_pred (waitable t i) i r')"
proof -
  obtain r1 where r1: "mark_loop r u n (live r) = (r1, hit)"
    and r': "r' = fold (\<lambda>i. upd_session i cancel_session) hit r1"
    using assms(2) by (auto simp: MarkRevoked_def split: prod.splits)
  have inv: "reg_inv (n, r')" by (rule MarkRevoked_inv [OF assms(1,2)])
  have h: "distinct hit" "set hit \<subseteq> set (live r)"
    using mark_loop_hits [OF _ r1] assms(1) by (auto simp: reg_inv_def)
  have l: "live r' = live r" using mark_loop_keeps [of r u n "live r"] r1 by (simp add: r')
  have "sess_pred (waitable t i) i r'" if "i \<in> set hit" for i
  proof -
    have "sess_pred (\<lambda>s. deadline s \<noteq> 0) i r'"
      unfolding r' using mark_loop_deadline [OF assms(1) r1 that]
      by (rule sess_fold) (simp add: cancel_session_def)
    then show ?thesis
      using inv assms(3)
      by (fastforce simp: sess_pred_def reg_inv_def heap_ok_def sess_ok_def waitable_def split: option.splits)
  qed
  with h l show ?thesis by simp
qed

text \<open>C32. Waiting for revoked sessions is bounded and honest: called at \<open>t\<close> on the sessions
  a revocation at \<open>n\<close> returned, every worker is back by \<open>n\<close> plus the three-second budget (or
  at once, if that has passed), whatever the number of sessions; the result is complete exactly
  when nothing is pending; exactly the sessions whose owner reported before the frozen deadline
  leave the registry, the pending ones stay in it, and every pending one had been forced.\<close>

theorem await_bounded:
  assumes "reach reg_init reg_step (n, r)" and "MarkRevoked r u n = (r1, hit)" and "n \<le> t"
    and "Await r1 t da hit = (r2, c)"
  shows "(Complete c \<longleftrightarrow> Pending c = 0) \<and> Pending c \<le> Forced c \<and> Forced c \<le> length hit \<and>
    Pending c = length (filter (\<lambda>i. i \<in> set (live r2)) hit) \<and>
    set (live r2) = set (live r1) - {i \<in> set hit. sess_pred (in_time t (da i)) i r1} \<and>
    (\<forall>i\<in>set hit. \<forall>s. mget (heap r1) i = Some s \<longrightarrow>
       st_at (snd (await_one (windows r1) t (da i) s)) \<le> max t (n + cleanupBudget))"
proof -
  have inv: "reg_inv (n, r)" using regs.reach_inv [OF assms(1)] .
  note W = MarkRevoked_waitable [OF inv assms(2,3)]
  have S: "(Complete c \<longleftrightarrow> Pending c = 0) \<and> Pending c \<le> Forced c \<and> Forced c \<le> length hit \<and>
    Pending c = length (filter (\<lambda>i. \<not> sess_pred (in_time t (da i)) i r1) hit) \<and>
    set (live r2) = set (live r1) - {i \<in> set hit. sess_pred (in_time t (da i)) i r1}"
    by (rule Await_spec [OF _ _ assms(4)]) (use W in auto)
  have f: "filter (\<lambda>i. i \<in> set (live r2)) hit = filter (\<lambda>i. \<not> sess_pred (in_time t (da i)) i r1) hit"
    by (rule filter_cong [OF refl]) (use S W in auto)
  have "st_at (snd (await_one (windows r1) t (da i) s)) \<le> max t (n + cleanupBudget)"
    if "i \<in> set hit" "mget (heap r1) i = Some s" for i s
  proof -
    have "waitable t i s" using W that by (auto simp: sess_pred_def)
    then have "st_at (snd (await_one (windows r1) t (da i) s)) \<le> max t (deadline s)"
      using await_one_settles(3) [of s t "windows r1" "da i"]
      by (cases "await_one (windows r1) t (da i) s") (simp add: waitable_def)
    moreover have "deadline s \<le> n + cleanupBudget"
      using MarkRevoked_inv [OF inv assms(2)] that(2) by (auto simp: reg_inv_def heap_ok_def sess_ok_def)
    ultimately show ?thesis by linarith
  qed
  with S f show ?thesis by simp
qed

theorem await_bounded_witness:
  "Pending (snd (Await (fst (MarkRevoked reg_example 5 10)) 20 (\<lambda>_. None)
     (snd (MarkRevoked reg_example 5 10)))) = 1 \<and>
   1 \<in> set (live (fst (Await (fst (MarkRevoked reg_example 5 10)) 20 (\<lambda>_. None)
     (snd (MarkRevoked reg_example 5 10)))))"
proof -
  let ?m = "MarkRevoked reg_example 5 10"
  obtain r1 hit where m: "?m = (r1, hit)" by (cases ?m)
  obtain r2 c where a: "Await r1 20 (\<lambda>_. None) hit = (r2, c)" by (cases "Await r1 20 (\<lambda>_. None) hit")
  have "snd ?m = [1]" "set (live (fst ?m)) = {1}" by (simp_all add: reg_eval)
  then have h: "hit = [1]" "set (live r1) = {1}" by (simp_all add: m)
  have n: "\<not> sess_pred (in_time 20 None) i r1" for i
    by (simp add: sess_pred_def in_time_def split: option.splits)
  have l: "set (live r2) = {1}" and p: "Pending c = length (filter (\<lambda>i. i \<in> set (live r2)) hit)"
    using await_bounded [OF reg_example_reach m _ a] h(2) n by auto
  from p have "Pending c = 1" unfolding l h by simp
  with l show ?thesis unfolding m fst_conv snd_conv a by simp
qed

end
