(* ===== verification/Ssh_Pool.thy ===== *)
theory Ssh_Pool
  imports Talus_Prelude "HOL-Library.Word"
begin

text \<open>
  The pool of SSH transports (\<^verbatim>\<open>pkg/sshpool/pool.go\<close>).

  Entries and leases live on heaps (lists, a pointer is a position); \<open>conns\<close> is
  \<^verbatim>\<open>Pool.conns\<close>. Every section under \<^verbatim>\<open>Pool.mu\<close> or \<^verbatim>\<open>Lease.mu\<close> is one function on the
  pool; a goroutine inside \<^verbatim>\<open>acquireContext\<close>, \<^verbatim>\<open>finish\<close> or \<^verbatim>\<open>Close\<close> is a program counter
  \<open>pc\<close> that carries its local variables, and \<open>run_pc\<close> is its next section, given what the
  environment did (\<open>event\<close>: which case a select took, whether the context had expired, what the
  probe answered). \<open>pool_step\<close> interleaves any number of such goroutines.

  A transport is a number; \<open>gone\<close> lists the transports the pool has closed. \<open>quota\<close> is the
  sum of the deltas reported to the observer, per consumer label.
\<close>

section \<open>State\<close>

type_synonym conn = nat
type_synonym eid = nat
type_synonym lid = nat

datatype pool_error = ErrSlotTimeout | ErrClosed | ErrStaleLease | ErrCtx

record connEntry =
  e_client :: "conn option"
  e_fingerprint :: string
  e_generation :: "64 word"
  lastUsed :: time
  sem :: nat
  waiters :: nat

record Lease =
  l_Client :: "conn option"
  l_entry :: eid
  l_serverID :: uint
  l_generation :: "64 word"
  l_fingerprint :: string
  l_done :: bool
  l_cacheable :: bool
  l_legacy :: bool
  l_original :: "conn option"
  l_consumer :: string

record Pool =
  conns :: "(uint, eid) gomap"
  entries :: "connEntry list"
  lheap :: "Lease list"
  leases :: "lid list"
  legacy :: "(uint, lid list) gomap"
  maxIdle :: duration
  maxConns :: nat
  closed :: bool
  gone :: "conn list"
  observed :: bool
  quota :: "string \<Rightarrow> int \<times> int"

definition NewPool :: "duration \<Rightarrow> int \<Rightarrow> Pool" where
  "NewPool mi mc = \<lparr>conns = [], entries = [], lheap = [], leases = [], legacy = [], maxIdle = mi,
     maxConns = nat (if mc < 1 then 1 else mc), closed = False, gone = [], observed = False,
     quota = (\<lambda>_. (0, 0))\<rparr>"

text \<open>The two sums kept for a consumer are auxiliary: what the quota observer has been told, and
  what it was not told because none was installed.\<close>

abbreviation heard :: "Pool \<Rightarrow> string \<Rightarrow> int" where
  "heard p k \<equiv> fst (quota p k)"

abbreviation missed :: "Pool \<Rightarrow> string \<Rightarrow> int" where
  "missed p k \<equiv> snd (quota p k)"

abbreviation notified :: "Pool \<Rightarrow> string \<Rightarrow> int" where
  "notified p k \<equiv> heard p k + missed p k"

definition upd_entry :: "eid \<Rightarrow> (connEntry \<Rightarrow> connEntry) \<Rightarrow> Pool \<Rightarrow> Pool" where
  "upd_entry e f p = (if e < length (entries p) then p\<lparr>entries := (entries p)[e := f (entries p ! e)]\<rparr> else p)"

definition upd_lease :: "lid \<Rightarrow> (Lease \<Rightarrow> Lease) \<Rightarrow> Pool \<Rightarrow> Pool" where
  "upd_lease l f p = (if l < length (lheap p) then p\<lparr>lheap := (lheap p)[l := f (lheap p ! l)]\<rparr> else p)"

text \<open>\<^verbatim>\<open>if client != nil { client.Close() }\<close>\<close>

definition close_conn :: "conn option \<Rightarrow> Pool \<Rightarrow> Pool" where
  "close_conn c p = (case c of None \<Rightarrow> p | Some x \<Rightarrow> p\<lparr>gone := x # gone p\<rparr>)"

definition SetQuotaObserver :: "bool \<Rightarrow> Pool \<Rightarrow> Pool" where
  "SetQuotaObserver installed p = p\<lparr>observed := installed\<rparr>"

text \<open>\<^verbatim>\<open>notifyQuota\<close> reads the observer under the lock and calls it, when it is not
  \<^verbatim>\<open>nil\<close>, after the unlock: \<open>tell\<close> is the call, \<open>miss\<close> the way without one.\<close>

definition tell :: "string \<Rightarrow> int \<Rightarrow> Pool \<Rightarrow> Pool" where
  "tell c d p = p\<lparr>quota := (quota p)(c := (heard p c + d, missed p c))\<rparr>"

definition miss :: "string \<Rightarrow> int \<Rightarrow> Pool \<Rightarrow> Pool" where
  "miss c d p = p\<lparr>quota := (quota p)(c := (heard p c, missed p c + d))\<rparr>"

definition notifyQuota :: "string \<Rightarrow> int \<Rightarrow> Pool \<Rightarrow> Pool" where
  "notifyQuota c d p = (if observed p then tell c d p else miss c d p)"

text \<open>\<^verbatim>\<open><-entry.sem\<close>: receiving from an empty channel would block, which is \<open>None\<close>.\<close>

definition give_slot :: "eid \<Rightarrow> Pool \<Rightarrow> Pool option" where
  "give_slot e p =
     (if e < length (entries p) then
        (case chan_release (sem (entries p ! e)) of
           None \<Rightarrow> None
         | Some n \<Rightarrow> Some (upd_entry e (\<lambda>x. x\<lparr>sem := n\<rparr>) p))
      else None)"

text \<open>\<^verbatim>\<open>releaseSlot\<close> run without interruption; in the interleavings below its two halves are
  separate steps.\<close>

definition releaseSlot :: "eid \<Rightarrow> string \<Rightarrow> Pool \<Rightarrow> Pool option" where
  "releaseSlot e c p = map_option (notifyQuota c (-1)) (give_slot e p)"

section \<open>Acquiring\<close>

record acq =
  a_server :: uint
  a_entry :: eid
  a_gen :: "64 word"
  a_fp :: string
  a_fresh :: bool
  a_consumer :: string

text \<open>Lines 95--119: find or create the entry, retire it on a new fingerprint, become a
  waiter.\<close>

definition acquire_enter :: "Pool \<Rightarrow> uint \<Rightarrow> string \<Rightarrow> bool \<Rightarrow> string \<Rightarrow> pool_error + (Pool \<times> acq)" where
  "acquire_enter p sid fp fresh cons =
     (if closed p then Inl ErrClosed
      else
        let (p1, e) =
              (case mget (conns p) sid of
                 None \<Rightarrow>
                   (p\<lparr>entries := entries p @ [\<lparr>e_client = None, e_fingerprint = fp, e_generation = 1,
                        lastUsed = 0, sem = 0, waiters = 0\<rparr>],
                      conns := mput sid (length (entries p)) (conns p)\<rparr>, length (entries p))
               | Some e \<Rightarrow>
                   if e_fingerprint (entries p ! e) \<noteq> fp then
                     (close_conn (e_client (entries p ! e))
                        (upd_entry e (\<lambda>x. x\<lparr>e_client := None, e_fingerprint := fp,
                           e_generation := e_generation x + 1\<rparr>) p), e)
                   else (p, e));
            p2 = upd_entry e (\<lambda>x. x\<lparr>waiters := waiters x + 1\<rparr>) p1
        in Inr (p2, \<lparr>a_server = sid, a_entry = e, a_gen = e_generation (entries p2 ! e), a_fp = fp,
                     a_fresh = fresh, a_consumer = cons\<rparr>))"

text \<open>The select's first case, \<^verbatim>\<open>entry.sem <- struct{}{}\<close>; the observer is notified later, outside
  the select.\<close>

definition acquire_slot :: "acq \<Rightarrow> Pool \<Rightarrow> Pool option" where
  "acquire_slot a p =
     (if a_entry a < length (entries p) then
        (case chan_take (maxConns p) (sem (entries p ! a_entry a)) of
           None \<Rightarrow> None
         | Some n \<Rightarrow> Some (upd_entry (a_entry a) (\<lambda>x. x\<lparr>sem := n\<rparr>) p))
      else None)"

text \<open>The check made under the lock before and after the probe.\<close>

definition acquire_check :: "acq \<Rightarrow> bool \<Rightarrow> Pool \<Rightarrow> pool_error option" where
  "acquire_check a ctx_err p =
     (if ctx_err then Some ErrCtx
      else if closed p then Some ErrClosed
      else if e_generation (entries p ! a_entry a) \<noteq> a_gen a \<or> e_fingerprint (entries p ! a_entry a) \<noteq> a_fp a
      then Some ErrStaleLease
      else None)"

definition leave_waiters :: "acq \<Rightarrow> Pool \<Rightarrow> Pool" where
  "leave_waiters a p = upd_entry (a_entry a) (\<lambda>x. x\<lparr>waiters := waiters x - 1\<rparr>) p"

text \<open>Lines 156--158: take the cached transport out of the entry.\<close>

definition take_client :: "acq \<Rightarrow> time \<Rightarrow> Pool \<Rightarrow> Pool \<times> conn option" where
  "take_client a now p =
     (upd_entry (a_entry a) (\<lambda>x. x\<lparr>e_client := None, lastUsed := now\<rparr>) p, e_client (entries p ! a_entry a))"

definition new_lease :: "acq \<Rightarrow> conn option \<Rightarrow> Pool \<Rightarrow> Pool \<times> lid" where
  "new_lease a c p =
     (p\<lparr>lheap := lheap p @ [\<lparr>l_Client = c, l_entry = a_entry a, l_serverID = a_server a,
           l_generation = a_gen a, l_fingerprint = a_fp a, l_done = False, l_cacheable = True,
           l_legacy = False, l_original = None, l_consumer = a_consumer a\<rparr>],
        leases := leases p @ [length (lheap p)]\<rparr>, length (lheap p))"

section \<open>Leases\<close>

definition current :: "Lease \<Rightarrow> Pool \<Rightarrow> bool" where
  "current l p = (\<not> closed p \<and> mget (conns p) (l_serverID l) = Some (l_entry l) \<and>
     e_generation (entries p ! l_entry l) = l_generation l \<and>
     e_fingerprint (entries p ! l_entry l) = l_fingerprint l)"

definition Valid :: "lid \<Rightarrow> Pool \<Rightarrow> bool" where
  "Valid l p = (if l_done (lheap p ! l) then False else current (lheap p ! l) p)"

definition RebindFingerprint :: "lid \<Rightarrow> string \<Rightarrow> Pool \<Rightarrow> Pool \<times> bool" where
  "RebindFingerprint l fp p =
     (let ls = lheap p ! l
      in if l_done ls then (p, False)
         else if \<not> current ls p then (p, False)
         else if fp \<noteq> l_fingerprint ls then
           let en = entries p ! l_entry ls;
               p1 = upd_entry (l_entry ls) (\<lambda>x. x\<lparr>e_client := None, e_fingerprint := fp,
                      e_generation := e_generation x + 1\<rparr>) p;
               p2 = upd_lease l (\<lambda>x. x\<lparr>l_fingerprint := fp, l_generation := e_generation en + 1,
                      l_cacheable := False\<rparr>) p1
           in (close_conn (e_client en) p2, True)
         else (p, True))"

definition IsCurrent :: "uint \<Rightarrow> 64 word \<Rightarrow> Pool \<Rightarrow> bool" where
  "IsCurrent sid g p =
     (\<not> closed p \<and> (case mget (conns p) sid of None \<Rightarrow> False | Some e \<Rightarrow> e_generation (entries p ! e) = g))"

definition SetClient :: "lid \<Rightarrow> conn option \<Rightarrow> Pool \<Rightarrow> Pool" where
  "SetClient l c p =
     (let old = l_Client (lheap p ! l)
      in if l_done (lheap p ! l) then close_conn c p
         else if closed p then
           let p1 = close_conn old (upd_lease l (\<lambda>x. x\<lparr>l_Client := None\<rparr>) p)
           in if c \<noteq> old then close_conn c p1 else p1
         else
           let p1 = upd_lease l (\<lambda>x. x\<lparr>l_Client := c\<rparr>) p
           in if old \<noteq> c then close_conn old p1 else p1)"

text \<open>\<^verbatim>\<open>finish\<close>: the section under the lease lock, then the one under the pool lock.\<close>

definition finish_lease :: "lid \<Rightarrow> Pool \<Rightarrow> (Pool \<times> conn option) option" where
  "finish_lease l p =
     (if l_done (lheap p ! l) then None
      else Some (upd_lease l (\<lambda>x. x\<lparr>l_done := True, l_Client := None\<rparr>) p, l_Client (lheap p ! l)))"

definition legacy_put :: "uint \<Rightarrow> lid list \<Rightarrow> Pool \<Rightarrow> Pool" where
  "legacy_put sid ls p =
     p\<lparr>legacy := (if ls = [] then mdel sid (legacy p) else mput sid ls (legacy p))\<rparr>"

definition legacy_of :: "uint \<Rightarrow> Pool \<Rightarrow> lid list" where
  "legacy_of sid p = (case mget (legacy p) sid of None \<Rightarrow> [] | Some ls \<Rightarrow> ls)"

definition unregister :: "lid \<Rightarrow> Pool \<Rightarrow> Pool" where
  "unregister l p =
     (let ls = lheap p ! l; p1 = p\<lparr>leases := remove1 l (leases p)\<rparr>
      in if l_legacy ls then legacy_put (l_serverID ls) (remove1 l (legacy_of (l_serverID ls) p1)) p1 else p1)"

definition finish_pool :: "lid \<Rightarrow> bool \<Rightarrow> time \<Rightarrow> conn option \<Rightarrow> Pool \<Rightarrow> Pool \<times> conn option" where
  "finish_pool l discard now c p =
     (let ls = lheap p ! l; p2 = unregister l p
      in if \<not> discard \<and> l_cacheable ls \<and> current ls p2 \<and> e_client (entries p2 ! l_entry ls) = None
         then (upd_entry (l_entry ls) (\<lambda>x. x\<lparr>e_client := c, lastUsed := now\<rparr>) p2, None)
         else (p2, c))"

text \<open>\<^verbatim>\<open>finish\<close> run without interruption, with the release of the slot at its end.\<close>

definition finish :: "lid \<Rightarrow> bool \<Rightarrow> time \<Rightarrow> Pool \<Rightarrow> Pool option" where
  "finish l discard now p =
     (case finish_lease l p of
        None \<Rightarrow> Some p
      | Some (p1, c) \<Rightarrow>
          let (p2, c2) = finish_pool l discard now c p1
          in releaseSlot (l_entry (lheap p ! l)) (l_consumer (lheap p ! l)) (close_conn c2 p2))"

section \<open>Compatibility interface\<close>

definition legacy_taint :: "Lease \<Rightarrow> lid \<Rightarrow> lid \<Rightarrow> Pool \<Rightarrow> Pool" where
  "legacy_taint ls l k p =
     (if l_original (lheap p ! k) = None \<and>
         (l_entry (lheap p ! k) \<noteq> l_entry ls \<or> l_generation (lheap p ! k) \<noteq> l_generation ls)
      then upd_lease k (\<lambda>x. x\<lparr>l_cacheable := False\<rparr>) (upd_lease l (\<lambda>x. x\<lparr>l_cacheable := False\<rparr>) p)
      else p)"

definition LegacyClient :: "lid \<Rightarrow> Pool \<Rightarrow> Pool \<times> conn option" where
  "LegacyClient l p =
     (let ls = lheap p ! l
      in if l_done ls then (p, None)
         else if l_legacy ls then (p, l_Client ls)
         else
           let p1 = upd_lease l (\<lambda>x. x\<lparr>l_legacy := True, l_original := l_Client x\<rparr>) p;
               pend = legacy_of (l_serverID ls) p;
               p2 = (if l_Client ls = None then fold (legacy_taint ls l) pend p1 else p1)
           in (p2\<lparr>legacy := mput (l_serverID ls) (pend @ [l]) (legacy p2)\<rparr>, l_Client ls))"

definition legacyLease :: "uint \<Rightarrow> conn option \<Rightarrow> Pool \<Rightarrow> Pool \<times> lid option" where
  "legacyLease sid c p =
     (let pend = legacy_of sid p;
          same = (case c of None \<Rightarrow> None | Some x \<Rightarrow> find (\<lambda>k. l_original (lheap p ! k) = Some x) pend);
          pick = (case same of Some k \<Rightarrow> Some k | None \<Rightarrow> find (\<lambda>k. l_original (lheap p ! k) = None) pend)
      in case pick of
           None \<Rightarrow> (p, None)
         | Some k \<Rightarrow> (legacy_put sid (remove1 k pend) p, Some k))"

text \<open>\<^verbatim>\<open>Pool.Release\<close> (\<open>discard = False\<close>) and \<^verbatim>\<open>Pool.Discard\<close>.\<close>

definition return_client :: "uint \<Rightarrow> conn option \<Rightarrow> bool \<Rightarrow> time \<Rightarrow> Pool \<Rightarrow> Pool option" where
  "return_client sid c discard now p =
     (let (p1, k) = legacyLease sid c p
      in case k of
           None \<Rightarrow> Some (close_conn c p1)
         | Some l \<Rightarrow> finish l discard now (SetClient l c p1))"

section \<open>Retiring\<close>

definition Invalidate :: "uint \<Rightarrow> Pool \<Rightarrow> Pool" where
  "Invalidate sid p =
     (case mget (conns p) sid of
        None \<Rightarrow> p
      | Some e \<Rightarrow>
          close_conn (e_client (entries p ! e))
            (upd_entry e (\<lambda>x. x\<lparr>e_client := None, e_fingerprint := [],
               e_generation := e_generation x + 1\<rparr>) p))"

definition close_entry :: "eid \<Rightarrow> Pool \<Rightarrow> Pool" where
  "close_entry e p = close_conn (e_client (entries p ! e)) (upd_entry e (\<lambda>x. x\<lparr>e_client := None\<rparr>) p)"

text \<open>The section of \<^verbatim>\<open>Close\<close> under the lock and the closing of the idle transports; the
  active leases are left to the loop that follows.\<close>

definition Close :: "Pool \<Rightarrow> Pool \<times> lid list" where
  "Close p =
     (if closed p then (p, [])
      else ((fold close_entry (map snd (conns p)) p)\<lparr>closed := True, conns := []\<rparr>, leases p))"

definition close_lease :: "lid \<Rightarrow> Pool \<Rightarrow> Pool" where
  "close_lease l p = close_conn (l_Client (lheap p ! l)) p"

text \<open>\<open>rt\<close> is the configured \<^verbatim>\<open>SSHMaxIdle\<close> in seconds, when a runtime configuration is
  wired.\<close>

definition idleLimit :: "int option \<Rightarrow> Pool \<Rightarrow> duration" where
  "idleLimit rt p = (case rt of Some s \<Rightarrow> wrap64 (s * second) | None \<Rightarrow> maxIdle p)"

definition evict_entry :: "int option \<Rightarrow> time \<Rightarrow> uint \<times> eid \<Rightarrow> Pool \<Rightarrow> Pool" where
  "evict_entry rt now = (\<lambda>(sid, e) p.
     let p1 = (if e_client (entries p ! e) \<noteq> None \<and> idleLimit rt p < Sub now (lastUsed (entries p ! e))
               then close_entry e p else p);
         en = entries p1 ! e
     in if e_client en = None \<and> sem en = 0 \<and> waiters en = 0 then p1\<lparr>conns := mdel sid (conns p1)\<rparr> else p1)"

definition evict :: "int option \<Rightarrow> time \<Rightarrow> Pool \<Rightarrow> Pool" where
  "evict rt now p = fold (evict_entry rt now) (conns p) p"

section \<open>Goroutines\<close>

text \<open>\<open>ATook\<close> holds a slot it has not reported, \<open>FTell\<close> has given one back and not reported
  that; their flag says that the observer was read and found installed, so that only its call is left.
  \<open>FRelease\<close> is about to give its slot back, to return the error it carries, if any.\<close>

datatype pc =
    AWait acq
  | ATook acq bool
  | AGot acq "pool_error option"
  | AProbe acq "conn option"
  | ACommit acq "conn option"
  | FLock lid uint eid string bool "conn option"
  | FRelease uint eid string "conn option" "pool_error option"
  | FTell string "pool_error option" bool
  | CLeases "lid list"
  | Returned "pool_error option" "lid option"

datatype event = EvSlot | EvTimeout | EvCtx | EvPoolDone | EvProbe bool | EvLock time bool | EvObserver

definition give_up :: "acq \<Rightarrow> conn option \<Rightarrow> pool_error \<Rightarrow> pc" where
  "give_up a c err = FRelease (a_server a) (a_entry a) (a_consumer a) c (Some err)"

fun run_pc :: "event \<Rightarrow> pc \<Rightarrow> Pool \<Rightarrow> (Pool \<times> pc) option" where
  "run_pc EvSlot (AWait a) p = map_option (\<lambda>q. (q, ATook a False)) (acquire_slot a p)"
| "run_pc EvTimeout (AWait a) p = Some (p, AGot a (Some ErrSlotTimeout))"
| "run_pc EvCtx (AWait a) p = Some (p, AGot a (Some ErrCtx))"
| "run_pc EvPoolDone (AWait a) p = (if closed p then Some (p, AGot a (Some ErrClosed)) else None)"
| "run_pc (EvLock now ctx_err) (ATook a False) p =
     (if observed p then Some (p, ATook a True) else Some (miss (a_consumer a) 1 p, AGot a None))"
| "run_pc EvObserver (ATook a True) p = Some (tell (a_consumer a) 1 p, AGot a None)"
| "run_pc (EvLock now ctx_err) (AGot a err) p =
     (let p1 = leave_waiters a p
      in case err of
           Some e \<Rightarrow> Some (p1, Returned (Some e) None)
         | None \<Rightarrow>
             (case acquire_check a ctx_err p1 of
                Some e \<Rightarrow> Some (p1, give_up a None e)
              | None \<Rightarrow>
                  let (p2, c) = take_client a now p1
                  in if c = None then Some (p2, ACommit a None)
                     else if a_fresh a then Some (close_conn c p2, ACommit a None)
                     else Some (p2, AProbe a c)))"
| "run_pc (EvProbe healthy) (AProbe a c) p =
     (if healthy then Some (p, ACommit a c) else Some (close_conn c p, ACommit a None))"
| "run_pc EvCtx (AProbe a c) p = Some (p, give_up a c ErrCtx)"
| "run_pc EvPoolDone (AProbe a c) p = (if closed p then Some (p, give_up a c ErrClosed) else None)"
| "run_pc (EvLock now ctx_err) (ACommit a c) p =
     (case acquire_check a ctx_err p of
        Some e \<Rightarrow> Some (p, give_up a c e)
      | None \<Rightarrow> let (p1, l) = new_lease a c p in Some (p1, Returned None (Some l)))"
| "run_pc (EvLock now ctx_err) (FLock l sid e cons discard c) p =
     (let (p1, c1) = finish_pool l discard now c p in Some (p1, FRelease sid e cons c1 None))"
| "run_pc EvSlot (FRelease sid e cons c err) p =
     map_option (\<lambda>q. (q, FTell cons err False)) (give_slot e (close_conn c p))"
| "run_pc (EvLock now ctx_err) (FTell cons err False) p =
     (if observed p then Some (p, FTell cons err True) else Some (miss cons (-1) p, Returned err None))"
| "run_pc EvObserver (FTell cons err True) p = Some (tell cons (-1) p, Returned err None)"
| "run_pc (EvLock now ctx_err) (CLeases []) p = Some (p, Returned None None)"
| "run_pc (EvLock now ctx_err) (CLeases (l # ls)) p = Some (close_lease l p, CLeases ls)"
| "run_pc _ _ p = None"

section \<open>Interleavings\<close>

record pool_sys =
  pl :: Pool
  thr :: "pc list"

fun pc_slot :: "pc \<Rightarrow> (uint \<times> eid \<times> string) option" where
  "pc_slot (ATook a b) = Some (a_server a, a_entry a, a_consumer a)"
| "pc_slot (AGot a None) = Some (a_server a, a_entry a, a_consumer a)"
| "pc_slot (AProbe a c) = Some (a_server a, a_entry a, a_consumer a)"
| "pc_slot (ACommit a c) = Some (a_server a, a_entry a, a_consumer a)"
| "pc_slot (FLock l sid e cons d c) = Some (sid, e, cons)"
| "pc_slot (FRelease sid e cons c err) = Some (sid, e, cons)"
| "pc_slot _ = None"

fun pc_wait :: "pc \<Rightarrow> (uint \<times> eid) option" where
  "pc_wait (AWait a) = Some (a_server a, a_entry a)"
| "pc_wait (ATook a b) = Some (a_server a, a_entry a)"
| "pc_wait (AGot a err) = Some (a_server a, a_entry a)"
| "pc_wait _ = None"

fun pc_client :: "pc \<Rightarrow> conn option" where
  "pc_client (AProbe a c) = c"
| "pc_client (ACommit a c) = c"
| "pc_client (FLock l sid e cons d c) = c"
| "pc_client (FRelease sid e cons c err) = c"
| "pc_client _ = None"

text \<open>The reports under way: slots taken and given back that were not yet reported.\<close>

fun pc_up :: "pc \<Rightarrow> string option" where
  "pc_up (ATook a b) = Some (a_consumer a)"
| "pc_up _ = None"

fun pc_down :: "pc \<Rightarrow> string option" where
  "pc_down (FTell cons err b) = Some cons"
| "pc_down _ = None"

definition lease_slot :: "Lease \<Rightarrow> (uint \<times> eid \<times> string) option" where
  "lease_slot l = (if l_done l then None else Some (l_serverID l, l_entry l, l_consumer l))"

text \<open>How many hold a slot satisfying \<open>P\<close>, how many wait at an entry, how many places own a
  transport.\<close>

definition sat :: "('s \<Rightarrow> bool) \<Rightarrow> 's option \<Rightarrow> bool" where
  "sat P x = (case x of None \<Rightarrow> False | Some y \<Rightarrow> P y)"

definition holders :: "(uint \<times> eid \<times> string \<Rightarrow> bool) \<Rightarrow> pool_sys \<Rightarrow> nat" where
  "holders P S = count_if (\<lambda>pc. sat P (pc_slot pc)) (thr S) + count_if (\<lambda>l. sat P (lease_slot l)) (lheap (pl S))"

definition rising :: "string \<Rightarrow> pool_sys \<Rightarrow> nat" where
  "rising k S = count_if (\<lambda>pc. pc_up pc = Some k) (thr S)"

definition falling :: "string \<Rightarrow> pool_sys \<Rightarrow> nat" where
  "falling k S = count_if (\<lambda>pc. pc_down pc = Some k) (thr S)"

definition waiters_at :: "eid \<Rightarrow> pool_sys \<Rightarrow> nat" where
  "waiters_at e S = count_if (\<lambda>pc. sat (\<lambda>w. snd w = e) (pc_wait pc)) (thr S)"

definition owners :: "conn \<Rightarrow> pool_sys \<Rightarrow> nat" where
  "owners c S = count_if (\<lambda>e. e_client e = Some c) (entries (pl S)) +
     count_if (\<lambda>pc. pc_client pc = Some c) (thr S) + count_if (\<lambda>l. l_Client l = Some c) (lheap (pl S))"

text \<open>The caller of \<^verbatim>\<open>SetClient\<close> hands over a transport nobody in the pool knows, or the
  one the lease already has; a transport given to \<^verbatim>\<open>Pool.Release\<close> that matches no lease is the
  caller's own.\<close>

inductive pool_step :: "pool_sys \<Rightarrow> pool_sys \<Rightarrow> bool" where
  p_acquire: "acquire_enter (pl S) sid fp fresh cons = Inr (p', a) \<Longrightarrow>
    pool_step S \<lparr>pl = p', thr = thr S @ [AWait a]\<rparr>"
| p_run: "i < length (thr S) \<Longrightarrow> run_pc ev (thr S ! i) (pl S) = Some (p', pc') \<Longrightarrow>
    pool_step S \<lparr>pl = p', thr = (thr S)[i := pc']\<rparr>"
| p_finish: "l < length (lheap (pl S)) \<Longrightarrow> finish_lease l (pl S) = Some (p', c) \<Longrightarrow>
    pool_step S \<lparr>pl = p', thr = thr S @ [FLock l (l_serverID (lheap (pl S) ! l)) (l_entry (lheap (pl S) ! l))
      (l_consumer (lheap (pl S) ! l)) discard c]\<rparr>"
| p_set: "l < length (lheap (pl S)) \<Longrightarrow>
    c = None \<or> c = l_Client (lheap (pl S) ! l) \<or> (owners (the c) S = 0 \<and> the c \<notin> set (gone (pl S))) \<Longrightarrow>
    pool_step S \<lparr>pl = SetClient l c (pl S), thr = thr S\<rparr>"
| p_rebind: "l < length (lheap (pl S)) \<Longrightarrow> RebindFingerprint l fp (pl S) = (p', ok) \<Longrightarrow>
    pool_step S \<lparr>pl = p', thr = thr S\<rparr>"
| p_observe: "pool_step S \<lparr>pl = SetQuotaObserver b (pl S), thr = thr S\<rparr>"
| p_invalidate: "pool_step S \<lparr>pl = Invalidate sid (pl S), thr = thr S\<rparr>"
| p_evict: "pool_step S \<lparr>pl = evict rt now (pl S), thr = thr S\<rparr>"
| p_close: "Close (pl S) = (p', ls) \<Longrightarrow> pool_step S \<lparr>pl = p', thr = thr S @ [CLeases ls]\<rparr>"
| p_legacy: "l < length (lheap (pl S)) \<Longrightarrow> LegacyClient l (pl S) = (p', c) \<Longrightarrow> pool_step S \<lparr>pl = p', thr = thr S\<rparr>"
| p_legacy_take: "legacyLease sid c (pl S) = (p', Some l) \<Longrightarrow> pool_step S \<lparr>pl = p', thr = thr S\<rparr>"
| p_legacy_none: "legacyLease sid (Some c) (pl S) = (p', None) \<Longrightarrow> owners c S = 0 \<Longrightarrow>
    pool_step S \<lparr>pl = close_conn (Some c) p', thr = thr S\<rparr>"

definition pool_init :: "pool_sys \<Rightarrow> bool" where
  "pool_init S = (\<exists>mi mc. S = \<lparr>pl = NewPool mi mc, thr = []\<rparr>)"

section \<open>Invariant\<close>

definition on_entry :: "eid \<Rightarrow> uint \<times> eid \<times> string \<Rightarrow> bool" where
  "on_entry e = (\<lambda>(sid, e', cons). e' = e)"

definition by_consumer :: "string \<Rightarrow> uint \<times> eid \<times> string \<Rightarrow> bool" where
  "by_consumer k = (\<lambda>(sid, e, cons). cons = k)"

definition placed :: "Pool \<Rightarrow> uint \<Rightarrow> eid \<Rightarrow> bool" where
  "placed p sid e = (e < length (entries p) \<and> (\<not> closed p \<longrightarrow> mget (conns p) sid = Some e))"

definition inv_shape :: "pool_sys \<Rightarrow> bool" where
  "inv_shape S = (let p = pl S in
     0 < maxConns p \<and> mok (conns p) \<and> (\<forall>sid e. mget (conns p) sid = Some e \<longrightarrow> e < length (entries p)) \<and>
     (closed p \<longrightarrow> conns p = []) \<and> (\<forall>ls. CLeases ls \<in> set (thr S) \<longrightarrow> closed p) \<and>
     (\<forall>pc\<in>set (thr S). \<forall>sid e k. pc_slot pc = Some (sid, e, k) \<longrightarrow> placed p sid e) \<and>
     (\<forall>pc\<in>set (thr S). \<forall>sid e. pc_wait pc = Some (sid, e) \<longrightarrow> placed p sid e) \<and>
     (\<forall>l\<in>set (lheap p). \<forall>sid e k. lease_slot l = Some (sid, e, k) \<longrightarrow> placed p sid e))"

definition inv_slots :: "pool_sys \<Rightarrow> bool" where
  "inv_slots S = (let p = pl S in
     (\<forall>e<length (entries p). sem (entries p ! e) = holders (on_entry e) S \<and>
        sem (entries p ! e) \<le> maxConns p \<and> waiters (entries p ! e) = waiters_at e S) \<and>
     (\<forall>k. notified p k = int (holders (by_consumer k) S) - int (rising k S) + int (falling k S)))"

definition inv_clients :: "pool_sys \<Rightarrow> bool" where
  "inv_clients S = (let p = pl S in
     (\<forall>e<length (entries p). (\<forall>sid. mget (conns p) sid \<noteq> Some e) \<longrightarrow> e_client (entries p ! e) = None) \<and>
     (\<forall>c. owners c S \<le> 1) \<and> (\<not> closed p \<longrightarrow> (\<forall>c\<in>set (gone p). owners c S = 0)) \<and>
     (\<forall>l\<in>set (lheap p). l_done l \<longrightarrow> l_Client l = None))"

section \<open>Effects of the sections\<close>

lemma upd_entry_fields [simp]:
  "conns (upd_entry e f p) = conns p" "lheap (upd_entry e f p) = lheap p"
  "leases (upd_entry e f p) = leases p" "legacy (upd_entry e f p) = legacy p"
  "maxConns (upd_entry e f p) = maxConns p" "closed (upd_entry e f p) = closed p"
  "gone (upd_entry e f p) = gone p" "quota (upd_entry e f p) = quota p"
  "length (entries (upd_entry e f p)) = length (entries p)" "maxIdle (upd_entry e f p) = maxIdle p"
  by (simp_all add: upd_entry_def)

lemma upd_lease_fields [simp]:
  "conns (upd_lease l f p) = conns p" "entries (upd_lease l f p) = entries p"
  "leases (upd_lease l f p) = leases p" "legacy (upd_lease l f p) = legacy p"
  "maxConns (upd_lease l f p) = maxConns p" "closed (upd_lease l f p) = closed p"
  "gone (upd_lease l f p) = gone p" "quota (upd_lease l f p) = quota p"
  "length (lheap (upd_lease l f p)) = length (lheap p)" "maxIdle (upd_lease l f p) = maxIdle p"
  by (simp_all add: upd_lease_def)

lemma close_conn_fields [simp]:
  "conns (close_conn c p) = conns p" "entries (close_conn c p) = entries p"
  "lheap (close_conn c p) = lheap p" "leases (close_conn c p) = leases p"
  "legacy (close_conn c p) = legacy p" "maxConns (close_conn c p) = maxConns p"
  "closed (close_conn c p) = closed p" "quota (close_conn c p) = quota p"
  "set (gone (close_conn c p)) = set_option c \<union> set (gone p)" "maxIdle (close_conn c p) = maxIdle p"
  by (auto simp: close_conn_def split: option.splits)

lemma tell_fields [simp]:
  "conns (tell k d p) = conns p" "entries (tell k d p) = entries p"
  "lheap (tell k d p) = lheap p" "leases (tell k d p) = leases p"
  "maxConns (tell k d p) = maxConns p" "closed (tell k d p) = closed p" "gone (tell k d p) = gone p"
  "heard (tell k d p) j = heard p j + (if j = k then d else 0)" "missed (tell k d p) j = missed p j"
  by (simp_all add: tell_def)

lemma miss_fields [simp]:
  "conns (miss k d p) = conns p" "entries (miss k d p) = entries p"
  "lheap (miss k d p) = lheap p" "leases (miss k d p) = leases p"
  "maxConns (miss k d p) = maxConns p" "closed (miss k d p) = closed p" "gone (miss k d p) = gone p"
  "missed (miss k d p) j = missed p j + (if j = k then d else 0)" "heard (miss k d p) j = heard p j"
  by (simp_all add: miss_def)

lemma notifyQuota_fields [simp]:
  "conns (notifyQuota k d p) = conns p" "entries (notifyQuota k d p) = entries p"
  "lheap (notifyQuota k d p) = lheap p" "leases (notifyQuota k d p) = leases p"
  "maxConns (notifyQuota k d p) = maxConns p" "closed (notifyQuota k d p) = closed p"
  "gone (notifyQuota k d p) = gone p"
  by (simp_all add: notifyQuota_def)

lemma reports_same [simp]:
  "rising k \<lparr>pl = p, thr = thr S\<rparr> = rising k S" "falling k \<lparr>pl = p, thr = thr S\<rparr> = falling k S"
  by (simp_all add: rising_def falling_def)

lemma reports_more [simp]:
  "rising k \<lparr>pl = p, thr = thr S @ [pc]\<rparr> = rising k S + of_bool (pc_up pc = Some k)"
  "falling k \<lparr>pl = p, thr = thr S @ [pc]\<rparr> = falling k S + of_bool (pc_down pc = Some k)"
  by (simp_all add: rising_def falling_def)

lemma nth_upd_entry:
  "k < length (entries p) \<Longrightarrow> entries (upd_entry e f p) ! k = (if k = e then f (entries p ! k) else entries p ! k)"
  by (auto simp: upd_entry_def)

lemma count_upd_entry:
  "e < length (entries p) \<Longrightarrow> count_if P (entries (upd_entry e f p)) + (if P (entries p ! e) then 1 else 0) =
     count_if P (entries p) + (if P (f (entries p ! e)) then 1 else 0)"
  by (simp add: upd_entry_def count_if_update)

lemma count_upd_entry_same:
  "(\<And>x. P (f x) = P x) \<Longrightarrow> count_if P (entries (upd_entry e f p)) = count_if P (entries p)"
  using count_upd_entry [of e p P f] by (cases "e < length (entries p)") (auto simp: upd_entry_def split: if_splits)

lemma give_slot_effect:
  assumes "give_slot e p = Some p'"
  shows "e < length (entries p)" "length (entries p') = length (entries p)" "conns p' = conns p"
    "closed p' = closed p" "maxConns p' = maxConns p" "lheap p' = lheap p" "leases p' = leases p"
    "gone p' = gone p" "quota p' = quota p"
    "i < length (entries p) \<Longrightarrow> sem (entries p ! i) = sem (entries p' ! i) + (if i = e then 1 else 0)"
    "i < length (entries p) \<Longrightarrow> waiters (entries p' ! i) = waiters (entries p ! i)"
    "i < length (entries p) \<Longrightarrow> e_client (entries p' ! i) = e_client (entries p ! i)"
    "count_if (\<lambda>x. e_client x = c) (entries p') = count_if (\<lambda>x. e_client x = c) (entries p)"
  using assms
  by (auto simp: give_slot_def nth_upd_entry chan_release_def count_upd_entry_same
      split: if_splits option.splits nat.splits)

lemma acquire_slot_effect:
  assumes "acquire_slot a p = Some p'"
  shows "a_entry a < length (entries p)" "length (entries p') = length (entries p)" "conns p' = conns p"
    "closed p' = closed p" "maxConns p' = maxConns p" "lheap p' = lheap p" "leases p' = leases p"
    "gone p' = gone p" "quota p' = quota p"
    "sem (entries p ! a_entry a) < maxConns p"
    "i < length (entries p) \<Longrightarrow> sem (entries p' ! i) = sem (entries p ! i) + (if i = a_entry a then 1 else 0)"
    "i < length (entries p) \<Longrightarrow> waiters (entries p' ! i) = waiters (entries p ! i)"
    "i < length (entries p) \<Longrightarrow> e_client (entries p' ! i) = e_client (entries p ! i)"
    "count_if (\<lambda>x. e_client x = c) (entries p') = count_if (\<lambda>x. e_client x = c) (entries p)"
  using assms
  by (auto simp: acquire_slot_def nth_upd_entry chan_take_def count_upd_entry_same
      split: if_splits option.splits)

text \<open>The fields no section of a goroutine changes, and the lease a goroutine may create.\<close>

definition frame :: "Pool \<Rightarrow> Pool \<Rightarrow> bool" where
  "frame p p' = (conns p' = conns p \<and> closed p' = closed p \<and> maxConns p' = maxConns p \<and>
     length (entries p') = length (entries p))"

lemma frame_placed: "frame p p' \<Longrightarrow> placed p' = placed p"
  by (simp add: frame_def placed_def fun_eq_iff)

lemma unregister_fields [simp]:
  "conns (unregister l p) = conns p" "entries (unregister l p) = entries p"
  "lheap (unregister l p) = lheap p" "maxConns (unregister l p) = maxConns p"
  "closed (unregister l p) = closed p" "quota (unregister l p) = quota p"
  "gone (unregister l p) = gone p"
  by (simp_all add: unregister_def legacy_put_def Let_def)

lemma finish_pool_effect:
  assumes "finish_pool l d now c p = (p', c')"
  shows "frame p p'" "lheap p' = lheap p" "gone p' = gone p" "quota p' = quota p"
    "i < length (entries p) \<Longrightarrow> sem (entries p' ! i) = sem (entries p ! i) \<and> waiters (entries p' ! i) = waiters (entries p ! i)"
  using assms
  by (auto simp: finish_pool_def frame_def nth_upd_entry Let_def split: if_splits)

abbreviation fresh_leases :: "Pool \<Rightarrow> Pool \<Rightarrow> Lease list" where
  "fresh_leases p p' \<equiv> drop (length (lheap p)) (lheap p')"

text \<open>The outcomes of \<open>run_pc\<close>, one rule each.\<close>

inductive run_outcome :: "Pool \<Rightarrow> pc \<Rightarrow> Pool \<Rightarrow> pc \<Rightarrow> bool" where
  slot: "acquire_slot a p = Some p' \<Longrightarrow> run_outcome p (AWait a) p' (ATook a False)"
| noslot: "run_outcome p (AWait a) p (AGot a (Some e))"
| refused: "run_outcome p (AGot a (Some e)) (leave_waiters a p) (Returned (Some e) None)"
| read_up: "run_outcome p (ATook a False) p (ATook a True)"
| missed_up: "run_outcome p (ATook a False) (miss (a_consumer a) 1 p) (AGot a None)"
| told_up: "run_outcome p (ATook a True) (tell (a_consumer a) 1 p) (AGot a None)"
| stale: "run_outcome p (AGot a None) (leave_waiters a p) (give_up a None e)"
| vacant: "take_client a now (leave_waiters a p) = (p', None) \<Longrightarrow>
    run_outcome p (AGot a None) p' (ACommit a None)"
| taken: "take_client a now (leave_waiters a p) = (p', c) \<Longrightarrow> run_outcome p (AGot a None) p' (AProbe a c)"
| fresh: "take_client a now (leave_waiters a p) = (p1, c) \<Longrightarrow>
    run_outcome p (AGot a None) (close_conn c p1) (ACommit a None)"
| healthy: "run_outcome p (AProbe a c) p (ACommit a c)"
| sick: "run_outcome p (AProbe a c) (close_conn c p) (ACommit a None)"
| quit_probe: "run_outcome p (AProbe a c) p (give_up a c e)"
| quit_commit: "run_outcome p (ACommit a c) p (give_up a c e)"
| lease: "new_lease a c p = (p', l) \<Longrightarrow> run_outcome p (ACommit a c) p' (Returned None (Some l))"
| cached: "finish_pool l d now c p = (p', c') \<Longrightarrow> run_outcome p (FLock l sid e k d c) p' (FRelease sid e k c' None)"
| released: "give_slot e (close_conn c p) = Some p' \<Longrightarrow>
    run_outcome p (FRelease sid e k c r) p' (FTell k r False)"
| read_down: "run_outcome p (FTell k r False) p (FTell k r True)"
| missed_down: "run_outcome p (FTell k r False) (miss k (-1) p) (Returned r None)"
| told_down: "run_outcome p (FTell k r True) (tell k (-1) p) (Returned r None)"
| joined: "run_outcome p (CLeases []) p (Returned None None)"
| next_lease: "run_outcome p (CLeases (l # ls)) (close_lease l p) (CLeases ls)"

lemma got_outcome:
  assumes "run_pc (EvLock now ctx) (AGot a None) p = Some (p', pc')"
  shows "run_outcome p (AGot a None) p' pc'"
proof (cases "acquire_check a ctx (leave_waiters a p)")
  case None
  obtain p2 c where t: "take_client a now (leave_waiters a p) = (p2, c)"
    by (cases "take_client a now (leave_waiters a p)")
  from None assms t show ?thesis
    by (cases c; cases "a_fresh a") (auto intro: run_outcome.intros)
next
  case (Some e)
  then show ?thesis using assms by (auto intro: run_outcome.stale)
qed

lemma commit_outcome:
  "run_pc (EvLock now ctx) (ACommit a c) p = Some (p', pc') \<Longrightarrow> run_outcome p (ACommit a c) p' pc'"
  by (cases "acquire_check a ctx p"; cases "new_lease a c p")
    (auto intro: run_outcome.intros)

lemma run_pc_outcome: "run_pc ev pc p = Some (p', pc') \<Longrightarrow> run_outcome p pc p' pc'"
proof (induction ev pc p rule: run_pc.induct)
  case (7 now ctx a err p)
  then show ?case by (cases err) (auto intro: got_outcome run_outcome.refused simp: Let_def)
next
  case (11 now ctx a c p)
  then show ?case by (rule commit_outcome)
next
  case (12 now ctx l sid e k d c p)
  then show ?case by (cases "finish_pool l d now c p") (auto intro: run_outcome.cached)
qed (auto intro: run_outcome.intros split: if_splits)

lemma run_frame:
  assumes "run_pc ev pc p = Some (p', pc')"
  shows "frame p p' \<and> take (length (lheap p)) (lheap p') = lheap p \<and>
    (\<forall>l\<in>set (fresh_leases p p'). lease_slot l = pc_slot pc \<and> \<not> l_done l) \<and>
    (pc_slot pc' = None \<or> pc_slot pc' = pc_slot pc \<or> (\<exists>a. pc = AWait a \<and> pc' = ATook a False)) \<and>
    (pc_wait pc' = None \<or> pc_wait pc' = pc_wait pc)"
  using run_pc_outcome [OF assms]
proof (cases rule: run_outcome.cases)
  case (slot a)
  then show ?thesis using acquire_slot_effect(2-6) [OF slot(3)] by (simp add: frame_def)
next
  case (released e c sid k r)
  then show ?thesis using give_slot_effect(2-6) [OF released(3)] by (simp add: frame_def)
next
  case (cached l sid e k d now c c')
  then show ?thesis using finish_pool_effect(1,2) [OF cached(3)] by (simp add: frame_def)
qed (auto simp: frame_def give_up_def leave_waiters_def take_client_def new_lease_def lease_slot_def close_lease_def)

lemma run_lheap: "run_pc ev pc p = Some (p', pc') \<Longrightarrow> lheap p' = lheap p @ fresh_leases p p'"
  using run_frame [of ev pc p p' pc'] append_take_drop_id [of "length (lheap p)" "lheap p'"] by simp

lemma run_sem:
  assumes "run_pc ev pc p = Some (p', pc')" and "i < length (entries p)"
  shows "sem (entries p' ! i) + of_bool (sat (on_entry i) (pc_slot pc)) =
      sem (entries p ! i) + of_bool (sat (on_entry i) (pc_slot pc')) +
      count_if (\<lambda>l. sat (on_entry i) (lease_slot l)) (fresh_leases p p') \<and>
    (sem (entries p ! i) \<le> maxConns p \<longrightarrow> sem (entries p' ! i) \<le> maxConns p)"
  using run_pc_outcome [OF assms(1)]
proof (cases rule: run_outcome.cases)
  case (slot a)
  then show ?thesis using acquire_slot_effect(6,10) [OF slot(3)] acquire_slot_effect(11) [OF slot(3) assms(2)]
    by (simp add: sat_def on_entry_def)
next
  case (released e c sid k r)
  then show ?thesis using give_slot_effect(6) [OF released(3)] give_slot_effect(10) [OF released(3), of i] assms(2)
    by (auto simp: sat_def on_entry_def)
next
  case (cached l sid e k d now c c')
  then show ?thesis using finish_pool_effect(2,5) [OF cached(3)] assms(2) by (simp add: sat_def on_entry_def)
qed (use assms(2) in \<open>auto simp: give_up_def leave_waiters_def take_client_def new_lease_def lease_slot_def close_lease_def
      sat_def on_entry_def nth_upd_entry\<close>)

lemma run_waiters:
  assumes "run_pc ev pc p = Some (p', pc')" and "i < length (entries p)"
    and "sat (\<lambda>w. snd w = i) (pc_wait pc) \<Longrightarrow> 0 < waiters (entries p ! i)"
  shows "waiters (entries p' ! i) + of_bool (sat (\<lambda>w. snd w = i) (pc_wait pc)) =
      waiters (entries p ! i) + of_bool (sat (\<lambda>w. snd w = i) (pc_wait pc'))"
  using run_pc_outcome [OF assms(1)]
proof (cases rule: run_outcome.cases)
  case (slot a)
  then show ?thesis using acquire_slot_effect(12) [OF slot(3) assms(2)] by (simp add: sat_def)
next
  case (released e c sid k r)
  then show ?thesis using give_slot_effect(11) [OF released(3), of i] assms(2) by (simp add: sat_def)
next
  case (cached l sid e k d now c c')
  then show ?thesis using finish_pool_effect(5) [OF cached(3)] assms(2) by (simp add: sat_def)
qed (use assms(2,3) in \<open>auto simp: give_up_def leave_waiters_def take_client_def new_lease_def close_lease_def
      sat_def nth_upd_entry\<close>)

lemma run_quota:
  assumes "run_pc ev pc p = Some (p', pc')"
  shows "notified p' k + of_bool (sat (by_consumer k) (pc_slot pc)) + of_bool (pc_up pc' = Some k) + of_bool (pc_down pc = Some k) =
      notified p k + of_bool (sat (by_consumer k) (pc_slot pc')) + of_bool (pc_up pc = Some k) + of_bool (pc_down pc' = Some k) +
      int (count_if (\<lambda>l. sat (by_consumer k) (lease_slot l)) (fresh_leases p p'))"
  using run_pc_outcome [OF assms]
proof (cases rule: run_outcome.cases)
  case (slot a)
  then show ?thesis using acquire_slot_effect(6,9) [OF slot(3)] by (simp add: sat_def by_consumer_def)
next
  case (released e c sid k' r)
  then show ?thesis using give_slot_effect(6,9) [OF released(3)] by (simp add: sat_def by_consumer_def)
next
  case (cached l sid e k d now c c')
  then show ?thesis using finish_pool_effect(2,4) [OF cached(3)] by (simp add: sat_def by_consumer_def)
qed (auto simp: give_up_def leave_waiters_def take_client_def new_lease_def lease_slot_def close_lease_def
      sat_def by_consumer_def)

abbreviation cached_count :: "conn \<Rightarrow> Pool \<Rightarrow> nat" where
  "cached_count c p \<equiv> count_if (\<lambda>e. e_client e = Some c) (entries p)"

lemma finish_pool_clients:
  assumes "finish_pool l d now c p = (p', c')"
    and "\<And>sid e. mget (conns p) sid = Some e \<Longrightarrow> e < length (entries p)"
  shows "cached_count x p' + of_bool (c' = Some x) = cached_count x p + of_bool (c = Some x) \<and>
    (\<forall>i<length (entries p). e_client (entries p' ! i) = e_client (entries p ! i) \<or>
       (\<exists>sid. mget (conns p) sid = Some i))"
proof -
  let ?e = "l_entry (lheap p ! l)" and ?p2 = "unregister l p"
  have "(p', c') = (?p2, c) \<or> (\<exists>sid. mget (conns p) sid = Some ?e) \<and> e_client (entries p ! ?e) = None \<and>
    (p', c') = (upd_entry ?e (\<lambda>x. x\<lparr>e_client := c, lastUsed := now\<rparr>) ?p2, None)"
    using assms(1) by (auto simp: finish_pool_def Let_def current_def split: if_splits)
  then show ?thesis
  proof (elim disjE conjE exE)
    fix sid assume a: "mget (conns p) sid = Some ?e" "e_client (entries p ! ?e) = None"
      "(p', c') = (upd_entry ?e (\<lambda>x. x\<lparr>e_client := c, lastUsed := now\<rparr>) ?p2, None)"
    have "?e < length (entries ?p2)" using assms(2) [OF a(1)] by simp
    from count_upd_entry [OF this, of "\<lambda>e. e_client e = Some x" "\<lambda>x. x\<lparr>e_client := c, lastUsed := now\<rparr>"]
    show ?thesis using a by (auto simp: nth_upd_entry)
  qed simp
qed

lemma take_client_clients:
  assumes "take_client a now (leave_waiters a p) = (p', c)" and "a_entry a < length (entries p)"
  shows "cached_count x p' + of_bool (c = Some x) = cached_count x p \<and>
    (\<forall>i<length (entries p). e_client (entries p' ! i) = None \<or> e_client (entries p' ! i) = e_client (entries p ! i))"
proof -
  let ?q = "leave_waiters a p"
  have q: "a_entry a < length (entries ?q)" using assms(2) by (simp add: leave_waiters_def)
  have e: "e_client (entries ?q ! a_entry a) = e_client (entries p ! a_entry a)"
    using assms(2) by (simp add: leave_waiters_def nth_upd_entry)
  have "cached_count x ?q = cached_count x p" by (simp add: leave_waiters_def count_upd_entry_same)
  with count_upd_entry [OF q, of "\<lambda>e. e_client e = Some x" "\<lambda>x. x\<lparr>e_client := None, lastUsed := now\<rparr>"] assms(1)
  have "cached_count x p' + of_bool (c = Some x) = cached_count x p"
    by (auto simp: take_client_def)
  then show ?thesis using assms by (auto simp: take_client_def leave_waiters_def nth_upd_entry)
qed

lemma run_clients:
  assumes "run_pc ev pc p = Some (p', pc')"
    and conns: "\<And>sid e. mget (conns p) sid = Some e \<Longrightarrow> e < length (entries p)"
    and slot: "\<And>sid e k. pc_slot pc = Some (sid, e, k) \<Longrightarrow> e < length (entries p)"
    and cl: "\<And>ls. pc = CLeases ls \<Longrightarrow> closed p"
  shows "(let after = cached_count x p' + of_bool (pc_client pc' = Some x) +
              count_if (\<lambda>l. l_Client l = Some x) (fresh_leases p p');
            before = cached_count x p + of_bool (pc_client pc = Some x)
          in after \<le> before \<and> (x \<in> set (gone p') \<longrightarrow> x \<in> set (gone p) \<or> closed p \<or> after < before)) \<and>
    (\<forall>i<length (entries p). e_client (entries p' ! i) = None \<or> e_client (entries p' ! i) = e_client (entries p ! i) \<or>
       (\<exists>sid. mget (conns p) sid = Some i))"
  using run_pc_outcome [OF assms(1)]
proof (cases rule: run_outcome.cases)
  case (slot a)
  then show ?thesis using acquire_slot_effect(6,8,14) [OF slot(3)] acquire_slot_effect(13) [OF slot(3)] by simp
next
  case (released e c sid k r)
  then show ?thesis using give_slot_effect(6,8,13) [OF released(3)] give_slot_effect(12) [OF released(3)]
    by (auto simp: Let_def)
next
  case (cached l d now c c' sid e k)
  then show ?thesis
    using finish_pool_effect(2,3) [OF cached(3)] finish_pool_clients [OF cached(3) conns, where x = x] by (auto simp: Let_def)
next
  case (vacant a now)
  have "a_entry a < length (entries p)" using assms(3) vacant(1) by simp
  from take_client_clients [OF vacant(3) this, of x] vacant show ?thesis
    by (auto simp: take_client_def leave_waiters_def)
next
  case (taken a now c)
  have "a_entry a < length (entries p)" using assms(3) taken(1) by simp
  from take_client_clients [OF taken(3) this, of x] taken show ?thesis
    by (auto simp: take_client_def leave_waiters_def)
next
  case (fresh a now p1 c)
  have "a_entry a < length (entries p)" using assms(3) fresh(1) by simp
  from take_client_clients [OF fresh(4) this, of x] fresh show ?thesis
    by (auto simp: take_client_def leave_waiters_def Let_def)
next
  case (next_lease l ls)
  then show ?thesis using cl by (simp add: close_lease_def)
qed (auto simp: give_up_def leave_waiters_def new_lease_def nth_upd_entry count_upd_entry_same Let_def)

section \<open>Preservation\<close>

definition pool_inv :: "pool_sys \<Rightarrow> bool" where
  "pool_inv S = (inv_shape S \<and> inv_slots S \<and> inv_clients S)"

lemma count_if_upd_bool:
  "i < length xs \<Longrightarrow> count_if P (xs[i := x]) + of_bool (P (xs ! i)) = count_if P xs + of_bool (P x)"
  using count_if_update [of i xs P x] by (cases "P (xs ! i)"; cases "P x") simp_all

lemma holders_run:
  assumes "i < length (thr S)" and "lheap p' = lheap (pl S) @ new"
  shows "holders P \<lparr>pl = p', thr = (thr S)[i := pc']\<rparr> + of_bool (sat P (pc_slot (thr S ! i))) =
    holders P S + of_bool (sat P (pc_slot pc')) + count_if (\<lambda>l. sat P (lease_slot l)) new"
  using count_if_upd_bool [OF assms(1), of "\<lambda>pc. sat P (pc_slot pc)" pc'] assms(2) by (simp add: holders_def)

lemma waiters_at_pos:
  "i < length (thr S) \<Longrightarrow> sat (\<lambda>w. snd w = e) (pc_wait (thr S ! i)) \<Longrightarrow> 0 < waiters_at e S"
  by (simp add: waiters_at_def count_if_pos)

lemma inv_shapeD:
  assumes "inv_shape S"
  shows "0 < maxConns (pl S)" "mok (conns (pl S))"
    "mget (conns (pl S)) sid = Some e \<Longrightarrow> e < length (entries (pl S))"
    "closed (pl S) \<Longrightarrow> conns (pl S) = []" "CLeases ls \<in> set (thr S) \<Longrightarrow> closed (pl S)"
    "pc \<in> set (thr S) \<Longrightarrow> pc_slot pc = Some (sid, e, k) \<Longrightarrow> placed (pl S) sid e"
    "pc \<in> set (thr S) \<Longrightarrow> pc_wait pc = Some (sid, e) \<Longrightarrow> placed (pl S) sid e"
    "l \<in> set (lheap (pl S)) \<Longrightarrow> lease_slot l = Some (sid, e, k) \<Longrightarrow> placed (pl S) sid e"
  using assms unfolding inv_shape_def Let_def by blast+

lemma inv_shapeI:
  assumes "0 < maxConns (pl S)" "mok (conns (pl S))"
    "\<And>sid e. mget (conns (pl S)) sid = Some e \<Longrightarrow> e < length (entries (pl S))"
    "closed (pl S) \<Longrightarrow> conns (pl S) = []" "\<And>ls. CLeases ls \<in> set (thr S) \<Longrightarrow> closed (pl S)"
    "\<And>pc sid e k. pc \<in> set (thr S) \<Longrightarrow> pc_slot pc = Some (sid, e, k) \<Longrightarrow> placed (pl S) sid e"
    "\<And>pc sid e. pc \<in> set (thr S) \<Longrightarrow> pc_wait pc = Some (sid, e) \<Longrightarrow> placed (pl S) sid e"
    "\<And>l sid e k. l \<in> set (lheap (pl S)) \<Longrightarrow> lease_slot l = Some (sid, e, k) \<Longrightarrow> placed (pl S) sid e"
  shows "inv_shape S"
  using assms unfolding inv_shape_def Let_def by blast

lemma run_inv_shape:
  assumes inv: "inv_shape S" and i: "i < length (thr S)" and r: "run_pc ev (thr S ! i) (pl S) = Some (p', pc')"
  shows "inv_shape \<lparr>pl = p', thr = (thr S)[i := pc']\<rparr>"
proof -
  note F = run_frame [OF r] and D = inv_shapeD [OF inv]
  have fr: "conns p' = conns (pl S)" "closed p' = closed (pl S)" "maxConns p' = maxConns (pl S)"
    "length (entries p') = length (entries (pl S))"
    using F by (simp_all add: frame_def)
  note lh = run_lheap [OF r]
  have pl: "placed p' = placed (pl S)" using F by (simp add: frame_placed)
  have m: "thr S ! i \<in> set (thr S)" using i by simp
  have sub: "pc = pc' \<or> pc \<in> set (thr S)" if "pc \<in> set ((thr S)[i := pc'])" for pc
    using that set_update_subset_insert [of "thr S" i pc'] by blast
  have c: "closed (pl S)" if "pc' = CLeases ls" for ls
  proof -
    have "\<exists>ls'. thr S ! i = CLeases ls'"
      using run_pc_outcome [OF r] unfolding that by (cases rule: run_outcome.cases) (auto simp: give_up_def)
    then show ?thesis using D(5) m by metis
  qed
  have s1: "placed (pl S) sid e" if "pc_slot pc' = Some (sid, e, k)" for sid e k
  proof -
    have "pc_slot (thr S ! i) = Some (sid, e, k) \<or> pc_wait (thr S ! i) = Some (sid, e)"
      using F that by auto
    then show ?thesis using D(6,7) [OF m] by blast
  qed
  have s2: "placed (pl S) sid e" if "pc_wait pc' = Some (sid, e)" for sid e
    using F that D(7) [OF m] by auto
  have s3: "placed (pl S) sid e" if l: "l \<in> set (lheap p')" "lease_slot l = Some (sid, e, k)" for l sid e k
  proof (cases "l \<in> set (lheap (pl S))")
    case True
    then show ?thesis using D(8) l(2) by blast
  next
    case False
    then have "l \<in> set (fresh_leases (pl S) p')" using l(1) by (subst (asm) lh) simp
    then show ?thesis using F l(2) D(6) [OF m] by auto
  qed
  show ?thesis
  proof (rule inv_shapeI, unfold pool_sys.simps fr pl)
    show "0 < maxConns (pl S)" by (rule D(1))
    show "mok (conns (pl S))" by (rule D(2))
  next
    fix ls assume "CLeases ls \<in> set ((thr S)[i := pc'])"
    then show "closed (pl S)" using sub D(5) c by metis
  next
    fix pc sid e k assume "pc \<in> set ((thr S)[i := pc'])" "pc_slot pc = Some (sid, e, k)"
    then show "placed (pl S) sid e" using sub D(6) s1 by metis
  next
    fix pc sid e assume "pc \<in> set ((thr S)[i := pc'])" "pc_wait pc = Some (sid, e)"
    then show "placed (pl S) sid e" using sub D(7) s2 by metis
  qed (fact D(3) D(4) s3)+
qed

lemma run_inv_slots:
  assumes sl: "inv_slots S" and i: "i < length (thr S)" and r: "run_pc ev (thr S ! i) (pl S) = Some (p', pc')"
  shows "inv_slots \<lparr>pl = p', thr = (thr S)[i := pc']\<rparr>" (is "inv_slots ?S")
proof -
  note F = run_frame [OF r]
  have fr: "frame (pl S) p'" using F by simp
  note lh = run_lheap [OF r]
  have e: "sem (entries p' ! e) = holders (on_entry e) ?S \<and> sem (entries p' ! e) \<le> maxConns p' \<and>
    waiters (entries p' ! e) = waiters_at e ?S" if e: "e < length (entries (pl S))" for e
  proof -
    have I: "sem (entries (pl S) ! e) = holders (on_entry e) S" "sem (entries (pl S) ! e) \<le> maxConns (pl S)"
      "waiters (entries (pl S) ! e) = waiters_at e S"
      using sl e by (auto simp: inv_slots_def Let_def)
    have w: "waiters (entries p' ! e) + of_bool (sat (\<lambda>w. snd w = e) (pc_wait (thr S ! i))) =
      waiters (entries (pl S) ! e) + of_bool (sat (\<lambda>w. snd w = e) (pc_wait pc'))"
      by (rule run_waiters [OF r e]) (use I(3) waiters_at_pos [OF i, of e] in simp)
    have w2: "waiters_at e ?S + of_bool (sat (\<lambda>w. snd w = e) (pc_wait (thr S ! i))) =
      waiters_at e S + of_bool (sat (\<lambda>w. snd w = e) (pc_wait pc'))"
      using count_if_upd_bool [OF i, of "\<lambda>pc. sat (\<lambda>w. snd w = e) (pc_wait pc)" pc'] by (simp add: waiters_at_def)
    show ?thesis
      using run_sem [OF r e] holders_run [OF i lh, of "on_entry e" pc'] w w2 I fr by (simp add: frame_def)
  qed
  have q: "notified p' k = int (holders (by_consumer k) ?S) - int (rising k ?S) + int (falling k ?S)" for k
  proof -
    have u: "rising k ?S + of_bool (pc_up (thr S ! i) = Some k) = rising k S + of_bool (pc_up pc' = Some k)"
      "falling k ?S + of_bool (pc_down (thr S ! i) = Some k) = falling k S + of_bool (pc_down pc' = Some k)"
      using count_if_upd_bool [OF i, of "\<lambda>pc. pc_up pc = Some k" pc']
        count_if_upd_bool [OF i, of "\<lambda>pc. pc_down pc = Some k" pc'] by (simp_all add: rising_def falling_def)
    have "notified (pl S) k = int (holders (by_consumer k) S) - int (rising k S) + int (falling k S)"
      using sl by (simp add: inv_slots_def Let_def)
    then show ?thesis
      using run_quota [OF r, of k] arg_cong [OF holders_run [OF i lh, of "by_consumer k" pc'], of int]
        arg_cong [OF u(1), of int] arg_cong [OF u(2), of int] by simp
  qed
  have n: "length (entries p') = length (entries (pl S))" using fr by (simp add: frame_def)
  show ?thesis unfolding inv_slots_def Let_def pool_sys.simps n using e q by blast
qed

lemma owners_run:
  assumes "i < length (thr S)" and "lheap p' = lheap (pl S) @ new"
  shows "owners x \<lparr>pl = p', thr = (thr S)[i := pc']\<rparr> + cached_count x (pl S) + of_bool (pc_client (thr S ! i) = Some x) =
    owners x S + cached_count x p' + of_bool (pc_client pc' = Some x) + count_if (\<lambda>l. l_Client l = Some x) new"
  using count_if_upd_bool [OF assms(1), of "\<lambda>pc. pc_client pc = Some x" pc'] assms(2) by (simp add: owners_def)

lemma run_inv_clients:
  assumes sh: "inv_shape S" and cl: "inv_clients S" and i: "i < length (thr S)"
    and r: "run_pc ev (thr S ! i) (pl S) = Some (p', pc')"
  shows "inv_clients \<lparr>pl = p', thr = (thr S)[i := pc']\<rparr>" (is "inv_clients ?S")
proof -
  note F = run_frame [OF r]
  have fr: "frame (pl S) p'" using F by simp
  note lh = run_lheap [OF r]
  have m: "thr S ! i \<in> set (thr S)" using i by simp
  note C = run_clients [OF r, unfolded Let_def conj_assoc]
  have C': "cached_count x p' + of_bool (pc_client pc' = Some x) + count_if (\<lambda>l. l_Client l = Some x) (fresh_leases (pl S) p')
      \<le> cached_count x (pl S) + of_bool (pc_client (thr S ! i) = Some x) \<and>
    (x \<in> set (gone p') \<longrightarrow> x \<in> set (gone (pl S)) \<or> closed (pl S) \<or>
      cached_count x p' + of_bool (pc_client pc' = Some x) + count_if (\<lambda>l. l_Client l = Some x) (fresh_leases (pl S) p')
      < cached_count x (pl S) + of_bool (pc_client (thr S ! i) = Some x)) \<and>
    (\<forall>i<length (entries (pl S)). e_client (entries p' ! i) = None \<or> e_client (entries p' ! i) = e_client (entries (pl S) ! i) \<or>
       (\<exists>sid. mget (conns (pl S)) sid = Some i))" for x
    by (rule C) (use sh m in \<open>auto simp: inv_shape_def Let_def placed_def\<close>)
  have own: "owners x ?S \<le> owners x S" "x \<in> set (gone p') \<Longrightarrow> x \<in> set (gone (pl S)) \<or> closed (pl S) \<or> owners x ?S < owners x S" for x
    using C' [of x] owners_run [OF i lh, of x pc'] by auto
  have le: "owners x S \<le> 1" for x using cl by (simp add: inv_clients_def Let_def)
  have o1: "owners x ?S \<le> 1" for x using own(1) [of x] le [of x] by linarith
  have o2: "owners x ?S = 0" if "\<not> closed p'" "x \<in> set (gone p')" for x
  proof -
    have "owners x S = 0 \<or> owners x ?S < owners x S"
      using own(2) [of x] that cl fr by (auto simp: inv_clients_def Let_def frame_def)
    then show ?thesis using own(1) [of x] le [of x] by linarith
  qed
  have o3: "\<forall>l\<in>set (lheap p'). l_done l \<longrightarrow> l_Client l = None"
    using F cl by (subst lh) (auto simp: inv_clients_def Let_def)
  have o4: "e_client (entries p' ! e) = None" if "e < length (entries p')" "\<forall>sid. mget (conns p') sid \<noteq> Some e" for e
    using C' [of 0] that cl fr by (auto simp: inv_clients_def Let_def frame_def)
  show ?thesis unfolding inv_clients_def Let_def pool_sys.simps using o1 o2 o3 o4 by blast
qed

text \<open>Sections that move no slot and no waiter and take transports away at most.\<close>

abbreviation leased_count :: "conn \<Rightarrow> Pool \<Rightarrow> nat" where
  "leased_count c p \<equiv> count_if (\<lambda>l. l_Client l = Some c) (lheap p)"

abbreviation kept :: "conn \<Rightarrow> Pool \<Rightarrow> nat" where
  "kept c p \<equiv> cached_count c p + leased_count c p"

definition quiet :: "Pool \<Rightarrow> Pool \<Rightarrow> bool" where
  "quiet p p' = (frame p p' \<and> map lease_slot (lheap p') = map lease_slot (lheap p) \<and> quota p' = quota p \<and>
     (\<forall>i<length (entries p). sem (entries p' ! i) = sem (entries p ! i) \<and>
        waiters (entries p' ! i) = waiters (entries p ! i) \<and>
        (e_client (entries p' ! i) = None \<or> e_client (entries p' ! i) = e_client (entries p ! i))) \<and>
     (\<forall>x. kept x p' \<le> kept x p \<and>
        (x \<in> set (gone p') \<longrightarrow> x \<in> set (gone p) \<or> closed p \<or> kept x p' < kept x p)) \<and>
     ((\<forall>l\<in>set (lheap p). l_done l \<longrightarrow> l_Client l = None) \<longrightarrow>
        (\<forall>l\<in>set (lheap p'). l_done l \<longrightarrow> l_Client l = None)))"

lemma quietD:
  assumes "quiet p p'"
  shows "frame p p'" "map lease_slot (lheap p') = map lease_slot (lheap p)" "quota p' = quota p"
    "i < length (entries p) \<Longrightarrow> sem (entries p' ! i) = sem (entries p ! i)"
    "i < length (entries p) \<Longrightarrow> waiters (entries p' ! i) = waiters (entries p ! i)"
    "i < length (entries p) \<Longrightarrow> e_client (entries p' ! i) = None \<or> e_client (entries p' ! i) = e_client (entries p ! i)"
    "kept x p' \<le> kept x p"
    "x \<in> set (gone p') \<Longrightarrow> x \<in> set (gone p) \<or> closed p \<or> kept x p' < kept x p"
    "(\<forall>l\<in>set (lheap p). l_done l \<longrightarrow> l_Client l = None) \<longrightarrow>
        (\<forall>l\<in>set (lheap p'). l_done l \<longrightarrow> l_Client l = None)"
  using assms unfolding quiet_def by blast+

lemma quietI:
  assumes "frame p p'" "map lease_slot (lheap p') = map lease_slot (lheap p)" "quota p' = quota p"
    "\<And>i. i < length (entries p) \<Longrightarrow> sem (entries p' ! i) = sem (entries p ! i)"
    "\<And>i. i < length (entries p) \<Longrightarrow> waiters (entries p' ! i) = waiters (entries p ! i)"
    "\<And>i. i < length (entries p) \<Longrightarrow> e_client (entries p' ! i) = None \<or> e_client (entries p' ! i) = e_client (entries p ! i)"
    "\<And>x. kept x p' \<le> kept x p"
    "\<And>x. x \<in> set (gone p') \<Longrightarrow> x \<in> set (gone p) \<or> closed p \<or> kept x p' < kept x p"
    "(\<forall>l\<in>set (lheap p). l_done l \<longrightarrow> l_Client l = None) \<longrightarrow>
        (\<forall>l\<in>set (lheap p'). l_done l \<longrightarrow> l_Client l = None)"
  shows "quiet p p'"
  using assms unfolding quiet_def by blast

lemma quiet_refl: "quiet p p"
  by (simp add: quiet_def frame_def)

lemma quiet_trans:
  assumes "quiet p q" and "quiet q r"
  shows "quiet p r"
proof (rule quietI)
  note A = quietD [OF assms(1)] and B = quietD [OF assms(2)]
  have n: "length (entries q) = length (entries p)" "closed q = closed p" using A(1) by (simp_all add: frame_def)
  show "frame p r" using A(1) B(1) by (simp add: frame_def)
  show "map lease_slot (lheap r) = map lease_slot (lheap p)" using A(2) B(2) by (rule trans [rotated])
  show "quota r = quota p" using A(3) B(3) by (rule trans [rotated])
  show "(\<forall>l\<in>set (lheap p). l_done l \<longrightarrow> l_Client l = None) \<longrightarrow> (\<forall>l\<in>set (lheap r). l_done l \<longrightarrow> l_Client l = None)"
    using A(9) B(9) by blast
  fix x
  show "kept x r \<le> kept x p" using A(7) [of x] B(7) [of x] by linarith
  show "x \<in> set (gone p) \<or> closed p \<or> kept x r < kept x p" if "x \<in> set (gone r)"
  proof -
    have "x \<in> set (gone p) \<or> closed p \<or> kept x q < kept x p \<or> kept x r < kept x q"
      using A(8) [of x] B(8) [OF that] unfolding n by blast
    then show ?thesis using A(7) [of x] B(7) [of x] by (elim disjE) simp_all
  qed
next
  fix i assume i: "i < length (entries p)"
  note A = quietD(4-6) [OF assms(1) i] and n = quietD(1) [OF assms(1), unfolded frame_def]
  from i n have i': "i < length (entries q)" by simp
  note B = quietD(4-6) [OF assms(2) i']
  show "sem (entries r ! i) = sem (entries p ! i)" using A(1) B(1) by simp
  show "waiters (entries r ! i) = waiters (entries p ! i)" using A(2) B(2) by simp
  show "e_client (entries r ! i) = None \<or> e_client (entries r ! i) = e_client (entries p ! i)"
    using A(3) B(3) by metis
qed

lemma placed_quiet: "quiet p p' \<Longrightarrow> placed p' = placed p"
  using quietD(1) frame_placed by blast

lemma holders_quiet:
  assumes "quiet (pl S) p'"
  shows "holders P \<lparr>pl = p', thr = thr S\<rparr> = holders P S"
proof -
  have "count_if (\<lambda>l. sat P (lease_slot l)) xs = count_if (sat P) (map lease_slot xs)" for xs
    by (simp add: count_if_def filter_map o_def)
  then show ?thesis using quietD(2) [OF assms] by (simp add: holders_def)
qed

lemma lease_slot_quiet:
  assumes "quiet p p'" and "l \<in> set (lheap p')"
  shows "\<exists>l'\<in>set (lheap p). lease_slot l' = lease_slot l"
  using quietD(2) [OF assms(1)] assms(2) by (metis (no_types, lifting) image_iff list.set_map)

lemma quiet_inv:
  assumes inv: "pool_inv S" and q: "quiet (pl S) p'"
  shows "pool_inv \<lparr>pl = p', thr = thr S\<rparr>"
proof -
  note Q = quietD [OF q]
  have sh: "inv_shape S" and sl: "inv_slots S" and cl: "inv_clients S" using inv by (simp_all add: pool_inv_def)
  note D = inv_shapeD [OF sh]
  have fr: "conns p' = conns (pl S)" "closed p' = closed (pl S)" "maxConns p' = maxConns (pl S)"
    "length (entries p') = length (entries (pl S))" using Q(1) by (simp_all add: frame_def)
  have "inv_shape \<lparr>pl = p', thr = thr S\<rparr>"
  proof (rule inv_shapeI, unfold pool_sys.simps fr placed_quiet [OF q])
    fix l sid e k assume "l \<in> set (lheap p')" "lease_slot l = Some (sid, e, k)"
    then show "placed (pl S) sid e" using lease_slot_quiet [OF q] D(8) by metis
  qed (fact D)+
  moreover have "inv_slots \<lparr>pl = p', thr = thr S\<rparr>"
  proof -
    have b: "holders (on_entry e) S \<le> maxConns (pl S)" if "e < length (entries (pl S))" for e
      using sl that unfolding inv_slots_def Let_def by force
    show ?thesis
      using sl Q(3,4,5) holders_quiet [OF q] b by (simp add: inv_slots_def Let_def fr waiters_at_def)
  qed
  moreover have "inv_clients \<lparr>pl = p', thr = thr S\<rparr>"
  proof -
    have own: "owners x \<lparr>pl = p', thr = thr S\<rparr> + kept x (pl S) = owners x S + kept x p'" for x
      by (simp add: owners_def)
    have le: "owners x S \<le> 1" for x using cl by (simp add: inv_clients_def Let_def)
    have o1: "owners x \<lparr>pl = p', thr = thr S\<rparr> \<le> 1" for x using own [of x] Q(7) [of x] le [of x] by linarith
    have o2: "owners x \<lparr>pl = p', thr = thr S\<rparr> = 0" if "\<not> closed p'" "x \<in> set (gone p')" for x
    proof -
      have "owners x S = 0 \<or> kept x p' < kept x (pl S)"
        using Q(8) [OF that(2)] that(1) cl fr by (auto simp: inv_clients_def Let_def)
      then show ?thesis using own [of x] Q(7) [of x] le [of x] by linarith
    qed
    have o3: "\<forall>l\<in>set (lheap p'). l_done l \<longrightarrow> l_Client l = None"
      using Q(9) cl by (simp add: inv_clients_def Let_def)
    have o4: "e_client (entries p' ! e) = None"
      if "e < length (entries p')" "\<forall>sid. mget (conns p') sid \<noteq> Some e" for e
      using Q(6) [of e] that cl fr by (auto simp: inv_clients_def Let_def)
    show ?thesis unfolding inv_clients_def Let_def pool_sys.simps using o1 o2 o3 o4 by blast
  qed
  ultimately show ?thesis by (simp add: pool_inv_def)
qed

lemma upd_lease_same:
  assumes "\<And>x. g (f x) = g x"
  shows "map g (lheap (upd_lease l f p)) = map g (lheap p)"
  using assms by (simp add: upd_lease_def map_update list_update_same_conv)

lemma leased_count_upd:
  assumes "\<And>x. l_Client (f x) = l_Client x"
  shows "leased_count x (upd_lease l f p) = leased_count x p"
proof -
  have "count_if (\<lambda>l. l_Client l = Some x) ys = count_if (\<lambda>c. c = Some x) (map l_Client ys)" for ys
    by (simp add: count_if_def filter_map o_def)
  then show ?thesis by (metis upd_lease_same assms)
qed

lemma done_clients_upd:
  assumes "\<And>x. l_Client (f x) = l_Client x" "\<And>x. l_done (f x) = l_done x"
    and "\<forall>y\<in>set (lheap p). l_done y \<longrightarrow> l_Client y = None"
  shows "\<forall>y\<in>set (lheap (upd_lease l f p)). l_done y \<longrightarrow> l_Client y = None"
proof (cases "l < length (lheap p)")
  case True
  then have "\<forall>y\<in>insert (f (lheap p ! l)) (set (lheap p)). l_done y \<longrightarrow> l_Client y = None"
    using assms by simp
  then show ?thesis
    using set_update_subset_insert [of "lheap p" l "f (lheap p ! l)"] True by (auto simp: upd_lease_def)
next
  case False
  then show ?thesis using assms(3) by (simp add: upd_lease_def)
qed

lemma quiet_upd_lease:
  assumes "\<And>x. lease_slot (f x) = lease_slot x" "\<And>x. l_Client (f x) = l_Client x" "\<And>x. l_done (f x) = l_done x"
  shows "quiet p (upd_lease l f p)"
proof (rule quietI)
  show "map lease_slot (lheap (upd_lease l f p)) = map lease_slot (lheap p)"
    by (rule upd_lease_same) (rule assms(1))
  show "kept x (upd_lease l f p) \<le> kept x p" for x
    using leased_count_upd [of f x l p, OF assms(2)] by simp
  show "(\<forall>l\<in>set (lheap p). l_done l \<longrightarrow> l_Client l = None) \<longrightarrow>
      (\<forall>x\<in>set (lheap (upd_lease l f p)). l_done x \<longrightarrow> l_Client x = None)"
    using done_clients_upd [of f p l, OF assms(2,3)] by blast
qed (simp_all add: frame_def)

lemma quiet_retire:
  assumes "e < length (entries p)"
    and "\<And>x. e_client (f x) = None" "\<And>x. sem (f x) = sem x" "\<And>x. waiters (f x) = waiters x"
  shows "quiet p (close_conn (e_client (entries p ! e)) (upd_entry e f p))"
proof (rule quietI)
  have c: "cached_count x (upd_entry e f p) + of_bool (e_client (entries p ! e) = Some x) = cached_count x p" for x
    using count_upd_entry [OF assms(1), of "\<lambda>e. e_client e = Some x" f] assms(2) by auto
  fix x
  show "kept x (close_conn (e_client (entries p ! e)) (upd_entry e f p)) \<le> kept x p"
    using c [of x] by simp
  show "x \<in> set (gone (close_conn (e_client (entries p ! e)) (upd_entry e f p))) \<Longrightarrow>
    x \<in> set (gone p) \<or> closed p \<or> kept x (close_conn (e_client (entries p ! e)) (upd_entry e f p)) < kept x p"
    using c [of x] by auto
qed (simp_all add: frame_def nth_upd_entry assms(2-4))

lemma quiet_fields: "quiet p (p\<lparr>legacy := x\<rparr>)" "quiet p (p\<lparr>leases := y\<rparr>)"
  by (rule quietI; simp add: frame_def)+

lemma quiet_close_entry: "e < length (entries p) \<Longrightarrow> quiet p (close_entry e p)"
  unfolding close_entry_def by (rule quiet_retire) simp_all

lemma quiet_close_closed: "closed p \<Longrightarrow> quiet p (close_conn c p)"
  by (rule quietI) (simp_all add: frame_def)

lemma quiet_Invalidate:
  assumes "\<And>e. mget (conns p) sid = Some e \<Longrightarrow> e < length (entries p)"
  shows "quiet p (Invalidate sid p)"
  using assms by (auto simp: Invalidate_def intro!: quiet_refl quiet_retire split: option.splits)

lemma close_upd_lease: "close_conn c (upd_lease l f p) = upd_lease l f (close_conn c p)"
  by (simp add: close_conn_def upd_lease_def split: option.splits)

lemma quiet_Rebind:
  assumes "\<And>sid e. mget (conns p) sid = Some e \<Longrightarrow> e < length (entries p)"
    and "RebindFingerprint l fp p = (p', ok)"
  shows "quiet p p'"
proof -
  let ?e = "l_entry (lheap p ! l)"
  have "p' = p \<or> ?e < length (entries p) \<and> (\<exists>g. p' = upd_lease l
     (\<lambda>x. x\<lparr>l_fingerprint := fp, l_generation := g, l_cacheable := False\<rparr>)
     (close_conn (e_client (entries p ! ?e)) (upd_entry ?e (\<lambda>x. x\<lparr>e_client := None, e_fingerprint := fp,
       e_generation := e_generation x + 1\<rparr>) p)))"
    using assms by (auto simp: RebindFingerprint_def Let_def current_def close_upd_lease split: if_splits)
  then show ?thesis
  proof (elim disjE conjE exE)
    fix g assume e: "?e < length (entries p)" and p': "p' = upd_lease l
     (\<lambda>x. x\<lparr>l_fingerprint := fp, l_generation := g, l_cacheable := False\<rparr>)
     (close_conn (e_client (entries p ! ?e)) (upd_entry ?e (\<lambda>x. x\<lparr>e_client := None, e_fingerprint := fp,
       e_generation := e_generation x + 1\<rparr>) p))"
    show ?thesis unfolding p'
      by (rule quiet_trans [OF quiet_retire quiet_upd_lease]) (use e in \<open>simp_all add: lease_slot_def\<close>)
  qed (simp add: quiet_refl)
qed

lemma quiet_taint: "quiet p (legacy_taint ls l k p)"
  by (auto simp: legacy_taint_def lease_slot_def
      intro!: quiet_refl quiet_trans [OF quiet_upd_lease quiet_upd_lease])

lemma quiet_fold: "(\<And>x p. quiet p (f x p)) \<Longrightarrow> quiet p (fold f xs p)"
  by (induction xs arbitrary: p) (auto intro: quiet_refl quiet_trans)

lemma quiet_LegacyClient:
  assumes "LegacyClient l p = (p', c)"
  shows "quiet p p'"
proof -
  let ?f = "\<lambda>x. x\<lparr>l_legacy := True, l_original := l_Client x\<rparr>"
  have a: "quiet p (upd_lease l ?f p)" by (rule quiet_upd_lease) (simp_all add: lease_slot_def)
  have b: "quiet p (fold (legacy_taint ls l) ks (upd_lease l ?f p))" for ls ks
    by (rule quiet_trans [OF a quiet_fold]) (rule quiet_taint)
  show ?thesis
    using assms quiet_trans [OF a quiet_fields(1)] quiet_trans [OF b quiet_fields(1)]
    by (auto simp: LegacyClient_def Let_def quiet_refl split: if_splits)
qed

lemma quiet_legacyLease: "legacyLease sid c p = (p', r) \<Longrightarrow> quiet p p'"
  by (auto simp: legacyLease_def Let_def legacy_put_def quiet_refl quiet_fields split: option.splits)

lemma pool_invD: "pool_inv S \<Longrightarrow> inv_shape S" "pool_inv S \<Longrightarrow> inv_slots S" "pool_inv S \<Longrightarrow> inv_clients S"
  by (simp_all add: pool_inv_def)

lemma inv_slotsD:
  assumes "inv_slots S"
  shows "e < length (entries (pl S)) \<Longrightarrow> sem (entries (pl S) ! e) = holders (on_entry e) S"
    "e < length (entries (pl S)) \<Longrightarrow> holders (on_entry e) S \<le> maxConns (pl S)"
    "e < length (entries (pl S)) \<Longrightarrow> waiters (entries (pl S) ! e) = waiters_at e S"
    "notified (pl S) k = int (holders (by_consumer k) S) - int (rising k S) + int (falling k S)"
  using assms unfolding inv_slots_def Let_def by force+

lemma inv_slotsI:
  assumes "\<And>e. e < length (entries (pl S)) \<Longrightarrow> sem (entries (pl S) ! e) = holders (on_entry e) S"
    "\<And>e. e < length (entries (pl S)) \<Longrightarrow> holders (on_entry e) S \<le> maxConns (pl S)"
    "\<And>e. e < length (entries (pl S)) \<Longrightarrow> waiters (entries (pl S) ! e) = waiters_at e S"
    "\<And>k. notified (pl S) k = int (holders (by_consumer k) S) - int (rising k S) + int (falling k S)"
  shows "inv_slots S"
  using assms unfolding inv_slots_def Let_def by simp

lemma inv_clientsD:
  assumes "inv_clients S"
  shows "e < length (entries (pl S)) \<Longrightarrow> (\<And>sid. mget (conns (pl S)) sid \<noteq> Some e) \<Longrightarrow> e_client (entries (pl S) ! e) = None"
    "owners c S \<le> 1" "\<not> closed (pl S) \<Longrightarrow> c \<in> set (gone (pl S)) \<Longrightarrow> owners c S = 0"
    "l \<in> set (lheap (pl S)) \<Longrightarrow> l_done l \<Longrightarrow> l_Client l = None"
  using assms unfolding inv_clients_def Let_def by blast+

lemma inv_clientsI:
  assumes "\<And>e. e < length (entries (pl S)) \<Longrightarrow> (\<forall>sid. mget (conns (pl S)) sid \<noteq> Some e) \<Longrightarrow> e_client (entries (pl S) ! e) = None"
    "\<And>c. owners c S \<le> 1" "\<And>c. \<not> closed (pl S) \<Longrightarrow> c \<in> set (gone (pl S)) \<Longrightarrow> owners c S = 0"
    "\<And>l. l \<in> set (lheap (pl S)) \<Longrightarrow> l_done l \<Longrightarrow> l_Client l = None"
  shows "inv_clients S"
  using assms unfolding inv_clients_def Let_def by blast

lemma pool_invI: "inv_shape S \<Longrightarrow> inv_slots S \<Longrightarrow> inv_clients S \<Longrightarrow> pool_inv S"
  by (simp add: pool_inv_def)

lemma inv_unowned:
  assumes inv: "pool_inv S" and o: "owners x S = 0"
  shows "pool_inv \<lparr>pl = close_conn (Some x) (pl S), thr = thr S\<rparr>"
proof -
  note D = inv_shapeD [OF pool_invD(1) [OF inv]] and E = inv_slotsD [OF pool_invD(2) [OF inv]]
    and C = inv_clientsD [OF pool_invD(3) [OF inv]]
  let ?S = "\<lparr>pl = close_conn (Some x) (pl S), thr = thr S\<rparr>"
  have h: "holders P ?S = holders P S" "waiters_at e ?S = waiters_at e S" "owners c ?S = owners c S" for P e c
    by (simp_all add: holders_def waiters_at_def owners_def)
  have pl: "placed (close_conn (Some x) (pl S)) = placed (pl S)" by (simp add: placed_def fun_eq_iff)
  show ?thesis
  proof (rule pool_invI)
    show "inv_shape ?S"
      by (rule inv_shapeI; unfold pool_sys.simps pl close_conn_fields) (fact D)+
    show "inv_slots ?S"
      by (rule inv_slotsI; unfold pool_sys.simps close_conn_fields h reports_same) (fact E)+
    show "inv_clients ?S"
      by (rule inv_clientsI; unfold pool_sys.simps close_conn_fields h) (use C o in auto)
  qed
qed

lemma inv_add_waiter:
  assumes inv: "pool_inv S" and a: "placed (pl S) (a_server a) (a_entry a)"
  shows "pool_inv \<lparr>pl = upd_entry (a_entry a) (\<lambda>x. x\<lparr>waiters := waiters x + 1\<rparr>) (pl S), thr = thr S @ [AWait a]\<rparr>"
    (is "pool_inv ?S")
proof -
  note D = inv_shapeD [OF pool_invD(1) [OF inv]] and E = inv_slotsD [OF pool_invD(2) [OF inv]]
    and C = inv_clientsD [OF pool_invD(3) [OF inv]]
  have pl: "placed (pl ?S) = placed (pl S)" by (simp add: placed_def fun_eq_iff)
  have h: "holders P ?S = holders P S" "owners c ?S = owners c S"
    "waiters_at e ?S = waiters_at e S + of_bool (e = a_entry a)" for P e c
    by (auto simp: holders_def waiters_at_def owners_def sat_def count_upd_entry_same)
  show ?thesis
  proof (rule pool_invI)
    show "inv_shape ?S"
      using D a by (intro inv_shapeI) (auto simp: pl [simplified])
    show "inv_slots ?S"
      by (rule inv_slotsI; (unfold h)?) (use E in \<open>auto simp: nth_upd_entry\<close>)
    show "inv_clients ?S"
      by (rule inv_clientsI; (unfold h)?) (use C in \<open>auto simp: nth_upd_entry\<close>)
  qed
qed

lemma inv_new_entry:
  assumes inv: "pool_inv S" and c: "\<not> closed (pl S)" and n: "mget (conns (pl S)) sid = None"
    and en: "e_client en = None" "sem en = 0" "waiters en = 0"
  shows "pool_inv \<lparr>pl = (pl S)\<lparr>entries := entries (pl S) @ [en],
      conns := mput sid (length (entries (pl S))) (conns (pl S))\<rparr>, thr = thr S\<rparr>" (is "pool_inv ?S")
proof -
  let ?n = "length (entries (pl S))"
  note D = inv_shapeD [OF pool_invD(1) [OF inv]] and E = inv_slotsD [OF pool_invD(2) [OF inv]]
    and C = inv_clientsD [OF pool_invD(3) [OF inv]]
  have pl: "placed (pl ?S) s e" if "placed (pl S) s e" for s e
    using that c n by (auto simp: placed_def)
  have h: "holders P ?S = holders P S" "owners x ?S = owners x S" "waiters_at e ?S = waiters_at e S" for P e x
    using en by (simp_all add: holders_def waiters_at_def owners_def)
  have z1: "\<not> sat (on_entry ?n) (pc_slot pc)" if "pc \<in> set (thr S)" for pc
    by (auto simp: sat_def on_entry_def placed_def dest!: D(6) [OF that] split: option.splits)
  have z2: "\<not> sat (\<lambda>w. snd w = ?n) (pc_wait pc)" if "pc \<in> set (thr S)" for pc
    by (auto simp: sat_def placed_def dest!: D(7) [OF that] split: option.splits)
  have z3: "\<not> sat (on_entry ?n) (lease_slot l)" if "l \<in> set (lheap (pl S))" for l
    by (auto simp: sat_def on_entry_def placed_def dest!: D(8) [OF that] split: option.splits)
  have z: "holders (on_entry ?n) S = 0" "waiters_at ?n S = 0"
    using z1 z2 z3 by (simp_all add: holders_def waiters_at_def count_if_zero)
  show ?thesis
  proof (rule pool_invI)
    show "inv_shape ?S"
    proof (rule inv_shapeI)
      show "e < length (entries (pl ?S))" if "mget (conns (pl ?S)) s = Some e" for s e
        using that D(3) by (auto split: if_splits simp: less_Suc_eq)
    qed (use D c pl in auto)
    show "inv_slots ?S"
      by (rule inv_slotsI; (unfold h)?) (use E z en in \<open>auto simp: nth_append less_Suc_eq\<close>)
    show "inv_clients ?S"
    proof (rule inv_clientsI; (unfold h)?)
      fix e assume e: "e < length (entries (pl ?S))" "\<forall>s. mget (conns (pl ?S)) s \<noteq> Some e"
      then have "e \<noteq> ?n" by (auto split: if_splits)
      moreover have "mget (conns (pl S)) s \<noteq> Some e" for s
        using e(2) n by (cases "s = sid") (auto split: if_splits)
      ultimately show "e_client (entries (pl ?S) ! e) = None"
        using e(1) C(1) [of e] by (auto simp: nth_append)
    qed (use C in auto)
  qed
qed

lemma inv_acquire:
  assumes inv: "pool_inv S" and a: "acquire_enter (pl S) sid fp fresh cons = Inr (p', a)"
  shows "pool_inv \<lparr>pl = p', thr = thr S @ [AWait a]\<rparr>"
proof -
  note D = inv_shapeD [OF pool_invD(1) [OF inv]]
  define en where "en = \<lparr>e_client = None, e_fingerprint = fp, e_generation = 1, lastUsed = 0, sem = 0, waiters = 0\<rparr>"
  have nc: "\<not> closed (pl S)" using a by (simp add: acquire_enter_def split: if_splits)
  have "\<exists>p1. pool_inv \<lparr>pl = p1, thr = thr S\<rparr> \<and> placed p1 (a_server a) (a_entry a) \<and>
    p' = upd_entry (a_entry a) (\<lambda>x. x\<lparr>waiters := waiters x + 1\<rparr>) p1"
  proof (cases "mget (conns (pl S)) sid")
    case None
    let ?p1 = "(pl S)\<lparr>entries := entries (pl S) @ [en], conns := mput sid (length (entries (pl S))) (conns (pl S))\<rparr>"
    have "pool_inv \<lparr>pl = ?p1, thr = thr S\<rparr>" by (rule inv_new_entry [OF inv nc None]) (simp_all add: en_def)
    then show ?thesis
      using a None nc by (intro exI [of _ ?p1]) (auto simp: acquire_enter_def Let_def placed_def en_def)
  next
    case (Some e)
    let ?p1 = "if e_fingerprint (entries (pl S) ! e) \<noteq> fp
      then close_conn (e_client (entries (pl S) ! e)) (upd_entry e (\<lambda>x. x\<lparr>e_client := None, e_fingerprint := fp,
             e_generation := e_generation x + 1\<rparr>) (pl S)) else pl S"
    have e: "e < length (entries (pl S))" by (rule D(3) [OF Some])
    have "quiet (pl S) ?p1" using e by (auto intro!: quiet_retire quiet_refl)
    then have "pool_inv \<lparr>pl = ?p1, thr = thr S\<rparr>" by (rule quiet_inv [OF inv])
    then show ?thesis
      using a Some nc e by (intro exI [of _ ?p1]) (auto simp: acquire_enter_def Let_def placed_def split: if_splits)
  qed
  then obtain p1 where p1: "pool_inv \<lparr>pl = p1, thr = thr S\<rparr>" "placed p1 (a_server a) (a_entry a)"
    "p' = upd_entry (a_entry a) (\<lambda>x. x\<lparr>waiters := waiters x + 1\<rparr>) p1" by blast
  from inv_add_waiter [OF p1(1), of a] p1(2,3) show ?thesis by simp
qed

lemma lease_slot_upd:
  "lease_slot (x\<lparr>l_done := True\<rparr>) = None" "lease_slot (x\<lparr>l_Client := c\<rparr>) = lease_slot x"
  by (simp_all add: lease_slot_def)

lemma sat_simps: "sat P None = False" "sat P (Some y) = P y"
  by (simp_all add: sat_def)

lemma count_upd_lease:
  "l < length (lheap p) \<Longrightarrow> count_if P (lheap (upd_lease l f p)) + of_bool (P (lheap p ! l)) =
     count_if P (lheap p) + of_bool (P (f (lheap p ! l)))"
  using count_if_upd_bool [of l "lheap p" P "f (lheap p ! l)"] by (simp add: upd_lease_def)

lemma set_upd_lease: "y \<in> set (lheap (upd_lease l f p)) \<Longrightarrow> y \<in> set (lheap p) \<or> l < length (lheap p) \<and> y = f (lheap p ! l)"
  using set_update_subset_insert [of "lheap p" l "f (lheap p ! l)"] by (auto simp: upd_lease_def split: if_splits)

lemma inv_finish:
  assumes inv: "pool_inv S" and l: "l < length (lheap (pl S))" and f: "finish_lease l (pl S) = Some (p', c)"
  shows "pool_inv \<lparr>pl = p', thr = thr S @ [FLock l (l_serverID (lheap (pl S) ! l)) (l_entry (lheap (pl S) ! l))
      (l_consumer (lheap (pl S) ! l)) discard c]\<rparr>" (is "pool_inv ?S")
proof -
  note D = inv_shapeD [OF pool_invD(1) [OF inv]] and E = inv_slotsD [OF pool_invD(2) [OF inv]]
    and C = inv_clientsD [OF pool_invD(3) [OF inv]]
  let ?l = "lheap (pl S) ! l" and ?f = "\<lambda>x. x\<lparr>l_done := True, l_Client := None\<rparr>"
  have nd: "\<not> l_done ?l" and p': "p' = upd_lease l ?f (pl S)" and c: "c = l_Client ?l"
    using f by (auto simp: finish_lease_def split: if_splits)
  have m: "?l \<in> set (lheap (pl S))" using l by simp
  have ls: "lease_slot ?l = Some (l_serverID ?l, l_entry ?l, l_consumer ?l)" using nd by (simp add: lease_slot_def)
  have pl: "placed p' = placed (pl S)" by (simp add: placed_def fun_eq_iff p')
  have h: "holders P ?S = holders P S" for P
    using count_upd_lease [OF l, of "\<lambda>l. sat P (lease_slot l)" ?f] ls
    by (auto simp: holders_def p' lease_slot_upd sat_simps)
  have w: "waiters_at e ?S = waiters_at e S" for e by (simp add: waiters_at_def sat_def)
  have o: "owners x ?S = owners x S" for x
    using count_upd_lease [OF l, of "\<lambda>l. l_Client l = Some x" ?f] by (auto simp: owners_def p' c)
  have s: "y \<in> set (lheap (pl S)) \<or> l_done y \<and> l_Client y = None" if "y \<in> set (lheap p')" for y
    using set_upd_lease [of y l ?f "pl S"] that by (auto simp: p')
  show ?thesis
  proof (rule pool_invI)
    show "inv_shape ?S"
    proof (rule inv_shapeI)
      show "placed (pl ?S) sid e" if "pc \<in> set (thr ?S)" "pc_slot pc = Some (sid, e, k)" for pc sid e k
        using that D(6) D(8) [OF m ls] by (auto simp: pl)
      show "placed (pl ?S) sid e" if "y \<in> set (lheap (pl ?S))" "lease_slot y = Some (sid, e, k)" for y sid e k
        using that s [of y] D(8) by (auto simp: pl lease_slot_def split: if_splits)
    qed (use D in \<open>auto simp: p' pl [unfolded p']\<close>)
    show "inv_slots ?S"
      by (rule inv_slotsI; (unfold h w)?) (use E in \<open>auto simp: p'\<close>)
    show "inv_clients ?S"
    proof (rule inv_clientsI; (unfold o)?)
      show "l_Client y = None" if "y \<in> set (lheap (pl ?S))" "l_done y" for y
        using that s [of y] C(4) by auto
    qed (use C in \<open>auto simp: p'\<close>)
  qed
qed

lemma inv_give:
  assumes inv: "pool_inv S" and l: "l < length (lheap (pl S))" and n: "l_Client (lheap (pl S) ! l) = None"
    and nd: "\<not> l_done (lheap (pl S) ! l)" and fr: "owners x S = 0" "x \<notin> set (gone (pl S))"
  shows "pool_inv \<lparr>pl = upd_lease l (\<lambda>y. y\<lparr>l_Client := Some x\<rparr>) (pl S), thr = thr S\<rparr>" (is "pool_inv ?S")
proof -
  note D = inv_shapeD [OF pool_invD(1) [OF inv]] and E = inv_slotsD [OF pool_invD(2) [OF inv]]
    and C = inv_clientsD [OF pool_invD(3) [OF inv]]
  let ?f = "\<lambda>y. y\<lparr>l_Client := Some x\<rparr>"
  have pl: "placed (pl ?S) = placed (pl S)" by (simp add: placed_def fun_eq_iff)
  have ls: "map lease_slot (lheap (pl ?S)) = map lease_slot (lheap (pl S))"
    using upd_lease_same [of lease_slot ?f l "pl S"] by (simp add: lease_slot_def)
  then have lset: "lease_slot ` set (lheap (pl ?S)) = lease_slot ` set (lheap (pl S))" by (metis list.set_map)
  have h: "holders P ?S = holders P S" for P
    using count_upd_lease [OF l, of "\<lambda>l. sat P (lease_slot l)" ?f] by (simp add: holders_def lease_slot_upd)
  have w: "waiters_at e ?S = waiters_at e S" for e by (simp add: waiters_at_def)
  have o: "owners y ?S = owners y S + of_bool (y = x)" for y
    using count_upd_lease [OF l, of "\<lambda>l. l_Client l = Some y" ?f] n by (auto simp: owners_def)
  show ?thesis
  proof (rule pool_invI)
    show "inv_shape ?S"
    proof (rule inv_shapeI)
      show "placed (pl ?S) sid e" if y: "y \<in> set (lheap (pl ?S))" "lease_slot y = Some (sid, e, k)" for y sid e k
      proof -
        have "Some (sid, e, k) \<in> lease_slot ` set (lheap (pl S))" using y lset by force
        then obtain z where "z \<in> set (lheap (pl S))" "lease_slot z = Some (sid, e, k)" by force
        then show ?thesis unfolding pl by (rule D(8))
      qed
    qed (use D in \<open>auto simp: pl [simplified]\<close>)
    show "inv_slots ?S"
      by (rule inv_slotsI; (unfold h w)?) (use E in auto)
    show "inv_clients ?S"
    proof (rule inv_clientsI; (unfold o)?)
      show "l_Client y = None" if "y \<in> set (lheap (pl ?S))" "l_done y" for y
        using set_upd_lease [of y l ?f "pl S"] that C(4) nd by auto
      show "owners c S + of_bool (c = x) \<le> 1" for c using C(2) [of c] fr(1) by (cases "c = x") auto
      show "owners c S + of_bool (c = x) = 0" if "\<not> closed (pl ?S)" "c \<in> set (gone (pl ?S))" for c
        using that C(3) [of c] fr(2) by auto
    qed (use C in auto)
  qed
qed

lemma quiet_clear:
  assumes "l < length (lheap p)"
  shows "quiet p (close_conn (l_Client (lheap p ! l)) (upd_lease l (\<lambda>y. y\<lparr>l_Client := None\<rparr>) p))"
proof (rule quietI)
  let ?f = "\<lambda>y. y\<lparr>l_Client := None\<rparr>" and ?p = "close_conn (l_Client (lheap p ! l)) (upd_lease l (\<lambda>y. y\<lparr>l_Client := None\<rparr>) p)"
  have c: "leased_count x (upd_lease l ?f p) + of_bool (l_Client (lheap p ! l) = Some x) = leased_count x p" for x
    using count_upd_lease [OF assms, of "\<lambda>l. l_Client l = Some x" ?f] by auto
  show "kept x ?p \<le> kept x p" for x using c [of x] by simp
  show "x \<in> set (gone ?p) \<Longrightarrow> x \<in> set (gone p) \<or> closed p \<or> kept x ?p < kept x p" for x
    using c [of x] by auto
  show "map lease_slot (lheap ?p) = map lease_slot (lheap p)"
    using upd_lease_same [of lease_slot ?f l p] by (simp add: lease_slot_upd)
  show "(\<forall>l\<in>set (lheap p). l_done l \<longrightarrow> l_Client l = None) \<longrightarrow> (\<forall>l\<in>set (lheap ?p). l_done l \<longrightarrow> l_Client l = None)"
    by (auto dest!: set_upd_lease)
qed (simp_all add: frame_def)

lemma SetClient_open:
  assumes "l < length (lheap p)" "\<not> l_done (lheap p ! l)" "\<not> closed p"
  shows "SetClient l c p = (let old = l_Client (lheap p ! l) in
    if c = old then p
    else upd_lease l (\<lambda>y. y\<lparr>l_Client := c\<rparr>) (close_conn old (upd_lease l (\<lambda>y. y\<lparr>l_Client := None\<rparr>) p)))"
  using assms
  by (simp add: SetClient_def Let_def upd_lease_def close_conn_def list_update_id split: option.splits)

lemma inv_set:
  assumes inv: "pool_inv S" and l: "l < length (lheap (pl S))"
    and c: "c = None \<or> c = l_Client (lheap (pl S) ! l) \<or> (owners (the c) S = 0 \<and> the c \<notin> set (gone (pl S)))"
  shows "pool_inv \<lparr>pl = SetClient l c (pl S), thr = thr S\<rparr>"
proof -
  note C = inv_clientsD [OF pool_invD(3) [OF inv]]
  let ?l = "lheap (pl S) ! l"
  have m: "?l \<in> set (lheap (pl S))" using l by simp
  let ?p = "close_conn (l_Client ?l) (upd_lease l (\<lambda>y. y\<lparr>l_Client := None\<rparr>) (pl S))"
  have q: "quiet (pl S) ?p" by (rule quiet_clear [OF l])
  have i: "pool_inv \<lparr>pl = ?p, thr = thr S\<rparr>" by (rule quiet_inv [OF inv q])
  have self: "pool_inv \<lparr>pl = pl S, thr = thr S\<rparr>" using inv by (cases S) simp
  consider (fin) "l_done ?l" | (shut) "\<not> l_done ?l" "closed (pl S)" | (opn) "\<not> l_done ?l" "\<not> closed (pl S)" by blast
  then show ?thesis
  proof cases
    case fin
    have eq: "SetClient l c (pl S) = close_conn c (pl S)" using fin by (simp add: SetClient_def)
    show ?thesis
    proof (cases c)
      case None
      then show ?thesis using eq self by (simp add: close_conn_def)
    next
      case (Some x)
      then have "owners x S = 0" using c C(4) [OF m fin] by simp
      then show ?thesis using inv_unowned [OF inv] eq Some by simp
    qed
  next
    case shut
    have cl: "closed ?p" using shut by simp
    have "SetClient l c (pl S) = (if c \<noteq> l_Client ?l then close_conn c ?p else ?p)"
      using shut by (simp add: SetClient_def Let_def)
    then show ?thesis using i quiet_inv [OF i, of "close_conn c ?p"] quiet_close_closed [OF cl] by simp
  next
    case opn
    show ?thesis
    proof (cases "c = l_Client ?l")
      case True
      then show ?thesis using SetClient_open [OF l opn, of c] self by (simp add: Let_def)
    next
      case ne: False
      have eq: "SetClient l c (pl S) = upd_lease l (\<lambda>y. y\<lparr>l_Client := c\<rparr>) ?p"
        using SetClient_open [OF l opn, of c] ne by (simp add: Let_def)
      have lp: "lheap ?p ! l = ?l\<lparr>l_Client := None\<rparr>" "length (lheap ?p) = length (lheap (pl S))"
        using l by (simp_all add: upd_lease_def)
      show ?thesis
      proof (cases c)
        case None
        have "upd_lease l (\<lambda>y. y\<lparr>l_Client := c\<rparr>) ?p = ?p"
          using l None by (simp add: upd_lease_def close_conn_def split: option.splits)
        then show ?thesis using eq i by simp
      next
        case (Some x)
        have x: "owners x S = 0" "x \<notin> set (gone (pl S))" using c ne Some by auto
        have "owners x \<lparr>pl = ?p, thr = thr S\<rparr> = 0"
          using x(1) quietD(7) [OF q, of x] by (simp add: owners_def)
        moreover have "x \<notin> set (gone ?p)"
          using x count_if_pos [of l "lheap (pl S)" "\<lambda>l. l_Client l = Some x"] l by (auto simp: owners_def)
        ultimately show ?thesis
          using inv_give [OF i, of l x] lp l opn eq Some by simp
      qed
    qed
  qed
qed

lemma inv_drop_conn:
  assumes inv: "pool_inv S" and m: "mget (conns (pl S)) sid = Some e"
    and z: "e_client (entries (pl S) ! e) = None" "sem (entries (pl S) ! e) = 0" "waiters (entries (pl S) ! e) = 0"
  shows "pool_inv \<lparr>pl = (pl S)\<lparr>conns := mdel sid (conns (pl S))\<rparr>, thr = thr S\<rparr>" (is "pool_inv ?S")
proof -
  note D = inv_shapeD [OF pool_invD(1) [OF inv]] and E = inv_slotsD [OF pool_invD(2) [OF inv]]
    and C = inv_clientsD [OF pool_invD(3) [OF inv]]
  have e: "e < length (entries (pl S))" by (rule D(3) [OF m])
  have nc: "\<not> closed (pl S)" using D(4) m by auto
  have h0: "holders (on_entry e) S = 0" "waiters_at e S = 0" using E(1,3) [OF e] z by simp_all
  have u1: "pc_slot pc \<noteq> Some (s, e, k)" if "pc \<in> set (thr S)" for pc s k
    using h0(1) that by (auto simp: holders_def count_if_zero sat_def on_entry_def)
  have u2: "pc_wait pc \<noteq> Some (s, e)" if "pc \<in> set (thr S)" for pc s
    using h0(2) that by (auto simp: waiters_at_def count_if_zero sat_def)
  have u3: "lease_slot l \<noteq> Some (s, e, k)" if "l \<in> set (lheap (pl S))" for l s k
    using h0(1) that by (auto simp: holders_def count_if_zero sat_def on_entry_def)
  have pl: "placed (pl ?S) s f" if "placed (pl S) s f" "f \<noteq> e" for s f
    using that m nc by (auto simp: placed_def)
  have h: "holders P ?S = holders P S" "waiters_at f ?S = waiters_at f S" "owners c ?S = owners c S" for P f c
    by (simp_all add: holders_def waiters_at_def owners_def)
  show ?thesis
  proof (rule pool_invI)
    show "inv_shape ?S"
    proof (rule inv_shapeI)
      show "placed (pl ?S) s f" if "pc \<in> set (thr ?S)" "pc_slot pc = Some (s, f, k)" for pc s f k
        using that u1 [of pc s k] D(6) by (intro pl) auto
      show "placed (pl ?S) s f" if "pc \<in> set (thr ?S)" "pc_wait pc = Some (s, f)" for pc s f
        using that u2 [of pc s] D(7) by (intro pl) auto
      show "placed (pl ?S) s f" if "l \<in> set (lheap (pl ?S))" "lease_slot l = Some (s, f, k)" for l s f k
        using that u3 [of l s k] D(8) by (intro pl) auto
      show "f < length (entries (pl ?S))" if "mget (conns (pl ?S)) s = Some f" for s f
        using that D(3) by (auto split: if_splits)
    qed (use D nc in auto)
    show "inv_slots ?S"
      by (rule inv_slotsI; (unfold h)?) (use E in auto)
    show "inv_clients ?S"
    proof (rule inv_clientsI; (unfold h)?)
      fix f assume f: "f < length (entries (pl ?S))" "\<forall>s. mget (conns (pl ?S)) s \<noteq> Some f"
      show "e_client (entries (pl ?S) ! f) = None"
      proof (cases "f = e")
        case False
        then have "mget (conns (pl S)) s \<noteq> Some f" for s using f(2) m by (cases "s = sid") (auto split: if_splits)
        then show ?thesis using f(1) C(1) [of f] by simp
      qed (simp add: z)
    qed (use C in auto)
  qed
qed

lemma evict_entry_inv:
  assumes inv: "pool_inv S" and m: "mget (conns (pl S)) sid = Some e"
  shows "pool_inv \<lparr>pl = evict_entry rt now (sid, e) (pl S), thr = thr S\<rparr>"
    and "j \<noteq> sid \<Longrightarrow> mget (conns (evict_entry rt now (sid, e) (pl S))) j = mget (conns (pl S)) j"
proof -
  have e: "e < length (entries (pl S))" using inv_shapeD(3) [OF pool_invD(1) [OF inv] m] .
  define p1 where "p1 = (if e_client (entries (pl S) ! e) \<noteq> None \<and>
    idleLimit rt (pl S) < Sub now (lastUsed (entries (pl S) ! e)) then close_entry e (pl S) else pl S)"
  have "quiet (pl S) p1" using e by (auto simp: p1_def intro: quiet_close_entry quiet_refl)
  then have i1: "pool_inv \<lparr>pl = p1, thr = thr S\<rparr>" and c1: "conns p1 = conns (pl S)"
    using quiet_inv [OF inv] quietD(1) by (auto simp: frame_def)
  have eq: "evict_entry rt now (sid, e) (pl S) = (if e_client (entries p1 ! e) = None \<and>
    sem (entries p1 ! e) = 0 \<and> waiters (entries p1 ! e) = 0 then p1\<lparr>conns := mdel sid (conns p1)\<rparr> else p1)"
    by (simp add: evict_entry_def p1_def Let_def)
  show "pool_inv \<lparr>pl = evict_entry rt now (sid, e) (pl S), thr = thr S\<rparr>"
    unfolding eq using i1 inv_drop_conn [OF i1, of sid e] m c1 by simp
  show "j \<noteq> sid \<Longrightarrow> mget (conns (evict_entry rt now (sid, e) (pl S))) j = mget (conns (pl S)) j"
    unfolding eq using c1 by simp
qed

lemma evict_inv:
  assumes inv: "pool_inv S"
  shows "pool_inv \<lparr>pl = evict rt now (pl S), thr = thr S\<rparr>"
proof -
  have "pool_inv \<lparr>pl = fold (evict_entry rt now) xs p, thr = t\<rparr>"
    if "pool_inv \<lparr>pl = p, thr = t\<rparr>" "distinct (map fst xs)" "\<forall>(s, e)\<in>set xs. mget (conns p) s = Some e" for xs p t
    using that
  proof (induction xs arbitrary: p)
    case (Cons x xs)
    obtain s e where x: "x = (s, e)" by (cases x)
    note E = evict_entry_inv [of "\<lparr>pl = p, thr = t\<rparr>" s e, where rt = rt and now = now]
    have "pool_inv \<lparr>pl = evict_entry rt now x p, thr = t\<rparr>" using E(1) Cons.prems x by simp
    moreover have "\<forall>(s', e')\<in>set xs. mget (conns (evict_entry rt now x p)) s' = Some e'"
      using E(2) Cons.prems x by (force simp: image_iff)
    ultimately show ?case using Cons.IH Cons.prems(2) by simp
  qed simp
  moreover have "distinct (map fst (conns (pl S)))" using inv_shapeD(2) [OF pool_invD(1) [OF inv]] by (simp add: mok_def)
  moreover have "pool_inv \<lparr>pl = pl S, thr = thr S\<rparr>" using inv by (cases S) simp
  ultimately show ?thesis by (auto simp: evict_def)
qed

lemma fold_close_entry:
  assumes "\<forall>e\<in>set es. e < length (entries p)"
  shows "quiet p (fold close_entry es p) \<and> (\<forall>e\<in>set es. e_client (entries (fold close_entry es p) ! e) = None)"
  using assms
proof (induction es arbitrary: p)
  case (Cons e es)
  have q: "quiet p (close_entry e p)" using Cons.prems by (simp add: quiet_close_entry)
  have n: "length (entries (close_entry e p)) = length (entries p)" using quietD(1) [OF q] by (simp add: frame_def)
  have IH: "quiet (close_entry e p) (fold close_entry es (close_entry e p)) \<and>
    (\<forall>x\<in>set es. e_client (entries (fold close_entry es (close_entry e p)) ! x) = None)"
    using Cons.prems n by (intro Cons.IH) simp
  have "e_client (entries (close_entry e p) ! e) = None" using Cons.prems by (simp add: close_entry_def nth_upd_entry)
  then have "e_client (entries (fold close_entry es (close_entry e p)) ! e) = None"
    using quietD(6) [OF conjunct1 [OF IH], of e] Cons.prems n by auto
  then show ?case using IH quiet_trans [OF q] by simp
qed (simp add: quiet_refl)

lemma Close_inv:
  assumes inv: "pool_inv S" and c: "Close (pl S) = (p', ls)"
  shows "pool_inv \<lparr>pl = p', thr = thr S @ [CLeases ls]\<rparr>" (is "pool_inv ?S")
proof -
  define q where "q = (if closed (pl S) then pl S else fold close_entry (map snd (conns (pl S))) (pl S))"
  have mk: "mok (conns (pl S))" by (rule inv_shapeD(2) [OF pool_invD(1) [OF inv]])
  have mem: "mget (conns (pl S)) s = Some e" if "(s, e) \<in> set (conns (pl S))" for s e
    using mk that by (simp add: mok_def)
  have lt: "\<forall>e\<in>set (map snd (conns (pl S))). e < length (entries (pl S))"
    using mem inv_shapeD(3) [OF pool_invD(1) [OF inv]] by fastforce
  have qq: "quiet (pl S) q" using fold_close_entry [OF lt] by (simp add: q_def quiet_refl)
  have qi: "pool_inv \<lparr>pl = q, thr = thr S\<rparr>" by (rule quiet_inv [OF inv qq])
  have p': "p' = q\<lparr>closed := True, conns := []\<rparr>"
    using c inv_shapeD(4) [OF pool_invD(1) [OF inv]] by (auto simp: Close_def q_def split: if_splits)
  note D = inv_shapeD [OF pool_invD(1) [OF qi]] and E = inv_slotsD [OF pool_invD(2) [OF qi]]
    and C = inv_clientsD [OF pool_invD(3) [OF qi]]
  let ?Q = "\<lparr>pl = q, thr = thr S\<rparr>"
  have fr: "conns q = conns (pl S)" "closed q = closed (pl S)" "length (entries q) = length (entries (pl S))"
    using quietD(1) [OF qq] by (simp_all add: frame_def)
  have none: "e_client (entries q ! e) = None" if e: "e < length (entries q)" for e
  proof (cases "\<exists>s. mget (conns q) s = Some e")
    case True
    then have "\<not> closed (pl S)" using D(4) fr by auto
    moreover have "e \<in> set (map snd (conns (pl S)))" using True fr by (force dest: map_of_SomeD)
    ultimately show ?thesis using fold_close_entry [OF lt] by (auto simp: q_def)
  next
    case False
    then show ?thesis using C(1) [of e] e by simp
  qed
  have h: "holders P ?S = holders P ?Q" "waiters_at e ?S = waiters_at e ?Q" "owners x ?S = owners x ?Q" for P e x
    by (simp_all add: holders_def waiters_at_def owners_def p' sat_def)
  have pl: "placed (pl ?S) s e" if "placed q s e" for s e using that by (simp add: placed_def p')
  show ?thesis
  proof (rule pool_invI)
    show "inv_shape ?S"
      by (rule inv_shapeI) (use D pl in \<open>auto simp: p'\<close>)
    show "inv_slots ?S"
      by (rule inv_slotsI; (unfold h)?) (use E in \<open>auto simp: p'\<close>)
    show "inv_clients ?S"
      by (rule inv_clientsI; (unfold h)?) (use C none in \<open>auto simp: p'\<close>)
  qed
qed

lemma pool_step_inv: "pool_step S T \<Longrightarrow> pool_inv S \<Longrightarrow> pool_inv T"
proof (induction rule: pool_step.induct)
  case (p_run i S ev p' pc')
  then show ?case
    by (intro pool_invI run_inv_shape run_inv_slots run_inv_clients) (auto dest: pool_invD)
next
  case (p_rebind l S fp p' ok)
  then show ?case by (intro quiet_inv quiet_Rebind [of _ l fp]) (auto dest: pool_invD inv_shapeD(3))
next
  case (p_observe S b)
  have "quiet (pl S) (SetQuotaObserver b (pl S))" by (simp add: quiet_def frame_def SetQuotaObserver_def)
  with p_observe show ?case by (intro quiet_inv)
next
  case (p_invalidate S sid)
  then show ?case by (intro quiet_inv quiet_Invalidate) (auto dest: pool_invD inv_shapeD(3))
next
  case (p_legacy l S p' c)
  then show ?case by (blast intro: quiet_inv quiet_LegacyClient)
next
  case (p_legacy_take sid c S p' l)
  then show ?case by (blast intro: quiet_inv quiet_legacyLease)
next
  case (p_legacy_none sid c S p')
  then have i: "pool_inv \<lparr>pl = p', thr = thr S\<rparr>" by (blast intro: quiet_inv quiet_legacyLease)
  have "owners c \<lparr>pl = p', thr = thr S\<rparr> = 0"
    using p_legacy_none quietD(7) [OF quiet_legacyLease [OF p_legacy_none(1)], of c] by (simp add: owners_def)
  from inv_unowned [OF i this] show ?case by simp
qed (blast intro: inv_acquire inv_finish inv_set evict_inv Close_inv)+

lemma pool_init_inv: "pool_init S \<Longrightarrow> pool_inv S"
  by (auto simp: pool_init_def NewPool_def pool_inv_def inv_shape_def inv_slots_def inv_clients_def
      holders_def rising_def falling_def owners_def Let_def)

interpretation pools: transition_system pool_init pool_step pool_inv
  by unfold_locales (auto intro: pool_init_inv pool_step_inv)

section \<open>Properties\<close>

lemma count_if_mono: "(\<And>x. x \<in> set xs \<Longrightarrow> P x \<Longrightarrow> Q x) \<Longrightarrow> count_if P xs \<le> count_if Q xs"
  by (induction xs) auto

lemma sat_mono: "sat P x \<Longrightarrow> (\<And>y. x = Some y \<Longrightarrow> P y \<Longrightarrow> Q y) \<Longrightarrow> sat Q x"
  by (auto simp: sat_def split: option.splits)

definition for_server :: "uint \<Rightarrow> uint \<times> eid \<times> string \<Rightarrow> bool" where
  "for_server sid = (\<lambda>(s, e, k). s = sid)"

lemma server_holders:
  assumes "inv_shape S" and "\<not> closed (pl S)" and "mget (conns (pl S)) sid = Some e"
  shows "holders (for_server sid) S \<le> holders (on_entry e) S"
proof -
  note D = inv_shapeD [OF assms(1)]
  have p: "placed (pl S) sid f \<Longrightarrow> f = e" for f using assms(2,3) by (simp add: placed_def)
  show ?thesis
    unfolding holders_def
    by (intro add_mono count_if_mono; erule sat_mono)
      (use p in \<open>auto simp: for_server_def on_entry_def dest!: D(6) D(8)\<close>)
qed

lemma server_idle:
  assumes "inv_shape S" and "\<not> closed (pl S)" and "mget (conns (pl S)) sid = None"
  shows "holders (for_server sid) S = 0"
proof -
  note D = inv_shapeD [OF assms(1)]
  have p: "\<not> placed (pl S) sid f" for f using assms(2,3) by (simp add: placed_def)
  have "\<not> sat (for_server sid) (pc_slot pc)" if "pc \<in> set (thr S)" for pc
    using p D(6) [OF that] by (auto simp: for_server_def sat_def split: option.splits)
  moreover have "\<not> sat (for_server sid) (lease_slot l)" if "l \<in> set (lheap (pl S))" for l
    using p D(8) [OF that] by (auto simp: for_server_def sat_def split: option.splits)
  ultimately show ?thesis by (simp add: holders_def count_if_zero)
qed

lemma slot_held:
  assumes "inv_slots S" and "inv_shape S" and "pc \<in> set (thr S)" and "pc_slot pc = Some (sid, e, k)"
  shows "give_slot e (pl S) \<noteq> None"
proof -
  have e: "e < length (entries (pl S))" using inv_shapeD(6) [OF assms(2,3,4)] by (simp add: placed_def)
  have "sat (on_entry e) (pc_slot pc)" using assms(4) by (simp add: sat_def on_entry_def)
  then have "count_if (\<lambda>pc. sat (on_entry e) (pc_slot pc)) (thr S) \<noteq> 0"
    using assms(3) unfolding count_if_zero by blast
  then have "sem (entries (pl S) ! e) \<noteq> 0" using inv_slotsD(1) [OF assms(1) e] by (simp add: holders_def)
  then show ?thesis using e by (auto simp: give_slot_def chan_release_def split: nat.splits)
qed

text \<open>C6. Concurrency per server. In every interleaving of acquisitions, probes, releases,
  reconfigurations, evictions and shutdown, with taking a slot, giving it back and each report to the
  quota observer as steps of their own: while the pool is open, the borrowed connections of one
  server, whether just taken, probing, leased or being returned, never exceed \<^verbatim>\<open>maxConns\<close>; those
  of one entry never do, open or closed; giving back a held slot never blocks; and what the
  observer was told of a consumer, with what it was not told for want of an observer, is the
  number of slots the consumer holds, less the slots taken whose report is under way, plus those
  given back whose report is under way. Between reports it is therefore exact; during them it may
  be off by as many as are under way.\<close>

theorem pool_slots_bounded:
  assumes "reach pool_init pool_step S"
  shows "(\<not> closed (pl S) \<longrightarrow> holders (for_server sid) S \<le> maxConns (pl S)) \<and>
    (e < length (entries (pl S)) \<longrightarrow> holders (on_entry e) S \<le> maxConns (pl S)) \<and>
    (\<forall>pc\<in>set (thr S). \<forall>s e' c. pc_slot pc = Some (s, e', c) \<longrightarrow> give_slot e' (pl S) \<noteq> None) \<and>
    heard (pl S) k + missed (pl S) k =
      int (holders (by_consumer k) S) - int (rising k S) + int (falling k S)"
proof -
  have inv: "pool_inv S" by (rule pools.reach_inv [OF assms])
  note D = pool_invD [OF inv]
  have "holders (for_server sid) S \<le> maxConns (pl S)" if "\<not> closed (pl S)"
  proof (cases "mget (conns (pl S)) sid")
    case None
    then show ?thesis using server_idle [OF D(1) that] by simp
  next
    case (Some e)
    have "e < length (entries (pl S))" by (rule inv_shapeD(3) [OF D(1) Some])
    with server_holders [OF D(1) that Some] inv_slotsD(2) [OF D(2)] show ?thesis by (meson le_trans)
  qed
  then show ?thesis using inv_slotsD(2,4) [OF D(2)] slot_held [OF D(2,1)] by blast
qed

text \<open>A run for the examples: one goroutine acquires a lease from a pool of two slots.\<close>

definition run_event :: "event \<Rightarrow> nat \<Rightarrow> pool_sys \<Rightarrow> pool_sys" where
  "run_event ev i S = (case run_pc ev (thr S ! i) (pl S) of None \<Rightarrow> S | Some (p, pc) \<Rightarrow> \<lparr>pl = p, thr = (thr S)[i := pc]\<rparr>)"

lemma run_event_reach:
  "reach pool_init pool_step S \<Longrightarrow> i < length (thr S) \<Longrightarrow> reach pool_init pool_step (run_event ev i S)"
  by (auto simp: run_event_def split: option.splits intro: reach_step p_run)

definition demo0 :: pool_sys where
  "demo0 = (case acquire_enter (NewPool minute 2) 7 ''fp'' False ''exec'' of
     Inl _ \<Rightarrow> \<lparr>pl = NewPool minute 2, thr = []\<rparr> | Inr (p, a) \<Rightarrow> \<lparr>pl = p, thr = [AWait a]\<rparr>)"

lemma demo0_reach: "reach pool_init pool_step demo0"
proof -
  let ?S = "\<lparr>pl = NewPool minute 2, thr = []\<rparr>"
  have r: "reach pool_init pool_step ?S" by (rule reach_init) (auto simp: pool_init_def)
  obtain p a where a: "acquire_enter (NewPool minute 2) 7 ''fp'' False ''exec'' = Inr (p, a)"
    by (simp add: acquire_enter_def NewPool_def Let_def)
  then have "pool_step ?S demo0" using p_acquire [of ?S 7 "''fp''" False "''exec''" p a] by (simp add: demo0_def)
  with r show ?thesis by (rule reach_step)
qed

definition demo :: pool_sys where
  "demo = run_event (EvLock 9 False) 0 (run_event (EvLock 8 False) 0 (run_event (EvLock 8 False) 0 (run_event EvSlot 0 demo0)))"

lemmas demo_eval = demo_def demo0_def run_event_def acquire_enter_def NewPool_def Let_def acquire_slot_def
  chan_take_def upd_entry_def miss_def leave_waiters_def acquire_check_def take_client_def
  new_lease_def

lemma demo_reach: "reach pool_init pool_step demo"
  unfolding demo_def
  by (intro run_event_reach demo0_reach) (simp_all add: demo_eval)

text \<open>A longer run: with an observer installed, the lease is taken and reported, given the
  transport 5 and returned; the transport is cached and the slot given back, but the return is not
  yet reported when a third goroutine takes a slot and reports it. The observer has then heard of two
  slots while one is held.\<close>

definition busy1 :: pool_sys where
  "busy1 = \<lparr>pl = SetQuotaObserver True (pl demo0), thr = thr demo0\<rparr>"

definition busy2 :: pool_sys where
  "busy2 = run_event (EvLock 9 False) 0 (run_event (EvLock 8 False) 0 (run_event EvObserver 0
     (run_event (EvLock 7 False) 0 (run_event EvSlot 0 busy1))))"

definition busy3 :: pool_sys where
  "busy3 = \<lparr>pl = SetClient 0 (Some 5) (pl busy2), thr = thr busy2\<rparr>"

definition busy4 :: pool_sys where
  "busy4 = \<lparr>pl = fst (the (finish_lease 0 (pl busy3))), thr = thr busy3 @ [FLock 0 7 0 ''exec'' False (Some 5)]\<rparr>"

definition busy5 :: pool_sys where
  "busy5 = run_event EvSlot 1 (run_event (EvLock 10 False) 1 busy4)"

definition busy6 :: pool_sys where
  "busy6 = (case acquire_enter (pl busy5) 7 ''fp'' False ''exec'' of
     Inl _ \<Rightarrow> busy5 | Inr (p, a) \<Rightarrow> \<lparr>pl = p, thr = thr busy5 @ [AWait a]\<rparr>)"

definition busy :: pool_sys where
  "busy = run_event EvObserver 2 (run_event (EvLock 11 False) 2 (run_event EvSlot 2 busy6))"

lemma busy2_eval:
  "busy2 = \<lparr>pl = \<lparr>conns = [(7, 0)], entries = [\<lparr>e_client = None, e_fingerprint = ''fp'', e_generation = 1,
       lastUsed = 8, sem = 1, waiters = 0\<rparr>], lheap = [\<lparr>l_Client = None, l_entry = 0, l_serverID = 7,
       l_generation = 1, l_fingerprint = ''fp'', l_done = False, l_cacheable = True, l_legacy = False,
       l_original = None, l_consumer = ''exec''\<rparr>], leases = [0], legacy = [], maxIdle = minute, maxConns = 2,
       closed = False, gone = [], observed = True, quota = (\<lambda>_. (0, 0))(''exec'' := (1, 0))\<rparr>,
     thr = [Returned None (Some 0)]\<rparr>"
  by (simp add: busy2_def busy1_def SetQuotaObserver_def tell_def demo_eval)

lemma busy5_eval:
  "busy5 = \<lparr>pl = \<lparr>conns = [(7, 0)], entries = [\<lparr>e_client = Some 5, e_fingerprint = ''fp'', e_generation = 1,
       lastUsed = 10, sem = 0, waiters = 0\<rparr>], lheap = [\<lparr>l_Client = None, l_entry = 0, l_serverID = 7,
       l_generation = 1, l_fingerprint = ''fp'', l_done = True, l_cacheable = True, l_legacy = False,
       l_original = None, l_consumer = ''exec''\<rparr>], leases = [], legacy = [], maxIdle = minute, maxConns = 2,
       closed = False, gone = [], observed = True, quota = (\<lambda>_. (0, 0))(''exec'' := (1, 0))\<rparr>,
     thr = [Returned None (Some 0), FTell ''exec'' None False]\<rparr>"
  by (simp add: busy5_def busy4_def busy3_def busy2_eval SetClient_def upd_lease_def close_conn_def finish_lease_def
      run_event_def finish_pool_def unregister_def current_def upd_entry_def give_slot_def chan_release_def Let_def)

lemmas busy_eval = busy_def busy6_def busy5_eval acquire_enter_def upd_entry_def acquire_slot_def chan_take_def
  run_event_def tell_def Let_def

lemma busy3_reach: "reach pool_init pool_step busy3"
proof -
  have "pool_step demo0 busy1" unfolding busy1_def by (rule p_observe)
  with demo0_reach have "reach pool_init pool_step busy1" by (rule reach_step)
  then have "reach pool_init pool_step busy2"
    unfolding busy2_def
    by (intro run_event_reach) (simp_all add: busy1_def SetQuotaObserver_def tell_def demo_eval)
  moreover have "pool_step busy2 busy3"
    unfolding busy3_def by (rule p_set) (simp_all add: busy2_eval owners_def)
  ultimately show ?thesis by (rule reach_step)
qed

lemma busy_reach: "reach pool_init pool_step busy"
proof -
  have "pool_step busy3 busy4"
    using p_finish [of 0 busy3 "pl busy4" "Some 5" False]
    by (simp add: busy4_def busy3_def busy2_eval SetClient_def upd_lease_def close_conn_def finish_lease_def Let_def)
  with busy3_reach have "reach pool_init pool_step busy4" by (rule reach_step)
  then have "reach pool_init pool_step busy5"
    unfolding busy5_def by (intro run_event_reach) (simp_all add: busy4_def busy3_def busy2_eval run_event_def finish_pool_def Let_def)
  moreover have "pool_step busy5 busy6"
    using p_acquire [of busy5 7 "''fp''" False "''exec''"] by (simp add: busy_eval)
  ultimately have "reach pool_init pool_step busy6" by (rule reach_step)
  then show ?thesis unfolding busy_def by (intro run_event_reach) (simp_all add: busy_eval)
qed

theorem pool_slots_bounded_witness:
  "holders (for_server 7) busy \<le> 2 \<and> heard (pl busy) ''exec'' = 2 \<and> missed (pl busy) ''exec'' = 0 \<and>
   holders (by_consumer ''exec'') busy = 1 \<and> falling ''exec'' busy = 1"
proof -
  have "\<not> closed (pl busy)" "maxConns (pl busy) = 2" by (simp_all add: busy_eval)
  moreover have "holders (by_consumer ''exec'') busy = 1" "rising ''exec'' busy = 0" "falling ''exec'' busy = 1"
    "missed (pl busy) ''exec'' = 0"
    by (simp_all add: busy_eval holders_def lease_slot_def sat_def by_consumer_def rising_def falling_def)
  ultimately show ?thesis using pool_slots_bounded [OF busy_reach, of 7 0 "''exec''"] by auto
qed

text \<open>C5. A transport has one owner. In every reachable state a transport is cached in one
  entry, held by one goroutine or owned by one lease, never two of them; a cached transport has
  not been closed by the pool; and after \<^verbatim>\<open>Close\<close> nothing is cached.\<close>

theorem pool_exclusive:
  assumes "reach pool_init pool_step S"
  shows "owners c S \<le> 1 \<and>
    (\<forall>e<length (entries (pl S)). e_client (entries (pl S) ! e) = Some c \<longrightarrow>
       \<not> closed (pl S) \<and> c \<notin> set (gone (pl S)) \<and> (\<exists>sid. mget (conns (pl S)) sid = Some e))"
proof -
  have inv: "pool_inv S" by (rule pools.reach_inv [OF assms])
  note D = inv_shapeD [OF pool_invD(1) [OF inv]] and C = inv_clientsD [OF pool_invD(3) [OF inv]]
  have "\<not> closed (pl S) \<and> c \<notin> set (gone (pl S)) \<and> (\<exists>sid. mget (conns (pl S)) sid = Some e)"
    if e: "e < length (entries (pl S))" "e_client (entries (pl S) ! e) = Some c" for e
  proof -
    have m: "\<exists>sid. mget (conns (pl S)) sid = Some e" using C(1) [OF e(1)] e(2) by auto
    moreover have nc: "\<not> closed (pl S)" using D(4) m by auto
    moreover have "owners c S \<noteq> 0"
      using count_if_pos [OF e(1), of "\<lambda>x. e_client x = Some c"] e(2) by (simp add: owners_def)
    ultimately show ?thesis using C(3) [OF nc, of c] by auto
  qed
  then show ?thesis using C(2) [of c] by auto
qed

theorem pool_exclusive_witness:
  "owners 5 busy \<le> 1 \<and> e_client (entries (pl busy) ! 0) = Some 5 \<and> \<not> closed (pl busy) \<and> 5 \<notin> set (gone (pl busy))"
proof -
  have "0 < length (entries (pl busy))" "e_client (entries (pl busy) ! 0) = Some 5" by (simp_all add: busy_eval)
  with pool_exclusive [OF busy_reach, of 5] show ?thesis by blast
qed

section \<open>Retired generations\<close>

text \<open>How one step moves generations: an entry's by at most one, a lease's never, except that
  a current lease may rebind itself.\<close>

definition gen_kept :: "Pool \<Rightarrow> Pool \<Rightarrow> bool" where
  "gen_kept p p' = (length (entries p) \<le> length (entries p') \<and>
     (\<forall>e<length (entries p). e_generation (entries p' ! e) = e_generation (entries p ! e)) \<and>
     length (lheap p) \<le> length (lheap p') \<and>
     (\<forall>l<length (lheap p). l_entry (lheap p' ! l) = l_entry (lheap p ! l) \<and>
        l_generation (lheap p' ! l) = l_generation (lheap p ! l)))"

definition gen_moved :: "Pool \<Rightarrow> Pool \<Rightarrow> bool" where
  "gen_moved p p' = (length (entries p) \<le> length (entries p') \<and>
     (\<forall>e<length (entries p). e_generation (entries p' ! e) = e_generation (entries p ! e) \<or>
        e_generation (entries p' ! e) = e_generation (entries p ! e) + 1) \<and>
     length (lheap p) \<le> length (lheap p') \<and>
     (\<forall>l<length (lheap p). l_entry (lheap p' ! l) = l_entry (lheap p ! l) \<and>
        (l_generation (lheap p' ! l) = l_generation (lheap p ! l) \<or> current (lheap p ! l) p)))"

lemma gen_kept_refl: "gen_kept p p"
  by (simp add: gen_kept_def)

lemma gen_kept_trans: "gen_kept p q \<Longrightarrow> gen_kept q r \<Longrightarrow> gen_kept p r"
  by (auto simp: gen_kept_def)

lemma gen_kept_moved: "gen_kept p p' \<Longrightarrow> gen_moved p p'"
  by (auto simp: gen_kept_def gen_moved_def)

lemma gen_kept_fold: "(\<And>x p. gen_kept p (f x p)) \<Longrightarrow> gen_kept p (fold f xs p)"
  by (induction xs arbitrary: p) (auto intro: gen_kept_refl gen_kept_trans)

lemma gen_kept_entry: "(\<And>x. e_generation (f x) = e_generation x) \<Longrightarrow> gen_kept p (upd_entry e f p)"
  by (auto simp: gen_kept_def nth_upd_entry)

lemma nth_upd_lease:
  "k < length (lheap p) \<Longrightarrow> lheap (upd_lease l f p) ! k = (if k = l then f (lheap p ! k) else lheap p ! k)"
  by (auto simp: upd_lease_def)

lemma gen_kept_lease:
  "(\<And>x. l_entry (f x) = l_entry x) \<Longrightarrow> (\<And>x. l_generation (f x) = l_generation x) \<Longrightarrow> gen_kept p (upd_lease l f p)"
  by (auto simp: gen_kept_def nth_upd_lease)

lemma gen_kept_eq: "entries p' = entries p \<Longrightarrow> lheap p' = lheap p \<Longrightarrow> gen_kept p p'"
  by (simp add: gen_kept_def)

lemma gen_kept_give_slot: "give_slot e p = Some p' \<Longrightarrow> gen_kept p p'"
  by (auto simp: give_slot_def gen_kept_def nth_upd_entry split: if_splits option.splits)

lemma gen_kept_acquire_slot: "acquire_slot a p = Some p' \<Longrightarrow> gen_kept p p'"
  by (auto simp: acquire_slot_def gen_kept_def nth_upd_entry split: if_splits option.splits)

lemma gen_kept_close: "gen_kept p (close_conn c q) = gen_kept p q"
  by (simp add: gen_kept_def)

lemma gen_kept_run: "run_pc ev pc p = Some (p', pc') \<Longrightarrow> gen_kept p p'"
proof (drule run_pc_outcome, induction rule: run_outcome.induct)
  case (stale p a e)
  show ?case unfolding leave_waiters_def by (rule gen_kept_entry) simp
next
  case (released e c p p' sid k r)
  have "gen_kept p (close_conn c p)" by (rule gen_kept_eq) simp_all
  with gen_kept_give_slot [OF released(1)] show ?case by (rule gen_kept_trans [rotated])
qed (auto simp: gen_kept_def leave_waiters_def take_client_def new_lease_def close_lease_def finish_pool_def
      nth_upd_entry nth_append Let_def dest: gen_kept_acquire_slot [unfolded gen_kept_def] split: if_splits)

lemma gen_moved_acquire:
  assumes "acquire_enter p sid fp fresh cons = Inr (p', a)"
  shows "gen_moved p p'"
  using assms
  by (auto simp: acquire_enter_def gen_moved_def Let_def nth_upd_entry nth_append split: if_splits option.splits)

lemma gen_kept_Close: "Close p = (p', ls) \<Longrightarrow> gen_kept p p'"
proof -
  assume c: "Close p = (p', ls)"
  have "gen_kept q (close_entry e q)" for e q
    unfolding close_entry_def by (simp add: gen_kept_close gen_kept_entry)
  then have "gen_kept p (fold close_entry (map snd (conns p)) p)" by (rule gen_kept_fold)
  with c show ?thesis by (auto simp: Close_def gen_kept_refl gen_kept_def split: if_splits)
qed

lemma gen_kept_evict: "gen_kept p (evict rt now p)"
  unfolding evict_def
proof (rule gen_kept_fold)
  fix x p
  show "gen_kept p (evict_entry rt now x p)"
    by (cases x) (auto simp: evict_entry_def Let_def close_entry_def gen_kept_def nth_upd_entry)
qed

lemma gen_kept_LegacyClient: "LegacyClient l p = (p', c) \<Longrightarrow> gen_kept p p'"
proof -
  assume c: "LegacyClient l p = (p', c)"
  have t: "gen_kept q (legacy_taint ls l k q)" for ls k q
    unfolding legacy_taint_def
    by (auto intro!: gen_kept_refl gen_kept_trans [OF gen_kept_lease gen_kept_lease])
  have u: "gen_kept p (upd_lease l (\<lambda>x. x\<lparr>l_legacy := True, l_original := l_Client x\<rparr>) p)" (is "gen_kept p ?q")
    by (rule gen_kept_lease) simp_all
  have f: "gen_kept p (fold (legacy_taint ls l) ks ?q)" for ls ks
    by (rule gen_kept_trans [OF u gen_kept_fold]) (rule t)
  show ?thesis
    using c u f by (auto simp: LegacyClient_def Let_def gen_kept_refl gen_kept_def split: if_splits)
qed

lemma gen_moved_step: "pool_step S T \<Longrightarrow> gen_moved (pl S) (pl T)"
proof (induction rule: pool_step.induct)
  case (p_acquire S sid fp fresh cons p' a)
  then show ?case by (simp add: gen_moved_acquire)
next
  case (p_run i S ev p' pc')
  then show ?case by (simp add: gen_kept_moved gen_kept_run)
next
  case (p_finish l S p' c discard)
  then show ?case
    by (auto simp: finish_lease_def intro!: gen_kept_moved gen_kept_lease split: if_splits)
next
  case (p_set l S c)
  then show ?case
    by (auto simp: SetClient_def Let_def gen_kept_close intro!: gen_kept_moved gen_kept_lease gen_kept_refl)
next
  case (p_rebind l S fp p' ok)
  then show ?case
    by (auto simp: RebindFingerprint_def Let_def gen_moved_def nth_upd_entry nth_upd_lease split: if_splits)
next
  case (p_observe S b)
  then show ?case by (auto simp: SetQuotaObserver_def intro!: gen_kept_moved gen_kept_eq)
next
  case (p_invalidate S sid)
  then show ?case
    by (auto simp: Invalidate_def gen_moved_def nth_upd_entry split: option.splits)
next
  case (p_evict S rt now)
  then show ?case by (simp add: gen_kept_moved gen_kept_evict)
next
  case (p_close S p' ls)
  then show ?case by (simp add: gen_kept_moved gen_kept_Close)
next
  case (p_legacy l S p' c)
  then show ?case by (simp add: gen_kept_moved gen_kept_LegacyClient)
next
  case (p_legacy_take sid c S p' l)
  then show ?case
    by (auto simp: legacyLease_def Let_def legacy_put_def intro!: gen_kept_moved gen_kept_eq split: option.splits)
next
  case (p_legacy_none sid c S p')
  then show ?case
    by (auto simp: legacyLease_def Let_def legacy_put_def intro!: gen_kept_moved gen_kept_eq split: option.splits)
qed

definition behind :: "nat \<Rightarrow> lid \<Rightarrow> Pool \<Rightarrow> bool" where
  "behind k l p = (l < length (lheap p) \<and> l_entry (lheap p ! l) < length (entries p) \<and>
     e_generation (entries p ! l_entry (lheap p ! l)) = l_generation (lheap p ! l) + of_nat k)"

lemma behind_not_current:
  assumes "behind k l p" and "0 < k" and "k < 2 ^ 64"
  shows "\<not> current (lheap p ! l) p"
proof -
  have "(of_nat k :: 64 word) \<noteq> 0"
    using assms(2,3) by (auto simp: word_of_nat_eq_0_iff dest: dvd_imp_le)
  then show ?thesis using assms(1) by (simp add: behind_def current_def)
qed

lemma behind_step:
  assumes "pool_step S T" and "behind k l (pl S)" and "0 < k" and "k < 2 ^ 64"
  shows "behind k l (pl T) \<or> behind (Suc k) l (pl T)"
proof -
  note G = gen_moved_step [OF assms(1)] and B = assms(2) [unfolded behind_def]
  let ?e = "l_entry (lheap (pl S) ! l)"
  have e: "?e < length (entries (pl T))" "l < length (lheap (pl T))" "l_entry (lheap (pl T) ! l) = ?e"
    "l_generation (lheap (pl T) ! l) = l_generation (lheap (pl S) ! l)"
    using G B behind_not_current [OF assms(2-4)] by (auto simp: gen_moved_def)
  have "e_generation (entries (pl T) ! ?e) = e_generation (entries (pl S) ! ?e) \<or>
    e_generation (entries (pl T) ! ?e) = e_generation (entries (pl S) ! ?e) + 1"
    using G B unfolding gen_moved_def by blast
  then show ?thesis using e B by (auto simp: behind_def algebra_simps)
qed

lemma behind_steps:
  assumes "(pool_step ^^ n) S T" and "behind k l (pl S)" and "0 < k" and "k + n < 2 ^ 64"
  shows "\<exists>k'. 0 < k' \<and> k' < 2 ^ 64 \<and> behind k' l (pl T)"
  using assms
proof (induction n arbitrary: S k)
  case 0
  then show ?case by auto
next
  case (Suc n)
  from Suc.prems(1) obtain U where U: "pool_step S U" "(pool_step ^^ n) U T"
    by (metis relpowp_Suc_D2)
  from behind_step [OF U(1) Suc.prems(2,3)] Suc.prems(4)
  have "behind k l (pl U) \<or> behind (Suc k) l (pl U)" by simp
  then show ?case using Suc.IH [OF U(2)] Suc.prems(3,4) by auto
qed

text \<open>C18. \<^verbatim>\<open>Invalidate\<close> retires what is borrowed. A lease taken before an invalidation of its
  server is refused by \<^verbatim>\<open>Valid\<close> and \<^verbatim>\<open>RebindFingerprint\<close> in every later state, and returning it
  hands its transport on to be closed instead of caching it: for the next \<open>2^64 - 2\<close> sections of
  any kind, which is how long the 64-bit generation needs to come round.\<close>

theorem invalidate_retires:
  assumes "reach pool_init pool_step S" and "mget (conns (pl S)) sid = Some (l_entry (lheap (pl S) ! l))"
    and "l < length (lheap (pl S))"
    and "l_generation (lheap (pl S) ! l) = e_generation (entries (pl S) ! l_entry (lheap (pl S) ! l))"
    and "(pool_step ^^ n) \<lparr>pl = Invalidate sid (pl S), thr = thr S\<rparr> T" and "n + 1 < 2 ^ 64"
  shows "\<not> Valid l (pl T) \<and> snd (RebindFingerprint l fp (pl T)) = False \<and>
    snd (finish_pool l d now c (pl T)) = c"
proof -
  let ?e = "l_entry (lheap (pl S) ! l)"
  have e: "?e < length (entries (pl S))"
    using inv_shapeD(3) [OF pool_invD(1) [OF pools.reach_inv [OF assms(1)]] assms(2)] .
  have "behind 1 l (Invalidate sid (pl S))"
    using assms(2-4) e by (simp add: behind_def Invalidate_def nth_upd_entry)
  then have "behind 1 l (pl \<lparr>pl = Invalidate sid (pl S), thr = thr S\<rparr>)" by simp
  from behind_steps [OF assms(5) this] assms(6)
  obtain k where "0 < k" "k < 2 ^ 64" "behind k l (pl T)" by auto
  then have n: "\<not> current (lheap (pl T) ! l) (pl T)" by (intro behind_not_current)
  then have "\<not> current (lheap (pl T) ! l) (unregister l (pl T))" by (simp add: current_def)
  with n show ?thesis by (simp add: Valid_def RebindFingerprint_def finish_pool_def Let_def)
qed

theorem invalidate_retires_witness:
  "snd (finish_pool 0 False 20 (Some 5) (Invalidate 7 (pl demo))) = Some 5"
proof -
  have "mget (conns (pl demo)) 7 = Some (l_entry (lheap (pl demo) ! 0))" "0 < length (lheap (pl demo))"
    "l_generation (lheap (pl demo) ! 0) = e_generation (entries (pl demo) ! l_entry (lheap (pl demo) ! 0))"
    by (simp_all add: demo_eval)
  from invalidate_retires [OF demo_reach this, of 0 "\<lparr>pl = Invalidate 7 (pl demo), thr = thr demo\<rparr>"]
  show ?thesis by simp
qed

lemma finish_outcome:
  assumes "reach pool_init pool_step S" and "l < length (lheap (pl S))"
  shows "\<exists>p'. finish l d now (pl S) = Some p' \<and> l_done (lheap p' ! l) \<and> finish l d' now' p' = Some p' \<and>
    (\<not> l_done (lheap (pl S) ! l) \<longrightarrow>
       sem (entries (pl S) ! l_entry (lheap (pl S) ! l)) = Suc (sem (entries p' ! l_entry (lheap (pl S) ! l))) \<and>
       (\<forall>c. l_Client (lheap (pl S) ! l) = Some c \<longrightarrow>
          (if \<not> d \<and> l_cacheable (lheap (pl S) ! l) \<and> current (lheap (pl S) ! l) (pl S) \<and>
              e_client (entries (pl S) ! l_entry (lheap (pl S) ! l)) = None
           then e_client (entries p' ! l_entry (lheap (pl S) ! l)) = Some c else c \<in> set (gone p'))))"
proof (cases "l_done (lheap (pl S) ! l)")
  case True
  then show ?thesis by (simp add: finish_def finish_lease_def)
next
  case nd: False
  have inv: "pool_inv S" by (rule pools.reach_inv [OF assms(1)])
  let ?l = "lheap (pl S) ! l" and ?e = "l_entry (lheap (pl S) ! l)"
  define p1 where "p1 = upd_lease l (\<lambda>x. x\<lparr>l_done := True, l_Client := None\<rparr>) (pl S)"
  obtain p2 c2 where p2: "finish_pool l d now (l_Client ?l) p1 = (p2, c2)" by fastforce
  have l1: "lheap p1 ! l = ?l\<lparr>l_done := True, l_Client := None\<rparr>" "entries p1 = entries (pl S)"
    "conns p1 = conns (pl S)" "closed p1 = closed (pl S)"
    using assms(2) by (simp_all add: p1_def nth_upd_lease)
  have m: "?l \<in> set (lheap (pl S))" using assms(2) by simp
  have e: "?e < length (entries (pl S))"
    using inv_shapeD(8) [OF pool_invD(1) [OF inv] m] nd by (simp add: lease_slot_def placed_def)
  have "sat (on_entry ?e) (lease_slot ?l)" using nd by (simp add: lease_slot_def sat_def on_entry_def)
  then have "count_if (\<lambda>l. sat (on_entry ?e) (lease_slot l)) (lheap (pl S)) \<noteq> 0"
    using m unfolding count_if_zero by blast
  then have sem: "sem (entries (pl S) ! ?e) \<noteq> 0" using inv_slotsD(1) [OF pool_invD(2) [OF inv] e] by (simp add: holders_def)
  note F = finish_pool_effect [OF p2]
  have e2: "?e < length (entries p2)" using F(1) e l1 by (simp add: frame_def)
  have s2: "sem (entries p2 ! ?e) = sem (entries (pl S) ! ?e)" using F(5) [of ?e] e l1 by simp
  have "give_slot ?e (close_conn c2 p2) \<noteq> None"
    using sem s2 e2 by (auto simp: give_slot_def chan_release_def split: nat.splits)
  then obtain q where q: "give_slot ?e (close_conn c2 p2) = Some q" by blast
  define p' where "p' = notifyQuota (l_consumer ?l) (-1) q"
  have p': "releaseSlot ?e (l_consumer ?l) (close_conn c2 p2) = Some p'" by (simp add: releaseSlot_def q p'_def)
  have pq: "lheap p' = lheap q" "gone p' = gone q" "entries p' = entries q" by (simp_all add: p'_def)
  note R = give_slot_effect [OF q, folded pq]
  have fin: "finish l d now (pl S) = Some p'"
    using nd p2 p' by (simp add: finish_def finish_lease_def p1_def [symmetric])
  have dn: "l_done (lheap p' ! l)" using R(6) F(2) l1 by simp
  have cs: "(p2, c2) = (if \<not> d \<and> l_cacheable ?l \<and> current ?l (pl S) \<and> e_client (entries (pl S) ! ?e) = None
    then (upd_entry ?e (\<lambda>x. x\<lparr>e_client := l_Client ?l, lastUsed := now\<rparr>) (unregister l p1), None)
    else (unregister l p1, l_Client ?l))"
    unfolding p2 [symmetric] using l1 by (simp add: finish_pool_def Let_def current_def)
  have "if \<not> d \<and> l_cacheable ?l \<and> current ?l (pl S) \<and> e_client (entries (pl S) ! ?e) = None
     then e_client (entries p' ! ?e) = Some c else c \<in> set (gone p')" if "l_Client ?l = Some c" for c
    using cs that R(8) R(12) [of ?e] e e2 l1 by (auto simp: nth_upd_entry split: if_splits)
  moreover have "sem (entries (pl S) ! ?e) = Suc (sem (entries p' ! ?e))"
    using R(10) [of ?e] e2 s2 by simp
  ultimately show ?thesis
    using fin dn by (intro exI [of _ p']) (simp add: finish_def finish_lease_def)
qed

lemma finish_some:
  "reach pool_init pool_step S \<Longrightarrow> l < length (lheap (pl S)) \<Longrightarrow>
   \<exists>p'. finish l d now (pl S) = Some p' \<and> l_done (lheap p' ! l)"
  using finish_outcome by blast

text \<open>C28. Returning a lease. In every reachable state \<^verbatim>\<open>Release\<close> and \<^verbatim>\<open>Discard\<close> run to
  completion, a second return of any kind changes nothing, the lease's slot is given back exactly
  once, and the transport of the lease is either back in its entry, which only a release of a
  current, cacheable lease into a vacant entry does, or closed.\<close>

theorem finish_correct:
  assumes "reach pool_init pool_step S" and "l < length (lheap (pl S))"
  shows "\<exists>p'. finish l d now (pl S) = Some p' \<and> l_done (lheap p' ! l) \<and> finish l d' now' p' = Some p' \<and>
    (\<not> l_done (lheap (pl S) ! l) \<longrightarrow>
       sem (entries (pl S) ! l_entry (lheap (pl S) ! l)) = Suc (sem (entries p' ! l_entry (lheap (pl S) ! l))) \<and>
       (\<forall>c. l_Client (lheap (pl S) ! l) = Some c \<longrightarrow>
          (if \<not> d \<and> l_cacheable (lheap (pl S) ! l) \<and> current (lheap (pl S) ! l) (pl S) \<and>
              e_client (entries (pl S) ! l_entry (lheap (pl S) ! l)) = None
           then e_client (entries p' ! l_entry (lheap (pl S) ! l)) = Some c else c \<in> set (gone p'))))"
  using finish_outcome [OF assms] .

theorem finish_correct_witness:
  "\<exists>p'. finish 0 False 20 (pl demo) = Some p' \<and> l_done (lheap p' ! 0) \<and> finish 0 True 21 p' = Some p'"
proof -
  have "0 < length (lheap (pl demo))" by (simp add: demo_eval)
  from finish_correct [OF demo_reach this, of False 20 True 21] show ?thesis by blast
qed

end
