(* ===== verification/Ssh_Lease.thy ===== *)
theory Ssh_Lease
  imports Ssh_Pool
begin

text \<open>
  The service's lease on one pooled connection (\<^verbatim>\<open>service/lease.go\<close>, and the cleanup clock of
  \<^verbatim>\<open>service/ssh.go\<close>).

  Each method body under \<^verbatim>\<open>sshLease.mu\<close> is one function; the settlement goroutine it may start
  is returned as the flag it passes to the pool (\<open>Some discard\<close>). What the pool answers to
  \<^verbatim>\<open>IsCurrent\<close> is an argument of \<^verbatim>\<open>begin\<close>. \<open>lease_step\<close> runs one lease with its owner, its
  primitive, a teardown that outlives its response, and the settlement goroutine, in any order.

  The interface the lease relies on is the locale \<open>returnable\<close>: a handle is given back at most
  once in effect. The pool of \<open>Ssh_Pool\<close> provides it.
\<close>

section \<open>Model\<close>

definition execTeardownGrace :: duration where "execTeardownGrace = 100 * millisecond"

definition sshCleanupBudget :: duration where "sshCleanupBudget = 3 * second"

record sshCleanupDeadlines =
  cl_grace :: time
  cl_total :: time

text \<open>A cleanup clock: its deadlines once they are anchored. The lease has the clock by a pointer
  that its context may share with an earlier operation; the model copies the clock when the primitive
  begins, so it is the clock as the lease sees it while nobody else anchors it.\<close>

type_synonym sshCleanupClock = "sshCleanupDeadlines option"

definition newSSHCleanupDeadlines :: "time \<Rightarrow> duration \<Rightarrow> sshCleanupDeadlines" where
  "newSSHCleanupDeadlines start gr = \<lparr>cl_grace = Add start gr, cl_total = Add start sshCleanupBudget\<rparr>"

definition deadlines :: "sshCleanupClock \<Rightarrow> time \<Rightarrow> duration \<Rightarrow> sshCleanupClock \<times> sshCleanupDeadlines" where
  "deadlines c now gr =
     (case c of Some v \<Rightarrow> (c, v) | None \<Rightarrow> let v = newSSHCleanupDeadlines now gr in (Some v, v))"

record sshLease =
  active :: bool
  closing :: bool
  settled :: bool
  unhealthy :: bool
  cancel_set :: bool
  cleanup :: "sshCleanupClock option"

datatype lease_error = Unusable | StaleGeneration | AlreadyActive | LeaseCtx

definition newSSHLease :: sshLease where
  "newSSHLease = \<lparr>active = False, closing = False, settled = False, unhealthy = False,
     cancel_set = False, cleanup = None\<rparr>"

definition settleLocked :: "sshLease \<Rightarrow> sshLease \<times> bool option" where
  "settleLocked l =
     (if \<not> closing l \<or> active l \<or> settled l then (l, None)
      else (l\<lparr>settled := True\<rparr>, Some (unhealthy l)))"

text \<open>\<^verbatim>\<open>finish\<close>: the second result says whether a running primitive is cancelled.\<close>

definition finish_ls :: "bool \<Rightarrow> bool \<Rightarrow> sshLease \<Rightarrow> sshLease \<times> bool \<times> bool option" where
  "finish_ls discard has_cause l =
     (if settled l then (l, False, None)
      else
        let l1 = l\<lparr>closing := True, unhealthy := unhealthy l \<or> discard\<rparr>;
            (l2, job) = settleLocked l1
        in (l2, has_cause \<and> cancel_set l, job))"

definition Release_ls :: "sshLease \<Rightarrow> sshLease \<times> bool \<times> bool option" where
  "Release_ls = finish_ls False False"

definition Discard_ls :: "sshLease \<Rightarrow> sshLease \<times> bool \<times> bool option" where
  "Discard_ls = finish_ls True True"

definition begin_ls :: "bool \<Rightarrow> bool \<Rightarrow> sshCleanupClock option \<Rightarrow> sshLease \<Rightarrow> sshLease \<times> lease_error option" where
  "begin_ls is_current ctx_err ctx_clock l =
     (if closing l \<or> settled l \<or> unhealthy l then (l, Some Unusable)
      else if \<not> is_current then (l\<lparr>unhealthy := True\<rparr>, Some StaleGeneration)
      else if active l then (l, Some AlreadyActive)
      else if ctx_err then (l, Some LeaseCtx)
      else (l\<lparr>active := True, cancel_set := True,
              cleanup := Some (case ctx_clock of None \<Rightarrow> None | Some c \<Rightarrow> c)\<rparr>, None))"

text \<open>\<^verbatim>\<open>end\<close> when no teardown is pending.\<close>

definition end_ls :: "bool \<Rightarrow> sshLease \<Rightarrow> sshLease \<times> bool option" where
  "end_ls bad l = settleLocked (l\<lparr>cancel_set := False, active := False, unhealthy := unhealthy l \<or> bad\<rparr>)"

definition cleanupDeadlinesLocked :: "time \<Rightarrow> sshLease \<Rightarrow> sshLease \<times> sshCleanupDeadlines" where
  "cleanupDeadlinesLocked now l =
     (let c0 = (case cleanup l of None \<Rightarrow> None | Some c \<Rightarrow> c);
          (c, v) = deadlines c0 now execTeardownGrace
      in (l\<lparr>cleanup := Some c\<rparr>, v))"

definition SettlementDeadline :: "time \<Rightarrow> sshLease \<Rightarrow> sshLease \<times> time" where
  "SettlementDeadline now l = (let (l', v) = cleanupDeadlinesLocked now l in (l', cl_total v))"

text \<open>The wait of \<^verbatim>\<open>releaseAndWait\<close> started at \<open>now\<close> with the lease's \<^verbatim>\<open>done\<close> channel closing
  at \<open>done_at\<close>: whether it returns nil, and when.\<close>

definition await_settlement :: "time \<Rightarrow> time option \<Rightarrow> sshLease \<Rightarrow> sshLease \<times> bool \<times> time" where
  "await_settlement now done_at l =
     (let (l', v) = cleanupDeadlinesLocked now l;
          lim = now + max (Sub (cl_total v) now) 0
      in case done_at of
           None \<Rightarrow> (l', False, lim)
         | Some x \<Rightarrow> if x \<le> lim then (l', True, max now x) else (l', False, lim))"

definition releaseAndWait :: "time \<Rightarrow> time option \<Rightarrow> sshLease \<Rightarrow> sshLease \<times> bool option \<times> bool \<times> time" where
  "releaseAndWait now done_at l =
     (let (l1, _, job) = Release_ls l; (l2, ok, t) = await_settlement now done_at l1 in (l2, job, ok, t))"

section \<open>Interleavings\<close>

datatype operation = Idle | Running | Teardown

record lease_sys =
  ls :: sshLease
  op :: operation
  jobs :: "bool list"
  calls :: "bool list"
  done_chan :: bool
  bad :: bool

definition start_job :: "bool option \<Rightarrow> lease_sys \<Rightarrow> lease_sys" where
  "start_job j s = (case j of None \<Rightarrow> s | Some d \<Rightarrow> s\<lparr>jobs := jobs s @ [d]\<rparr>)"

text \<open>\<open>bad\<close> records, beside the lease, that the owner asked for a discard, a primitive
  reported a broken transport, or an admission found a stale generation.\<close>

inductive lease_step :: "lease_sys \<Rightarrow> lease_sys \<Rightarrow> bool" where
  l_begin: "begin_ls True ctx_err clock (ls s) = (l', None) \<Longrightarrow> lease_step s (s\<lparr>ls := l', op := Running\<rparr>)"
| l_refused: "begin_ls cur ctx_err clock (ls s) = (l', Some e) \<Longrightarrow>
    lease_step s (s\<lparr>ls := l', bad := bad s \<or> e = StaleGeneration\<rparr>)"
| l_end: "op s = Running \<Longrightarrow> end_ls broken (ls s) = (l', j) \<Longrightarrow>
    lease_step s (start_job j (s\<lparr>ls := l', op := Idle, bad := bad s \<or> broken\<rparr>))"
| l_pending: "op s = Running \<Longrightarrow> lease_step s (s\<lparr>op := Teardown\<rparr>)"
| l_late: "op s = Teardown \<Longrightarrow> end_ls True (ls s) = (l', j) \<Longrightarrow>
    lease_step s (start_job j (s\<lparr>ls := l', op := Idle, bad := True\<rparr>))"
| l_finish: "finish_ls discard cause (ls s) = (l', c, j) \<Longrightarrow>
    lease_step s (start_job j (s\<lparr>ls := l', bad := bad s \<or> (discard \<and> \<not> settled (ls s))\<rparr>))"
| l_settle: "jobs s = d # ds \<Longrightarrow> lease_step s (s\<lparr>jobs := ds, calls := calls s @ [d], done_chan := True\<rparr>)"
| l_deadline: "cleanupDeadlinesLocked now (ls s) = (l', v) \<Longrightarrow> lease_step s (s\<lparr>ls := l'\<rparr>)"

definition lease_init :: "lease_sys \<Rightarrow> bool" where
  "lease_init s = (s = \<lparr>ls = newSSHLease, op = Idle, jobs = [], calls = [], done_chan = False, bad = False\<rparr>)"

definition lease_inv :: "lease_sys \<Rightarrow> bool" where
  "lease_inv s =
     ((active (ls s) \<longleftrightarrow> op s \<noteq> Idle) \<and> (settled (ls s) \<longleftrightarrow> closing (ls s) \<and> \<not> active (ls s)) \<and>
      (if settled (ls s) then jobs s @ calls s = [unhealthy (ls s)] else jobs s @ calls s = []) \<and>
      (done_chan s \<longleftrightarrow> calls s \<noteq> []) \<and> (unhealthy (ls s) \<longleftrightarrow> bad s))"

lemmas lease_defs = begin_ls_def end_ls_def finish_ls_def settleLocked_def start_job_def
  cleanupDeadlinesLocked_def Let_def

lemma lease_step_inv: "lease_step s t \<Longrightarrow> lease_inv s \<Longrightarrow> lease_inv t"
proof (induction rule: lease_step.induct)
  case (l_finish discard cause s l' c j)
  then show ?case
    by (cases "settled (ls s)"; cases "active (ls s)") (auto simp: lease_inv_def lease_defs)
qed (auto simp: lease_inv_def lease_defs split: if_splits prod.splits)

lemma lease_init_inv: "lease_init s \<Longrightarrow> lease_inv s"
  by (simp add: lease_init_def lease_inv_def newSSHLease_def)

interpretation lease_runs: transition_system lease_init lease_step lease_inv
  by unfold_locales (rule lease_init_inv, assumption, rule lease_step_inv, assumption+)

text \<open>C12. A lease is settled once, after its last primitive, and truthfully. In every
  interleaving the pool gets the handle back at most once; by then no primitive runs on it and none
  can ever start; the handle is discarded exactly when the owner discarded it, a primitive reported
  a broken transport, or an admission found a stale generation; the done channel is closed exactly
  when the pool has the handle; and a lease that is closing and idle has its settlement under way,
  so no slot leaks.\<close>

theorem lease_settles_once:
  assumes "reach lease_init lease_step s"
  shows "length (calls s) \<le> 1 \<and> (done_chan s \<longleftrightarrow> calls s \<noteq> []) \<and>
    (\<forall>d\<in>set (calls s). d = bad s \<and> op s = Idle) \<and>
    (calls s \<noteq> [] \<longrightarrow> begin_ls cur ctx_err clock (ls s) = (ls s, Some Unusable)) \<and>
    (closing (ls s) \<and> op s = Idle \<longrightarrow> jobs s @ calls s = [bad s])"
proof -
  have inv: "lease_inv s" by (rule lease_runs.reach_inv [OF assms])
  show ?thesis
  proof (cases "settled (ls s)")
    case True
    then have j: "jobs s @ calls s = [bad s]" and o: "op s = Idle" and d: "done_chan s \<longleftrightarrow> calls s \<noteq> []"
      using inv by (auto simp: lease_inv_def)
    from j have "calls s = [] \<or> calls s = [bad s]" by (cases "jobs s") simp_all
    then show ?thesis using True j o d by (elim disjE) (simp_all add: begin_ls_def)
  next
    case False
    then have "calls s = []" "\<not> (closing (ls s) \<and> op s = Idle)" "\<not> done_chan s"
      using inv by (auto simp: lease_inv_def)
    then show ?thesis by auto
  qed
qed

definition lease_start :: lease_sys where
  "lease_start = \<lparr>ls = newSSHLease, op = Idle, jobs = [], calls = [], done_chan = False, bad = False\<rparr>"

definition lease_discarded :: lease_sys where
  "lease_discarded = \<lparr>ls = fst (Discard_ls newSSHLease), op = Idle, jobs = [], calls = [True],
     done_chan = True, bad = True\<rparr>"

lemma lease_discarded_reach: "reach lease_init lease_step lease_discarded"
proof -
  have "reach lease_init lease_step lease_start"
    by (rule reach_init) (simp add: lease_init_def lease_start_def)
  moreover have "lease_step lease_start (start_job (Some True)
      (lease_start\<lparr>ls := fst (Discard_ls newSSHLease), bad := True\<rparr>))"
    using l_finish [of True True lease_start "fst (Discard_ls newSSHLease)" False "Some True"]
    by (simp add: lease_start_def Discard_ls_def finish_ls_def newSSHLease_def settleLocked_def)
  moreover have "lease_step (start_job (Some True) (lease_start\<lparr>ls := fst (Discard_ls newSSHLease), bad := True\<rparr>))
      lease_discarded"
    using l_settle [of "start_job (Some True) (lease_start\<lparr>ls := fst (Discard_ls newSSHLease), bad := True\<rparr>)" True "[]"]
    by (simp add: lease_discarded_def lease_start_def start_job_def)
  ultimately show ?thesis by (blast intro: reach_step)
qed

theorem lease_settles_once_witness:
  "calls lease_discarded = [True] \<and>
   begin_ls True False None (ls lease_discarded) = (ls lease_discarded, Some Unusable)"
  using lease_settles_once [OF lease_discarded_reach, of True False None] by (simp add: lease_discarded_def)

section \<open>The handle as the lease sees it\<close>

locale returnable =
  fixes ok :: "'p \<Rightarrow> bool"
    and give_back :: "bool \<Rightarrow> 'p \<Rightarrow> 'p"
    and returned :: "'p \<Rightarrow> bool"
  assumes give_back_ok: "ok p \<Longrightarrow> ok (give_back d p)"
    and give_back_returned: "ok p \<Longrightarrow> returned (give_back d p)"
    and give_back_again: "ok p \<Longrightarrow> returned p \<Longrightarrow> give_back d p = p"
begin

lemma returned_stays: "ok p \<Longrightarrow> returned p \<Longrightarrow> fold give_back ds p = p"
  by (induction ds) (simp_all add: give_back_again)

text \<open>However often a handle is given back, the first time decides.\<close>

lemma first_return_decides:
  "ok p \<Longrightarrow> fold give_back ds p = (case ds of [] \<Rightarrow> p | d # _ \<Rightarrow> give_back d p)"
  by (cases ds) (simp_all add: returned_stays give_back_ok give_back_returned)

end

text \<open>\<^verbatim>\<open>ReleaseHandle\<close> and \<^verbatim>\<open>DiscardHandle\<close> of the pool, run to completion.\<close>

definition pool_give_back :: "lid \<Rightarrow> time \<Rightarrow> bool \<Rightarrow> Pool \<Rightarrow> Pool" where
  "pool_give_back l now d p = (case finish l d now p of None \<Rightarrow> p | Some p' \<Rightarrow> p')"

definition pool_reachable :: "lid \<Rightarrow> Pool \<Rightarrow> bool" where
  "pool_reachable l p = (l < length (lheap p) \<and> (\<exists>S. reach pool_init pool_step S \<and> pl S = p))"

lemma report_reach:
  assumes "reach pool_init pool_step \<lparr>pl = q, thr = ts @ [FTell k r False]\<rparr>" (is "reach _ _ ?S")
  shows "\<exists>T. reach pool_init pool_step T \<and> pl T = notifyQuota k (-1) q"
proof (cases "observed q")
  case True
  let ?T = "\<lparr>pl = q, thr = ts @ [FTell k r True]\<rparr>" and ?U = "\<lparr>pl = tell k (-1) q, thr = ts @ [Returned r None]\<rparr>"
  have "pool_step ?S ?T" using p_run [of "length ts" ?S "EvLock 0 False"] True by simp
  moreover have "pool_step ?T ?U" using p_run [of "length ts" ?T EvObserver] by simp
  ultimately have "reach pool_init pool_step ?U" using assms by (blast intro: reach_step)
  then show ?thesis using True by (auto simp: notifyQuota_def intro!: exI [of _ ?U])
next
  case False
  let ?U = "\<lparr>pl = miss k (-1) q, thr = ts @ [Returned r None]\<rparr>"
  have "pool_step ?S ?U" using p_run [of "length ts" ?S "EvLock 0 False"] False by simp
  then have "reach pool_init pool_step ?U" using assms by (blast intro: reach_step)
  then show ?thesis using False by (auto simp: notifyQuota_def intro!: exI [of _ ?U])
qed

lemma finish_reach:
  assumes r: "reach pool_init pool_step S" and l: "l < length (lheap (pl S))" and f: "finish l d now (pl S) = Some p'"
  shows "pool_reachable l p'"
proof (cases "finish_lease l (pl S)")
  case None
  then show ?thesis using f r l by (auto simp: finish_def pool_reachable_def)
next
  case (Some pc)
  obtain p1 c where pc: "pc = (p1, c)" by (cases pc)
  obtain p2 c2 where p2: "finish_pool l d now c p1 = (p2, c2)" by (cases "finish_pool l d now c p1")
  let ?l = "lheap (pl S) ! l"
  define S1 where "S1 = \<lparr>pl = p1, thr = thr S @ [FLock l (l_serverID ?l) (l_entry ?l) (l_consumer ?l) d c]\<rparr>"
  define S2 where "S2 = \<lparr>pl = p2, thr = thr S @ [FRelease (l_serverID ?l) (l_entry ?l) (l_consumer ?l) c2 None]\<rparr>"
  have "releaseSlot (l_entry ?l) (l_consumer ?l) (close_conn c2 p2) = Some p'"
    using f Some pc p2 by (simp add: finish_def)
  then obtain q where q: "give_slot (l_entry ?l) (close_conn c2 p2) = Some q" "p' = notifyQuota (l_consumer ?l) (-1) q"
    by (auto simp: releaseSlot_def)
  define S3 where "S3 = \<lparr>pl = q, thr = thr S @ [FTell (l_consumer ?l) None False]\<rparr>"
  have "pool_step S S1" unfolding S1_def using Some pc by (intro p_finish [OF l]) simp
  moreover have "pool_step S1 S2"
    using p_run [of "length (thr S)" S1 "EvLock now False"] p2 by (simp add: S1_def S2_def)
  moreover have "pool_step S2 S3"
    using p_run [of "length (thr S)" S2 EvSlot] q by (simp add: S2_def S3_def)
  ultimately have "reach pool_init pool_step S3" using r by (blast intro: reach_step)
  then have "\<exists>T. reach pool_init pool_step T \<and> pl T = p'"
    unfolding S3_def using q report_reach [of q "thr S" "l_consumer ?l" None] by simp
  moreover have "length (lheap p') = length (lheap (pl S))"
    using finish_pool_effect(2) [OF p2] Some pc give_slot_effect(6) [OF q(1)] q(2)
    by (auto simp: finish_lease_def split: if_splits)
  ultimately show ?thesis using l unfolding pool_reachable_def by auto
qed

lemma finish_completes:
  assumes "pool_reachable l p"
  shows "\<exists>p'. finish l d now p = Some p' \<and> l_done (lheap p' ! l) \<and> pool_reachable l p'"
proof -
  obtain S where S: "reach pool_init pool_step S" "pl S = p" "l < length (lheap p)"
    using assms by (auto simp: pool_reachable_def)
  from finish_some [OF S(1), of l d now] S obtain p' where "finish l d now p = Some p'" "l_done (lheap p' ! l)" by auto
  then show ?thesis using finish_reach [OF S(1), of l d now p'] S by auto
qed

interpretation pool_handle: returnable "pool_reachable l" "pool_give_back l now" "\<lambda>p. l_done (lheap p ! l)" for l now
proof (unfold_locales, goal_cases)
  case (1 p d)
  then show ?case using finish_completes [of l p d now] by (auto simp: pool_give_back_def)
next
  case (2 p d)
  then show ?case using finish_completes [of l p d now] by (auto simp: pool_give_back_def)
next
  case (3 p d)
  then show ?case by (simp add: pool_give_back_def finish_def finish_lease_def)
qed

text \<open>C17. Lease and pool together. Take a handle that is out on loan in any reachable pool, and
  any interleaving of the lease's owner, primitives and settlement. While the lease is unsettled the
  calls it made leave the pool untouched. Once it is settled, whatever calls it made have marked the
  handle returned, freed exactly one slot of its entry, and left its transport cached in the entry
  just when nothing bad happened on the lease and the handle is cacheable, current and its entry
  vacant; otherwise the transport is closed. In particular a discarded, broken or stale lease is
  never cached.\<close>

theorem lease_returns_handle_once:
  assumes "reach lease_init lease_step s" and "reach pool_init pool_step S" and "l < length (lheap (pl S))"
    and "\<not> l_done (lheap (pl S) ! l)"
  shows "let p' = fold (pool_give_back l now) (calls s) (pl S);
             h = lheap (pl S) ! l; e = l_entry h
         in if done_chan s
            then l_done (lheap p' ! l) \<and> sem (entries (pl S) ! e) = Suc (sem (entries p' ! e)) \<and>
                 (\<forall>c. l_Client h = Some c \<longrightarrow>
                    (if \<not> bad s \<and> l_cacheable h \<and> current h (pl S) \<and> e_client (entries (pl S) ! e) = None
                     then e_client (entries p' ! e) = Some c else c \<in> set (gone p')))
            else p' = pl S"
proof -
  have inv: "lease_inv s" by (rule lease_runs.reach_inv [OF assms(1)])
  have j: "jobs s @ calls s = (if settled (ls s) then [bad s] else [])"
    and d: "done_chan s \<longleftrightarrow> calls s \<noteq> []" using inv by (auto simp: lease_inv_def)
  have ok: "pool_reachable l (pl S)" using assms(2,3) by (auto simp: pool_reachable_def)
  from j have c: "\<And>c cs. calls s = c # cs \<Longrightarrow> c = bad s"
    by (cases "jobs s") (auto split: if_splits)
  have f: "fold (pool_give_back l now) (calls s) (pl S) =
      (if done_chan s then pool_give_back l now (bad s) (pl S) else pl S)"
    using d c pool_handle.first_return_decides [OF ok, of now "calls s"] by (cases "calls s") simp_all
  from finish_outcome [OF assms(2,3), of "bad s" now False 0] assms(4) show ?thesis
    by (auto simp: f pool_give_back_def Let_def)
qed

text \<open>The lease of a pool state in which the handle carries the transport 5, discarded.\<close>

theorem lease_returns_handle_once_witness:
  "5 \<in> set (gone (fold (pool_give_back 0 20) (calls lease_discarded) (pl busy3)))"
proof -
  have h: "0 < length (lheap (pl busy3))" "\<not> l_done (lheap (pl busy3) ! 0)" "l_Client (lheap (pl busy3) ! 0) = Some 5"
    by (simp_all add: busy3_def busy2_eval SetClient_def upd_lease_def close_conn_def Let_def)
  from lease_returns_handle_once [OF lease_discarded_reach busy3_reach h(1,2), of 20] h(3) show ?thesis
    by (simp add: lease_discarded_def Let_def)
qed

text \<open>C33. One cleanup budget. The first caller of \<^verbatim>\<open>cleanupDeadlinesLocked\<close> anchors the
  deadlines; every later caller reads the same ones; and \<^verbatim>\<open>releaseAndWait\<close> returns at the latest
  three seconds after the anchor (or at once, if that has passed), reporting success exactly when the
  handle was settled by then.\<close>

theorem settlement_budget:
  assumes "cleanupDeadlinesLocked t l = (l', v)" and "t \<le> now" and "cleanup l = None \<or> cleanup l = Some None"
  shows "cleanupDeadlinesLocked now l' = (l', v) \<and> cl_total v = t + sshCleanupBudget \<and>
    (case releaseAndWait now done_at l' of (l2, job, ok, at_time) \<Rightarrow>
       cleanup l2 = cleanup l' \<and> at_time \<le> max now (t + sshCleanupBudget) \<and>
       (ok \<longleftrightarrow> (\<exists>x. done_at = Some x \<and> x \<le> max now (t + sshCleanupBudget))))"
proof -
  let ?v = "newSSHCleanupDeadlines t execTeardownGrace"
  have l': "l' = l\<lparr>cleanup := Some (Some ?v)\<rparr>" "v = ?v"
    using assms(1,3) by (auto simp: cleanupDeadlinesLocked_def deadlines_def Let_def)
  have tot: "cl_total v = t + sshCleanupBudget" by (simp add: l' newSSHCleanupDeadlines_def time_defs)
  have again: "cleanupDeadlinesLocked now x = (x, v)" if "cleanup x = Some (Some v)" for x
    using that by (simp add: cleanupDeadlinesLocked_def deadlines_def Let_def)
  have c1: "cleanup (fst (Release_ls l')) = Some (Some v)"
    by (simp add: Release_ls_def finish_ls_def settleLocked_def Let_def l')
  have lim: "now + max (Sub (cl_total v) now) 0 = max now (t + sshCleanupBudget)"
    using assms(2) tot by (auto simp: Sub_def sshCleanupBudget_def duration_units max_int64_def min_int64_def)
  obtain l1 b job where r: "Release_ls l' = (l1, b, job)" by (cases "Release_ls l'")
  have aw: "await_settlement now done_at l1 = (case done_at of None \<Rightarrow> (l1, False, max now (t + sshCleanupBudget))
     | Some x \<Rightarrow> if x \<le> max now (t + sshCleanupBudget) then (l1, True, max now x)
                 else (l1, False, max now (t + sshCleanupBudget)))"
    using again [of l1] c1 r lim by (simp add: await_settlement_def Let_def split: option.splits)
  show ?thesis
    using again [of l'] tot c1 r by (auto simp: releaseAndWait_def aw l' split: option.splits)
qed

theorem settlement_budget_witness:
  "cl_total (snd (cleanupDeadlinesLocked 5 newSSHLease)) = 5 + sshCleanupBudget"
  using settlement_budget [of 5 newSSHLease "fst (cleanupDeadlinesLocked 5 newSSHLease)"
      "snd (cleanupDeadlinesLocked 5 newSSHLease)" 9 None]
  by (simp add: newSSHLease_def)

end
