(* ===== verification/Access_Control.thy ===== *)
theory Access_Control
  imports Go_Strings
begin

text \<open>
  Which API key may call what (\<^verbatim>\<open>server/middleware/scope.go\<close> and the protected routes of
  \<^verbatim>\<open>server/router.go\<close>).

  The scope tables are the maps of the source, keyed by the normalized route string; the routes are the
  list of what the router registers behind the authentication middleware.
\<close>

section \<open>Scopes\<close>

definition routeScopes :: "(string, string) gomap" where
  "routeScopes =
    [(''GET /api/v1/servers/{id}/sftp/text'', ''files:read''),
     (''PUT /api/v1/servers/{id}/sftp/text'', ''files:write''),
     (''GET /api/v1/servers/{id}/sftp/archive'', ''files:read''),
     (''POST /api/v1/servers/{id}/sftp/uploads/start'', ''files:write''),
     (''POST /api/v1/servers/{id}/sftp/uploads/status'', ''files:write''),
     (''PUT /api/v1/servers/{id}/sftp/uploads/chunk'', ''files:write''),
     (''POST /api/v1/servers/{id}/sftp/uploads/complete'', ''files:write''),
     (''DELETE /api/v1/servers/{id}/sftp/uploads'', ''files:write''),
     (''GET /api/v1/servers/{id}/sftp/entries'', ''files:read''),
     (''GET /api/v1/servers/{id}/sftp/stat'', ''files:read''),
     (''GET /api/v1/servers/{id}/sftp/download'', ''files:read''),
     (''POST /api/v1/servers/{id}/sftp/upload'', ''files:write''),
     (''POST /api/v1/servers/{id}/sftp/mkdir'', ''files:write''),
     (''POST /api/v1/servers/{id}/sftp/rename'', ''files:write''),
     (''DELETE /api/v1/servers/{id}/sftp/entry'', ''files:delete''),
     (''GET /api/v1/servers'', ''servers:read''),
     (''GET /api/v1/servers/summary'', ''servers:read''),
     (''POST /api/v1/servers'', ''servers:write''),
     (''GET /api/v1/servers/{id}'', ''servers:read''),
     (''PUT /api/v1/servers/{id}'', ''servers:write''),
     (''POST /api/v1/servers/{id}/exec'', ''servers:exec''),
     (''GET /api/v1/servers/{id}/terminal'', ''servers:terminal''),
     (''POST /api/v1/servers/{id}/host-key/trust'', ''servers:write''),
     (''GET /api/v1/servers/{id}/metrics'', ''metrics:read''),
     (''GET /api/v1/credentials'', ''credentials:read''),
     (''GET /api/v1/services'', ''services:read''),
     (''GET /api/v1/services/{id}'', ''services:read''),
     (''POST /api/v1/services/{id}/relay'', ''services:relay'')]"

definition jwtOnlyRoutes :: "string list" where
  "jwtOnlyRoutes =
    [''GET /api/v1/settings'',
     ''PUT /api/v1/settings'',
     ''GET /api/v1/updates'',
     ''POST /api/v1/servers/{id}/connection/test'',
     ''GET /api/v1/usage-logs'',
     ''GET /api/v1/usage-logs/filter-options'',
     ''GET /api/v1/usage-logs/{id}'',
     ''DELETE /api/v1/servers/{id}'',
     ''POST /api/v1/credentials'',
     ''PUT /api/v1/credentials/{id}'',
     ''DELETE /api/v1/credentials/{id}'',
     ''GET /api/v1/credentials/{id}/reveal'',
     ''GET /api/v1/api-keys'',
     ''POST /api/v1/api-keys'',
     ''PATCH /api/v1/api-keys/{id}'',
     ''POST /api/v1/api-keys/{id}/rotate'',
     ''DELETE /api/v1/api-keys/{id}'',
     ''GET /api/v1/api-keys/{id}/reveal'',
     ''GET /api/v1/auth/profile'',
     ''PUT /api/v1/auth/password'',
     ''POST /api/v1/services'',
     ''PUT /api/v1/services/{id}'',
     ''DELETE /api/v1/services/{id}'',
     ''GET /api/v1/services/{id}/credentials'']"

definition validScopes :: "string list" where
  "validScopes = [''files:read'', ''files:write'', ''files:delete'', ''servers:read'', ''servers:write'', ''servers:exec'', ''servers:terminal'', ''metrics:read'', ''credentials:read'', ''services:read'', ''services:relay'']"

definition IsRouteRegistered :: "string \<Rightarrow> bool" where
  "IsRouteRegistered n = (if n \<in> set jwtOnlyRoutes then True else mget routeScopes n \<noteq> None)"

definition isNumeric :: "string \<Rightarrow> bool" where
  "isNumeric s = (if s = [] then False else list_all is_digit s)"

definition route_key :: "string \<Rightarrow> string list \<Rightarrow> string" where
  "route_key m segs = m @ '' /'' @ join_char (CHR ''/'') segs"

definition path_segments :: "string \<Rightarrow> string list" where
  "path_segments p = filter (\<lambda>s. s \<noteq> []) (split_char (CHR ''/'') (trim_right (\<lambda>c. c = CHR ''/'') p))"

definition id_segment :: string where "id_segment = ''{id}''"

text \<open>The collections whose fourth segment the router treats as a parameter.\<close>

definition id_collection :: "string list \<Rightarrow> bool" where
  "id_collection segs = (4 \<le> length segs \<and> segs ! 0 = ''api'' \<and> segs ! 1 = ''v1'' \<and>
     segs ! 2 \<in> {''servers'', ''credentials'', ''api-keys'', ''services'', ''usage-logs''})"

definition normalizePath :: "string \<Rightarrow> string \<Rightarrow> string" where
  "normalizePath m p =
     (let segs = map (\<lambda>s. if isNumeric s then id_segment else s) (path_segments p);
          normalized = route_key m segs
      in if IsRouteRegistered normalized then normalized
         else if id_collection segs then
           let candidate = route_key m (segs[3 := id_segment])
           in if IsRouteRegistered candidate then candidate else normalized
         else normalized)"

definition NormalizeRoutePattern :: "string \<Rightarrow> string \<Rightarrow> string" where
  "NormalizeRoutePattern m p = normalizePath m p"

text \<open>\<open>(True, [])\<close> allows, \<open>(False, s)\<close> names the missing scope, \<open>(False, [])\<close> is a route
  no API key may use.\<close>

definition scope_rule :: "string \<Rightarrow> string list \<Rightarrow> bool \<times> string" where
  "scope_rule n scopes =
     (if n \<in> set jwtOnlyRoutes then (False, [])
      else case mget routeScopes n of
             None \<Rightarrow> (True, [])
           | Some required \<Rightarrow>
               if list_ex (\<lambda>s. s = ''*'' \<or> s = required) scopes then (True, []) else (False, required))"

definition hasScope :: "string \<Rightarrow> string \<Rightarrow> string list \<Rightarrow> bool \<times> string" where
  "hasScope m p scopes = scope_rule (normalizePath m p) scopes"

definition ValidateScopes :: "string list \<Rightarrow> string list" where
  "ValidateScopes scopes = filter (\<lambda>s. s \<notin> set validScopes) scopes"

record Claims =
  c_UserID :: uint
  c_Username :: string
  c_Role :: string
  c_ServerIDs :: "uint list"
  c_TokenVersion :: "int option"

definition CheckServerAccess :: "Claims option \<Rightarrow> uint \<Rightarrow> bool" where
  "CheckServerAccess claims sid =
     (case claims of None \<Rightarrow> True | Some c \<Rightarrow> if c_ServerIDs c = [] then True else sid \<in> set (c_ServerIDs c))"

section \<open>Every protected route is covered\<close>

text \<open>The routes \<^verbatim>\<open>NewRouter\<close> registers behind \<^verbatim>\<open>middleware.Auth\<close>, as method and pattern
  segments. A segment \<^verbatim>\<open>{id}\<close> of the router matches any non-empty segment.\<close>

definition protected_routes :: "(string \<times> string list) list" where
  "protected_routes =
    [(''GET'', [''api'', ''v1'', ''settings'']),
     (''PUT'', [''api'', ''v1'', ''settings'']),
     (''GET'', [''api'', ''v1'', ''updates'']),
     (''GET'', [''api'', ''v1'', ''usage-logs'']),
     (''GET'', [''api'', ''v1'', ''usage-logs'', ''filter-options'']),
     (''GET'', [''api'', ''v1'', ''usage-logs'', ''{id}'']),
     (''GET'', [''api'', ''v1'', ''auth'', ''profile'']),
     (''PUT'', [''api'', ''v1'', ''auth'', ''password'']),
     (''GET'', [''api'', ''v1'', ''servers'']),
     (''GET'', [''api'', ''v1'', ''servers'', ''summary'']),
     (''POST'', [''api'', ''v1'', ''servers'']),
     (''GET'', [''api'', ''v1'', ''servers'', ''{id}'']),
     (''PUT'', [''api'', ''v1'', ''servers'', ''{id}'']),
     (''DELETE'', [''api'', ''v1'', ''servers'', ''{id}'']),
     (''POST'', [''api'', ''v1'', ''servers'', ''{id}'', ''host-key'', ''trust'']),
     (''POST'', [''api'', ''v1'', ''servers'', ''{id}'', ''connection'', ''test'']),
     (''POST'', [''api'', ''v1'', ''servers'', ''{id}'', ''exec'']),
     (''GET'', [''api'', ''v1'', ''servers'', ''{id}'', ''metrics'']),
     (''GET'', [''api'', ''v1'', ''servers'', ''{id}'', ''terminal'']),
     (''GET'', [''api'', ''v1'', ''servers'', ''{id}'', ''sftp'', ''entries'']),
     (''GET'', [''api'', ''v1'', ''servers'', ''{id}'', ''sftp'', ''stat'']),
     (''GET'', [''api'', ''v1'', ''servers'', ''{id}'', ''sftp'', ''download'']),
     (''POST'', [''api'', ''v1'', ''servers'', ''{id}'', ''sftp'', ''upload'']),
     (''POST'', [''api'', ''v1'', ''servers'', ''{id}'', ''sftp'', ''mkdir'']),
     (''POST'', [''api'', ''v1'', ''servers'', ''{id}'', ''sftp'', ''rename'']),
     (''DELETE'', [''api'', ''v1'', ''servers'', ''{id}'', ''sftp'', ''entry'']),
     (''GET'', [''api'', ''v1'', ''servers'', ''{id}'', ''sftp'', ''text'']),
     (''PUT'', [''api'', ''v1'', ''servers'', ''{id}'', ''sftp'', ''text'']),
     (''GET'', [''api'', ''v1'', ''servers'', ''{id}'', ''sftp'', ''archive'']),
     (''POST'', [''api'', ''v1'', ''servers'', ''{id}'', ''sftp'', ''uploads'', ''start'']),
     (''POST'', [''api'', ''v1'', ''servers'', ''{id}'', ''sftp'', ''uploads'', ''status'']),
     (''PUT'', [''api'', ''v1'', ''servers'', ''{id}'', ''sftp'', ''uploads'', ''chunk'']),
     (''POST'', [''api'', ''v1'', ''servers'', ''{id}'', ''sftp'', ''uploads'', ''complete'']),
     (''DELETE'', [''api'', ''v1'', ''servers'', ''{id}'', ''sftp'', ''uploads'']),
     (''GET'', [''api'', ''v1'', ''credentials'']),
     (''POST'', [''api'', ''v1'', ''credentials'']),
     (''PUT'', [''api'', ''v1'', ''credentials'', ''{id}'']),
     (''DELETE'', [''api'', ''v1'', ''credentials'', ''{id}'']),
     (''GET'', [''api'', ''v1'', ''credentials'', ''{id}'', ''reveal'']),
     (''GET'', [''api'', ''v1'', ''api-keys'']),
     (''POST'', [''api'', ''v1'', ''api-keys'']),
     (''PATCH'', [''api'', ''v1'', ''api-keys'', ''{id}'']),
     (''POST'', [''api'', ''v1'', ''api-keys'', ''{id}'', ''rotate'']),
     (''DELETE'', [''api'', ''v1'', ''api-keys'', ''{id}'']),
     (''GET'', [''api'', ''v1'', ''api-keys'', ''{id}'', ''reveal'']),
     (''POST'', [''api'', ''v1'', ''services'']),
     (''GET'', [''api'', ''v1'', ''services'']),
     (''GET'', [''api'', ''v1'', ''services'', ''{id}'']),
     (''PUT'', [''api'', ''v1'', ''services'', ''{id}'']),
     (''DELETE'', [''api'', ''v1'', ''services'', ''{id}'']),
     (''POST'', [''api'', ''v1'', ''services'', ''{id}'', ''relay'']),
     (''GET'', [''api'', ''v1'', ''services'', ''{id}'', ''credentials''])]"

definition route_matches :: "string list \<Rightarrow> string list \<Rightarrow> bool" where
  "route_matches pat segs =
     list_all2 (\<lambda>p s. if p = id_segment then s \<noteq> [] \<and> CHR ''/'' \<notin> set s else s = p) pat segs"

definition parse_key :: "string \<Rightarrow> string \<times> string list" where
  "parse_key k = (takeWhile (\<lambda>c. c \<noteq> CHR '' '') k,
     split_char (CHR ''/'') (drop 2 (dropWhile (\<lambda>c. c \<noteq> CHR '' '') k)))"

lemma parse_route_key:
  assumes "CHR '' '' \<notin> set m" "segs \<noteq> []" "\<forall>s\<in>set segs. CHR ''/'' \<notin> set s"
  shows "parse_key (route_key m segs) = (m, segs)"
proof -
  have "takeWhile (\<lambda>c. c \<noteq> CHR '' '') (m @ CHR '' '' # x) = m"
    "dropWhile (\<lambda>c. c \<noteq> CHR '' '') (m @ CHR '' '' # x) = CHR '' '' # x" for x
    using assms(1) by (induction m) auto
  then show ?thesis using split_join [OF assms(2,3)] by (simp add: parse_key_def route_key_def)
qed

definition registered_keys :: "string list" where
  "registered_keys = map fst routeScopes @ jwtOnlyRoutes"

lemma registered_iff: "IsRouteRegistered k \<longleftrightarrow> k \<in> set registered_keys"
  by (auto simp: IsRouteRegistered_def registered_keys_def map_of_eq_None_iff)

text \<open>What the tables have to satisfy, as a check on each route: it is registered, its
  parameter is the fourth segment of a collection that gets the parameter rule, and a registered
  static route it overlaps has the same rule.\<close>

definition same_rule :: "string \<Rightarrow> string \<Rightarrow> bool" where
  "same_rule k n = ((k \<in> set jwtOnlyRoutes) = (n \<in> set jwtOnlyRoutes) \<and> mget routeScopes k = mget routeScopes n)"

text \<open>Registered routes whose fourth segment is a literal, the only ones a parameter route can
  overlap.\<close>

definition static_route :: "string \<Rightarrow> bool" where
  "static_route k = (4 \<le> length (snd (parse_key k)) \<and> snd (parse_key k) ! 3 \<noteq> id_segment)"

definition literal_routes :: "string list" where
  "literal_routes = [''GET /api/v1/servers/summary'', ''GET /api/v1/usage-logs/filter-options'',
     ''GET /api/v1/auth/profile'', ''PUT /api/v1/auth/password'']"

lemma static_routes: "filter static_route registered_keys = literal_routes"
  by code_simp

definition overlap_ok :: "string \<Rightarrow> string list \<Rightarrow> string \<Rightarrow> bool" where
  "overlap_ok m pat k =
     (case parse_key k of (m', segs') \<Rightarrow> m' = m \<and> pat[3 := segs' ! 3] = segs' \<longrightarrow> same_rule k (route_key m pat))"

definition route_ok :: "string \<times> string list \<Rightarrow> bool" where
  "route_ok = (\<lambda>(m, pat).
     CHR '' '' \<notin> set m \<and> list_all (\<lambda>s. s \<noteq> [] \<and> CHR ''/'' \<notin> set s \<and> \<not> isNumeric s) pat \<and> pat \<noteq> [] \<and>
     (id_segment \<in> set pat \<longrightarrow>
        id_collection pat \<and> pat ! 3 = id_segment \<and> id_segment \<notin> set (take 3 pat @ drop 4 pat) \<and>
        list_all (overlap_ok m pat) literal_routes))"

lemma protected_registered: "list_all (\<lambda>(m, pat). IsRouteRegistered (route_key m pat)) protected_routes"
  by code_simp

lemma protected_routes_ok: "list_all route_ok protected_routes"
  by code_simp

lemma same_rule_scope: "same_rule k n \<Longrightarrow> scope_rule k = scope_rule n"
  by (auto simp: same_rule_def scope_rule_def fun_eq_iff)

lemma path_segments_join:
  assumes "segs \<noteq> []" "\<forall>s\<in>set segs. s \<noteq> [] \<and> CHR ''/'' \<notin> set s"
  shows "path_segments (CHR ''/'' # join_char (CHR ''/'') segs @ replicate n (CHR ''/'')) = segs"
proof -
  let ?j = "join_char (CHR ''/'') segs"
  have l: "?j \<noteq> []" "last ?j = last (last segs)" using join_char_last [of segs] assms by auto
  have "last segs \<noteq> [] \<and> CHR ''/'' \<notin> set (last segs)" using assms by simp
  then have "last (last segs) \<noteq> CHR ''/''" by (metis last_in_set)
  then have t: "trim_right (\<lambda>c. c = CHR ''/'') ((CHR ''/'' # ?j) @ replicate n (CHR ''/'')) = CHR ''/'' # ?j"
    using l by (intro trim_right_replicate) auto
  have "split_char (CHR ''/'') ?j = segs" using assms by (intro split_join) auto
  then show ?thesis using t assms(2) by (simp add: path_segments_def filter_id_conv)
qed

lemma route_matches_id:
  assumes "route_matches pat segs" and "id_segment \<notin> set (take 3 pat @ drop 4 pat)" and "4 \<le> length pat"
  shows "segs = pat[3 := segs ! 3] \<and> length segs = length pat"
proof -
  have len: "length segs = length pat" and nth: "\<And>i. i < length pat \<Longrightarrow> pat ! i \<noteq> id_segment \<Longrightarrow> segs ! i = pat ! i"
    using assms(1) by (auto simp: route_matches_def list_all2_conv_all_nth)
  have "pat ! i \<noteq> id_segment" if "i < length pat" "i \<noteq> 3" for i
  proof -
    have "i < 3 \<Longrightarrow> pat ! i \<in> set (take 3 pat)" using that by (auto simp: in_set_conv_nth intro!: exI [of _ i])
    moreover have "3 < i \<Longrightarrow> pat ! i \<in> set (drop 4 pat)"
      using that by (auto simp: in_set_conv_nth intro!: exI [of _ "i - 4"])
    ultimately show ?thesis using assms(2) that(2) by (metis Un_iff nat_neq_iff set_append)
  qed
  then have "segs ! i = pat[3 := segs ! 3] ! i" if "i < length pat" for i
    using that nth [of i] by (cases "i = 3") auto
  then show ?thesis using len by (simp add: list_eq_iff_nth_eq)
qed

lemma route_matches_static:
  assumes "route_matches pat segs" "id_segment \<notin> set pat"
  shows "segs = pat"
proof (rule nth_equalityI)
  show "length segs = length pat" using assms(1) by (simp add: route_matches_def list_all2_lengthD)
next
  fix i assume "i < length segs"
  then have "i < length pat" using assms(1) by (simp add: route_matches_def list_all2_lengthD)
  then show "segs ! i = pat ! i"
    using list_all2_nthD [OF assms(1) [unfolded route_matches_def]] assms(2) by (metis nth_mem)
qed

lemma route_matches_segs:
  assumes "route_matches pat segs" "list_all (\<lambda>s. s \<noteq> [] \<and> CHR ''/'' \<notin> set s \<and> \<not> isNumeric s) pat"
  shows "\<forall>s\<in>set segs. s \<noteq> [] \<and> CHR ''/'' \<notin> set s"
proof
  fix s assume "s \<in> set segs"
  then obtain i where i: "i < length segs" "s = segs ! i" by (auto simp: in_set_conv_nth)
  have len: "length pat = length segs" using assms(1) by (simp add: route_matches_def list_all2_lengthD)
  have p: "pat ! i \<noteq> [] \<and> CHR ''/'' \<notin> set (pat ! i)" using assms(2) i(1) len by (simp add: list_all_length)
  show "s \<noteq> [] \<and> CHR ''/'' \<notin> set s"
    using list_all2_nthD [OF assms(1) [unfolded route_matches_def], of i] i len p by presburger
qed

lemma normalized_rule:
  assumes ok: "route_ok (m, pat)" "IsRouteRegistered (route_key m pat)" and mt: "route_matches pat segs"
  shows "scope_rule (normalizePath m (CHR ''/'' # join_char (CHR ''/'') segs @ replicate n (CHR ''/''))) =
    scope_rule (route_key m pat)"
proof -
  let ?num = "\<lambda>s. if isNumeric s then id_segment else s"
  have m: "CHR '' '' \<notin> set m" and pl: "list_all (\<lambda>s. s \<noteq> [] \<and> CHR ''/'' \<notin> set s \<and> \<not> isNumeric s) pat" and ne: "pat \<noteq> []"
    using ok(1) by (simp_all add: route_ok_def)
  have sf: "\<forall>s\<in>set segs. s \<noteq> [] \<and> CHR ''/'' \<notin> set s" by (rule route_matches_segs [OF mt pl])
  have "segs \<noteq> []" using mt ne by (auto simp: route_matches_def)
  then have ps: "path_segments (CHR ''/'' # join_char (CHR ''/'') segs @ replicate n (CHR ''/'')) = segs"
    using sf by (rule path_segments_join)
  have stat: "map ?num pat = pat" using pl by (induction pat) auto
  show ?thesis
  proof (cases "id_segment \<in> set pat")
    case False
    then have "segs = pat" using mt by (simp add: route_matches_static)
    then show ?thesis using ps stat ok(2) by (simp add: normalizePath_def Let_def)
  next
    case True
    then have idc: "id_collection pat" and idp: "pat ! 3 = id_segment" "id_segment \<notin> set (take 3 pat @ drop 4 pat)"
      and ov: "list_all (overlap_ok m pat) (filter static_route registered_keys)"
      using ok(1) unfolding static_routes route_ok_def prod.case by blast+
    have len: "4 \<le> length pat" using idc by (simp add: id_collection_def)
    have sg: "segs = pat[3 := segs ! 3]" "length segs = length pat" using route_matches_id [OF mt idp(2) len] by auto
    define x where "x = ?num (segs ! 3)"
    have mp: "map ?num segs = pat[3 := x]"
    proof -
      have "map ?num segs = map ?num (pat[3 := segs ! 3])" using sg(1) by (rule arg_cong)
      also have "\<dots> = (map ?num pat)[3 := x]" by (simp only: map_update x_def)
      finally show ?thesis by (simp only: stat)
    qed
    have upd: "(pat[3 := x])[3 := id_segment] = pat" using len idp(1) by (simp add: list_update_same_conv)
    have xf: "\<forall>s\<in>set (pat[3 := x]). CHR ''/'' \<notin> set s"
      using sf mp [symmetric] by (auto simp: id_segment_def split: if_splits)
    have parse: "parse_key (route_key m (pat[3 := x])) = (m, pat[3 := x])"
      using m xf ne by (intro parse_route_key) auto
    have reg: "scope_rule (route_key m (pat[3 := x])) = scope_rule (route_key m pat)"
      if r: "IsRouteRegistered (route_key m (pat[3 := x]))"
    proof (cases "x = id_segment")
      case True
      have "pat[3 := id_segment] = pat" using idp(1) by (metis list_update_id)
      then show ?thesis using True by simp
    next
      case False
      have "static_route (route_key m (pat[3 := x]))"
        using parse False len by (simp add: static_route_def)
      then have "overlap_ok m pat (route_key m (pat[3 := x]))"
        using ov r by (auto simp: list_all_iff registered_iff)
      then have "same_rule (route_key m (pat[3 := x])) (route_key m pat)"
        using parse len by (simp add: overlap_ok_def)
      then show ?thesis by (simp add: same_rule_scope)
    qed
    have guard: "id_collection (pat[3 := x])" using idc by (simp add: id_collection_def)
    show ?thesis
      unfolding normalizePath_def ps mp Let_def upd
      using reg guard ok(2) by presburger
  qed
qed

text \<open>C7. No protected route escapes its rule. For every route behind the authentication
  middleware and every request path the router sends there, with any non-empty parameter, well-formed
  or not, and any number of trailing slashes, an API key is judged by exactly the rule registered for
  that route: refused on a JWT-only route, otherwise admitted only with the route's scope.\<close>

theorem protected_routes_enforced:
  assumes "(m, pat) \<in> set protected_routes" and "route_matches pat segs"
  shows "IsRouteRegistered (route_key m pat) \<and>
    hasScope m (CHR ''/'' # join_char (CHR ''/'') segs @ replicate n (CHR ''/'')) scopes =
      scope_rule (route_key m pat) scopes \<and>
    (fst (hasScope m (CHR ''/'' # join_char (CHR ''/'') segs @ replicate n (CHR ''/'')) scopes) \<longleftrightarrow>
       (\<exists>required. mget routeScopes (route_key m pat) = Some required \<and>
          route_key m pat \<notin> set jwtOnlyRoutes \<and> (''*'' \<in> set scopes \<or> required \<in> set scopes)))"
proof -
  have ok: "route_ok (m, pat)" "IsRouteRegistered (route_key m pat)"
    using assms(1) protected_routes_ok protected_registered by (auto simp: list_all_iff)
  note rule = normalized_rule [OF ok assms(2), of n]
  have "fst (scope_rule (route_key m pat) scopes) \<longleftrightarrow>
       (\<exists>required. mget routeScopes (route_key m pat) = Some required \<and>
          route_key m pat \<notin> set jwtOnlyRoutes \<and> (''*'' \<in> set scopes \<or> required \<in> set scopes))"
    using ok(2) by (cases "mget routeScopes (route_key m pat)")
      (auto simp: scope_rule_def IsRouteRegistered_def list_ex_iff split: if_splits)
  with ok(2) rule show ?thesis by (simp add: hasScope_def)
qed

theorem protected_routes_enforced_witness:
  "hasScope ''POST'' ''/api/v1/servers/x7/exec/'' [''servers:read''] =
   scope_rule ''POST /api/v1/servers/{id}/exec'' [''servers:read'']"
proof -
  have "(''POST'', [''api'', ''v1'', ''servers'', ''{id}'', ''exec'']) \<in> set protected_routes"
    by (simp add: protected_routes_def)
  moreover have "route_matches [''api'', ''v1'', ''servers'', ''{id}'', ''exec''] [''api'', ''v1'', ''servers'', ''x7'', ''exec'']"
    by (simp add: route_matches_def id_segment_def)
  ultimately show ?thesis
    using protected_routes_enforced [of "''POST''" "[''api'', ''v1'', ''servers'', ''{id}'', ''exec'']"
        "[''api'', ''v1'', ''servers'', ''x7'', ''exec'']" 1 "[''servers:read'']"]
    by (simp add: route_key_def)
qed

end
