(* ===== verification/Rate_Limit.thy ===== *)
theory Rate_Limit
  imports Go_Strings
begin

text \<open>
  The request limiters (\<^verbatim>\<open>server/middleware/ratelimit.go\<close>): the per-principal limiter and the
  per-address limiter with its periodic sweep. The whole body of \<^verbatim>\<open>allow\<close> runs under the
  limiter's mutex, so a call is one function of the state and the time it reads.

  The reference is the history of admitted requests: a request is admitted exactly when fewer than
  the limit were admitted for its key during the window before it. The interface a client of either
  limiter relies on is the locale \<open>sliding_window\<close>.
\<close>

section \<open>Limiters\<close>

record RateLimiter =
  window :: duration
  maxReqs :: int
  requests :: "(string, time list) gomap"

definition NewRateLimiter :: "duration \<Rightarrow> int \<Rightarrow> RateLimiter" where
  "NewRateLimiter w n = \<lparr>window = w, maxReqs = n, requests = []\<rparr>"

definition times_of :: "string \<Rightarrow> (string, time list) gomap \<Rightarrow> time list" where
  "times_of k m = (case mget m k of None \<Rightarrow> [] | Some ts \<Rightarrow> ts)"

definition allow :: "string \<Rightarrow> time \<Rightarrow> RateLimiter \<Rightarrow> RateLimiter \<times> bool" where
  "allow k now rl =
     (let cutoff = Add now (- window rl);
          valid = filter (\<lambda>t. After t cutoff) (times_of k (requests rl))
      in if maxReqs rl \<le> int (length valid)
         then (rl\<lparr>requests := mput k valid (requests rl)\<rparr>, False)
         else (rl\<lparr>requests := mput k (valid @ [now]) (requests rl)\<rparr>, True))"

definition Allow :: "uint \<Rightarrow> time \<Rightarrow> RateLimiter \<Rightarrow> RateLimiter \<times> bool" where
  "Allow u now rl = allow (''jwt:'' @ FormatUint u) now rl"

text \<open>\<^verbatim>\<open>Limit\<close>: the identity a request is counted under; without one it passes unlimited.\<close>

definition limit_identity :: "string \<Rightarrow> uint option \<Rightarrow> uint option \<Rightarrow> string" where
  "limit_identity auth_type key_id user_id =
     (if auth_type = ''api_key'' \<and> key_id \<noteq> None then ''api_key:'' @ FormatUint (the key_id)
      else if auth_type = ''jwt'' \<and> user_id \<noteq> None then ''jwt:'' @ FormatUint (the user_id)
      else [])"

definition Limit :: "string \<Rightarrow> uint option \<Rightarrow> uint option \<Rightarrow> time \<Rightarrow> RateLimiter \<Rightarrow> RateLimiter \<times> bool" where
  "Limit auth_type key_id user_id now rl =
     (let k = limit_identity auth_type key_id user_id in if k = [] then (rl, True) else allow k now rl)"

record IPRateLimiter =
  ip_window :: duration
  ip_maxReqs :: int
  ip_requests :: "(string, time list) gomap"
  trustProxy :: bool
  lastSweep :: time

definition NewIPRateLimiter :: "duration \<Rightarrow> int \<Rightarrow> bool \<Rightarrow> IPRateLimiter" where
  "NewIPRateLimiter w n tp = \<lparr>ip_window = w, ip_maxReqs = n, ip_requests = [], trustProxy = tp, lastSweep = 0\<rparr>"

definition sweep :: "time \<Rightarrow> (string, time list) gomap \<Rightarrow> (string, time list) gomap" where
  "sweep cutoff m = filter (\<lambda>(k, ts). \<not> (ts = [] \<or> Before (last ts) cutoff)) m"

text \<open>\<open>rt\<close> is the configured \<^verbatim>\<open>LoginRateLimit\<close>, when a runtime configuration is wired.\<close>

definition ip_Allow :: "int option \<Rightarrow> string \<Rightarrow> time \<Rightarrow> IPRateLimiter \<Rightarrow> IPRateLimiter \<times> bool" where
  "ip_Allow rt ip now rl =
     (let cutoff = Add now (- ip_window rl);
          rl1 = (if ip_window rl \<le> Sub now (lastSweep rl)
                 then rl\<lparr>ip_requests := sweep cutoff (ip_requests rl), lastSweep := now\<rparr> else rl);
          valid = filter (\<lambda>t. After t cutoff) (times_of ip (ip_requests rl1));
          limit = (case rt of None \<Rightarrow> ip_maxReqs rl | Some n \<Rightarrow> n)
      in if limit \<le> int (length valid)
         then (rl1\<lparr>ip_requests := mput ip valid (ip_requests rl1)\<rparr>, False)
         else (rl1\<lparr>ip_requests := mput ip (valid @ [now]) (ip_requests rl1)\<rparr>, True))"

text \<open>\<^verbatim>\<open>clientIP\<close>: \<open>split_host_port\<close> is the answer of \<^verbatim>\<open>net.SplitHostPort\<close>.\<close>

definition after_last_comma :: "string \<Rightarrow> string" where
  "after_last_comma s = rev (takeWhile (\<lambda>c. c \<noteq> CHR '','') (rev s))"

definition clientIP :: "string \<Rightarrow> string \<Rightarrow> string option \<Rightarrow> bool \<Rightarrow> string" where
  "clientIP xff remoteAddr split_host_port tp =
     (let direct = (case split_host_port of None \<Rightarrow> remoteAddr | Some host \<Rightarrow> host)
      in if tp \<and> xff \<noteq> [] then
           let ip = TrimSpace (after_last_comma xff) in if ip \<noteq> [] then ip else direct
         else direct)"

section \<open>The reference\<close>

lemma length_filter_mono_on: "(\<And>x. x \<in> set xs \<Longrightarrow> P x \<Longrightarrow> Q x) \<Longrightarrow> length (filter P xs) \<le> length (filter Q xs)"
  by (induction xs) auto


type_synonym history = "(time \<times> string) list"

definition in_window :: "duration \<Rightarrow> string \<Rightarrow> time \<Rightarrow> history \<Rightarrow> nat" where
  "in_window w k now h = length (filter (\<lambda>(t, j). j = k \<and> now - w < t) h)"

definition admits :: "duration \<Rightarrow> int \<Rightarrow> string \<Rightarrow> time \<Rightarrow> history \<Rightarrow> bool" where
  "admits w n k now h = (int (in_window w k now h) < n)"

definition record_admitted :: "bool \<Rightarrow> string \<Rightarrow> time \<Rightarrow> history \<Rightarrow> history" where
  "record_admitted ok k now h = (if ok then h @ [(now, k)] else h)"

definition in_span :: "duration \<Rightarrow> string \<Rightarrow> time \<Rightarrow> history \<Rightarrow> nat" where
  "in_span w k t h = length (filter (\<lambda>(x, j). j = k \<and> t - w < x \<and> x \<le> t) h)"

text \<open>A run of calls, each with the configuration in force when it was made.\<close>

fun serve :: "('c \<Rightarrow> string \<Rightarrow> time \<Rightarrow> 's \<Rightarrow> 's \<times> bool) \<Rightarrow> 's \<Rightarrow> (time \<times> string \<times> 'c) list \<Rightarrow> history \<Rightarrow> 's \<times> history" where
  "serve decide s [] h = (s, h)"
| "serve decide s ((now, k, c) # cs) h =
     (let (s', ok) = decide c k now s in serve decide s' cs (record_admitted ok k now h))"

text \<open>What a client relies on: a state stands for a history at time \<open>t\<close> when it remembers, for
  every key, the admissions that can still matter from then on.\<close>

locale sliding_window =
  fixes stands_for :: "'s \<Rightarrow> time \<Rightarrow> history \<Rightarrow> bool"
    and decide :: "'c \<Rightarrow> string \<Rightarrow> time \<Rightarrow> 's \<Rightarrow> 's \<times> bool"
    and w :: duration
    and limit :: "'c \<Rightarrow> int"
  assumes decision: "stands_for s t h \<Longrightarrow> t \<le> now \<Longrightarrow> snd (decide c k now s) = admits w (limit c) k now h"
    and simulation: "stands_for s t h \<Longrightarrow> t \<le> now \<Longrightarrow>
      stands_for (fst (decide c k now s)) now (record_admitted (snd (decide c k now s)) k now h)"
    and past: "stands_for s t h \<Longrightarrow> x \<in> set h \<Longrightarrow> fst x \<le> t"
begin

lemma serve_stands:
  "stands_for s t h \<Longrightarrow> sorted (t # map fst cs) \<Longrightarrow>
   stands_for (fst (serve decide s cs h)) (last (t # map fst cs)) (snd (serve decide s cs h))"
proof (induction cs arbitrary: s t h)
  case (Cons x cs)
  obtain now k c where x: "x = (now, k, c)" by (cases x)
  have "stands_for (fst (decide c k now s)) now (record_admitted (snd (decide c k now s)) k now h)"
    using Cons.prems x by (auto intro: simulation)
  from Cons.IH[OF this] show ?case using Cons.prems x by (simp add: case_prod_beta Let_def)
qed auto

lemma record_span:
  assumes st: "stands_for s t h" and le: "t \<le> now" and lim: "limit c \<le> N"
    and old: "\<forall>k u. int (in_span w k u h) \<le> N"
  shows "int (in_span w k u (record_admitted (snd (decide c i now s)) i now h)) \<le> N"
proof (cases "snd (decide c i now s) \<and> k = i \<and> u - w < now \<and> now \<le> u")
  case True
  then have "int (in_window w k now h) < N" using decision[OF st le, of c i] lim by (simp add: admits_def)
  moreover have "in_span w k u h \<le> in_window w k now h"
    unfolding in_span_def in_window_def using True past[OF st] le
    by (fastforce intro!: length_filter_mono_on)
  ultimately show ?thesis using True by (simp add: record_admitted_def in_span_def)
next
  case False
  then have "in_span w k u (record_admitted (snd (decide c i now s)) i now h) = in_span w k u h"
    by (auto simp: record_admitted_def in_span_def)
  then show ?thesis using old by simp
qed

lemma serve_span:
  "stands_for s t h \<Longrightarrow> sorted (t # map fst cs) \<Longrightarrow> \<forall>x\<in>set cs. limit (snd (snd x)) \<le> N \<Longrightarrow>
   \<forall>k u. int (in_span w k u h) \<le> N \<Longrightarrow> \<forall>k u. int (in_span w k u (snd (serve decide s cs h))) \<le> N"
proof (induction cs arbitrary: s t h)
  case (Cons x cs)
  obtain now k c where x: "x = (now, k, c)" by (cases x)
  have le: "t \<le> now" using Cons.prems x by simp
  have "\<forall>j u. int (in_span w j u (record_admitted (snd (decide c k now s)) k now h)) \<le> N"
    using record_span[OF Cons.prems(1) le _ Cons.prems(4), of c] Cons.prems(3) x by simp
  from Cons.IH[OF simulation[OF Cons.prems(1) le, of c k] _ _ this]
  show ?case using Cons.prems x by (simp add: case_prod_beta Let_def)
qed auto

end

section \<open>Both limiters implement it\<close>

definition remembers :: "duration \<Rightarrow> time \<Rightarrow> (string, time list) gomap \<Rightarrow> history \<Rightarrow> bool" where
  "remembers w t m h \<longleftrightarrow> mok m \<and> (\<forall>x\<in>set h. fst x \<le> t) \<and> (\<forall>k ts. mget m k = Some ts \<longrightarrow> sorted ts) \<and>
     (\<forall>k. set (times_of k m) \<subseteq> fst ` set h) \<and>
     (\<forall>k now. t \<le> now \<longrightarrow> filter (\<lambda>x. now - w < x) (times_of k m) =
        map fst (filter (\<lambda>(x, j). j = k \<and> now - w < x) h))"

definition pruned :: "duration \<Rightarrow> time \<Rightarrow> string \<Rightarrow> (string, time list) gomap \<Rightarrow> time list" where
  "pruned w now k m = filter (\<lambda>x. now - w < x) (times_of k m)"

lemma times_of_mput [simp]: "times_of j (mput k ts m) = (if j = k then ts else times_of j m)"
  by (simp add: times_of_def update_conv)

lemma filter_later: "now \<le> (now' :: int) \<Longrightarrow>
  filter (\<lambda>x. now' - w < x) (filter (\<lambda>x. now - w < x) ts) = filter (\<lambda>x. now' - w < x) ts"
  by (auto simp: conj_commute intro!: filter_cong)

lemma remembers_count:
  assumes "remembers w t m h" "t \<le> now"
  shows "int (length (pruned w now k m)) < n \<longleftrightarrow> admits w n k now h"
  using assms by (auto simp: remembers_def pruned_def admits_def in_window_def)

lemma remembers_sorted: "remembers w t m h \<Longrightarrow> sorted (times_of k m)"
  by (auto simp: remembers_def times_of_def split: option.splits)

lemma remembers_put:
  assumes r: "remembers w t m h" and le: "t \<le> now"
  shows "remembers w now (mput k (pruned w now k m @ (if ok then [now] else [])) m) (record_admitted ok k now h)"
proof -
  have past: "x \<le> t" if x: "x \<in> set (times_of j m)" for x j
  proof -
    have "x \<in> fst ` set h" using r x unfolding remembers_def by blast
    then show ?thesis using r by (auto simp: remembers_def)
  qed
  have eq: "filter (\<lambda>x. u - w < x) (times_of j m) = map fst (filter (\<lambda>(x, i). i = j \<and> u - w < x) h)"
    if "now \<le> u" for u j using r le that by (auto simp: remembers_def)
  have sub: "set (times_of j m) \<subseteq> fst ` set h" for j using r by (auto simp: remembers_def)
  have srt: "sorted (pruned w now k m @ (if ok then [now] else []))"
    using sorted_filter[of id, simplified, OF remembers_sorted[OF r]] past le
    by (fastforce simp: pruned_def sorted_append)
  show ?thesis unfolding remembers_def
  proof (intro conjI allI impI)
    show "mok (mput k (pruned w now k m @ (if ok then [now] else [])) m)"
      using r by (simp add: remembers_def mok_def distinct_update)
    show "\<forall>x\<in>set (record_admitted ok k now h). fst x \<le> now"
      using r le by (auto simp: remembers_def record_admitted_def)
    show "sorted ts" if "mget (mput k (pruned w now k m @ (if ok then [now] else [])) m) j = Some ts" for j ts
      using that srt r by (auto simp: update_conv remembers_def split: if_splits)
    show "set (times_of j (mput k (pruned w now k m @ (if ok then [now] else [])) m)) \<subseteq> fst ` set (record_admitted ok k now h)" for j
      using sub[of j] sub[of k] by (auto simp: record_admitted_def pruned_def)
    show "filter (\<lambda>x. u - w < x) (times_of j (mput k (pruned w now k m @ (if ok then [now] else [])) m)) =
        map fst (filter (\<lambda>(x, i). i = j \<and> u - w < x) (record_admitted ok k now h))" if "now \<le> u" for j u
      using eq[OF that, of j] filter_later[OF that, of w "times_of k m"]
      by (auto simp: record_admitted_def pruned_def)
  qed
qed

definition rl_stands :: "duration \<Rightarrow> int \<Rightarrow> RateLimiter \<Rightarrow> time \<Rightarrow> history \<Rightarrow> bool" where
  "rl_stands w n rl t h \<longleftrightarrow> window rl = w \<and> maxReqs rl = n \<and> remembers w t (requests rl) h"

lemma allow_pruned:
  "allow k now rl = (let v = pruned (window rl) now k (requests rl); ok = int (length v) < maxReqs rl
     in (rl\<lparr>requests := mput k (v @ (if ok then [now] else [])) (requests rl)\<rparr>, ok))"
  by (simp add: allow_def pruned_def Let_def not_le)

interpretation per_principal: sliding_window "rl_stands w n" "\<lambda>_ :: unit. allow" w "\<lambda>_. n"
proof
  fix s t h now c k
  assume st: "rl_stands w n s t h" and le: "t \<le> now"
  show "snd (allow k now s) = admits w n k now h"
    using st remembers_count[OF _ le] by (simp add: rl_stands_def allow_pruned Let_def)
  show "rl_stands w n (fst (allow k now s)) now (record_admitted (snd (allow k now s)) k now h)"
    using st remembers_put[OF _ le] by (simp add: rl_stands_def allow_pruned Let_def)
qed (auto simp: rl_stands_def remembers_def)

lemma mget_filter_notin: "k \<notin> fst ` set m \<Longrightarrow> mget (filter P m) k = None"
  by (auto simp: map_of_eq_None_iff)

lemma mget_filter: "mok m \<Longrightarrow> mget (filter (\<lambda>(k, v). P v) m) k =
    (case mget m k of None \<Rightarrow> None | Some v \<Rightarrow> if P v then Some v else None)"
proof (induction m)
  case (Cons e m)
  obtain i v where e: "e = (i, v)" by (cases e)
  show ?case
  proof (cases "i = k")
    case True
    then have "k \<notin> fst ` set m" using Cons.prems e by (simp add: mok_def)
    then show ?thesis using True e by (simp add: mget_filter_notin)
  qed (use Cons e in \<open>simp add: mok_def\<close>)
qed (simp add: mok_def)

lemma times_of_sweep: "mok m \<Longrightarrow>
    times_of k (sweep c m) = (if times_of k m = [] \<or> last (times_of k m) < c then [] else times_of k m)"
  by (auto simp: times_of_def sweep_def mget_filter split: option.splits)

lemma sorted_last_ge: "sorted xs \<Longrightarrow> x \<in> set xs \<Longrightarrow> x \<le> last xs"
  by (induction xs) (auto split: if_splits)

lemma remembers_sweep:
  assumes r: "remembers w t m h" and le: "t \<le> now"
  shows "remembers w now (sweep (now - w) m) h"
proof -
  have ok: "mok m" using r by (simp add: remembers_def)
  have "filter (\<lambda>x. u - w < x) (times_of k (sweep (now - w) m)) = filter (\<lambda>x. u - w < x) (times_of k m)"
    if "now \<le> u" for k u
  proof (cases "times_of k m = [] \<or> last (times_of k m) < now - w")
    case True
    then have "\<not> u - w < x" if "x \<in> set (times_of k m)" for x
      using sorted_last_ge[OF remembers_sorted[OF r] that] \<open>now \<le> u\<close> that by fastforce
    then show ?thesis using True by (simp add: times_of_sweep[OF ok])
  qed (simp add: times_of_sweep[OF ok])
  moreover have "mok (sweep c m)" for c
    using ok by (auto simp: mok_def sweep_def intro: distinct_map_filter)
  moreover have "mget (sweep c m) k = Some ts \<Longrightarrow> sorted ts" for c k ts
    using r ok by (auto simp: remembers_def sweep_def mget_filter split: option.splits if_splits)
  moreover have "set (times_of k (sweep c m)) \<subseteq> fst ` set h" for c k
    using r by (auto simp: remembers_def times_of_sweep dest: subsetD)
  ultimately show ?thesis using r le by (auto simp: remembers_def)
qed

definition swept :: "time \<Rightarrow> IPRateLimiter \<Rightarrow> IPRateLimiter" where
  "swept now rl = (if ip_window rl \<le> Sub now (lastSweep rl)
     then rl\<lparr>ip_requests := sweep (now - ip_window rl) (ip_requests rl), lastSweep := now\<rparr> else rl)"

definition ip_limit :: "int \<Rightarrow> int option \<Rightarrow> int" where
  "ip_limit n rt = (case rt of None \<Rightarrow> n | Some k \<Rightarrow> k)"

definition ip_stands :: "duration \<Rightarrow> int \<Rightarrow> IPRateLimiter \<Rightarrow> time \<Rightarrow> history \<Rightarrow> bool" where
  "ip_stands w n rl t h \<longleftrightarrow> ip_window rl = w \<and> ip_maxReqs rl = n \<and> remembers w t (ip_requests rl) h"

lemma remembers_later: "remembers w t m h \<Longrightarrow> t \<le> now \<Longrightarrow> remembers w now m h"
  by (force simp: remembers_def)

lemma swept_stands: "ip_stands w n rl t h \<Longrightarrow> t \<le> now \<Longrightarrow> ip_stands w n (swept now rl) now h"
  by (auto simp: ip_stands_def swept_def intro: remembers_sweep remembers_later)

lemma ip_Allow_pruned:
  "ip_Allow rt ip now rl = (let rl1 = swept now rl; v = pruned (ip_window rl) now ip (ip_requests rl1);
       ok = int (length v) < ip_limit (ip_maxReqs rl) rt
     in (rl1\<lparr>ip_requests := mput ip (v @ (if ok then [now] else [])) (ip_requests rl1)\<rparr>, ok))"
  by (simp add: ip_Allow_def pruned_def Let_def not_le swept_def ip_limit_def)

lemma swept_fields [simp]: "ip_window (swept now rl) = ip_window rl" "ip_maxReqs (swept now rl) = ip_maxReqs rl"
  by (simp_all add: swept_def)

interpretation per_address: sliding_window "ip_stands w n" ip_Allow w "ip_limit n"
proof
  fix s t h now c k
  assume st: "ip_stands w n s t h" and le: "t \<le> now"
  have sw: "remembers w now (ip_requests (swept now s)) h" "ip_window s = w" "ip_maxReqs s = n"
    using swept_stands[OF st le] st by (simp_all add: ip_stands_def)
  show "snd (ip_Allow c k now s) = admits w (ip_limit n c) k now h"
    using sw remembers_count[OF sw(1) order_refl] by (simp add: ip_Allow_pruned Let_def)
  show "ip_stands w n (fst (ip_Allow c k now s)) now (record_admitted (snd (ip_Allow c k now s)) k now h)"
    using sw remembers_put[OF sw(1) order_refl] by (simp add: ip_Allow_pruned Let_def ip_stands_def)
qed (auto simp: ip_stands_def remembers_def)

text \<open>An address is remembered only if it called since the last sweep, or within the window
  before it.\<close>

definition recent :: "IPRateLimiter \<Rightarrow> time \<Rightarrow> (time \<times> string) set \<Rightarrow> bool" where
  "recent rl now calls \<longleftrightarrow> mok (ip_requests rl) \<and> lastSweep rl \<le> now \<and>
     (\<forall>k ts. mget (ip_requests rl) k = Some ts \<longrightarrow> (\<forall>x\<in>set ts. (x, k) \<in> calls) \<and>
        (\<exists>u. (u, k) \<in> calls \<and> lastSweep rl - ip_window rl \<le> u))"

lemma recent_swept:
  assumes "recent rl t calls" "t \<le> now" "ip_window rl \<le> max_int64"
  shows "recent (swept now rl) now calls \<and> (0 < ip_window rl \<longrightarrow> now - lastSweep (swept now rl) < ip_window rl)"
proof (cases "ip_window rl \<le> Sub now (lastSweep rl)")
  case True
  have "\<exists>u. (u, k) \<in> calls \<and> now - ip_window rl \<le> u"
    if "mget (ip_requests rl) k = Some ts" "ts \<noteq> []" "\<not> last ts < now - ip_window rl" for k ts
    using assms(1) that last_in_set[of ts] unfolding recent_def by (metis not_less)
  then show ?thesis using True assms(1)
    by (auto simp: swept_def recent_def sweep_def mget_filter mok_def distinct_map_filter split: option.splits if_splits)
next
  case False
  then show ?thesis using assms by (auto simp: swept_def recent_def Sub_def min_int64_def max_int64_def)
qed

lemma recent_call:
  assumes "recent rl t calls" "t \<le> now" "0 \<le> ip_window rl" "ip_window rl \<le> max_int64"
  shows "recent (fst (ip_Allow rt k now rl)) now (insert (now, k) calls)"
proof -
  let ?s = "swept now rl"
  have r: "recent ?s now calls" using recent_swept[OF assms(1,2,4)] by simp
  have "\<forall>x\<in>set (pruned (ip_window rl) now k (ip_requests ?s)). (x, k) \<in> calls"
    using r by (cases "mget (ip_requests ?s) k") (auto simp: pruned_def times_of_def recent_def)
  moreover have "lastSweep ?s - ip_window ?s \<le> now" using r assms(3) by (simp add: recent_def)
  ultimately show ?thesis using r
    by (auto simp: ip_Allow_pruned Let_def recent_def update_conv mok_def distinct_update split: if_splits)
qed

lemma ip_Allow_window [simp]: "ip_window (fst (ip_Allow rt k now rl)) = ip_window rl"
  by (simp add: ip_Allow_pruned Let_def)

lemma recent_serve:
  "recent rl t calls \<Longrightarrow> sorted (t # map fst cs) \<Longrightarrow> 0 \<le> ip_window rl \<Longrightarrow> ip_window rl \<le> max_int64 \<Longrightarrow>
   recent (fst (serve ip_Allow rl cs h)) (last (t # map fst cs)) (calls \<union> (\<lambda>(x, k, c). (x, k)) ` set cs)"
proof (induction cs arbitrary: rl t h calls)
  case (Cons x cs)
  obtain now k c where x: "x = (now, k, c)" by (cases x)
  have "recent (fst (ip_Allow c k now rl)) now (insert (now, k) calls)"
    using Cons.prems x by (auto intro: recent_call)
  from Cons.IH[OF this] show ?case using Cons.prems x by (simp add: case_prod_beta Let_def)
qed auto

lemma ip_serve_window [simp]: "ip_window (fst (serve ip_Allow rl cs h)) = ip_window rl"
  by (induction cs arbitrary: rl h) (auto simp: case_prod_beta Let_def)

section \<open>Properties\<close>

lemma limit_identity_inj:
  assumes "limit_identity a k u = limit_identity a' k' u'" "limit_identity a k u \<noteq> []"
  shows "a = a' \<and> (if a = ''api_key'' then k = k' else u = u')"
  using assms by (auto simp: limit_identity_def FormatUint_inj split: if_splits)

text \<open>C13. After any run of requests with non-decreasing times the per-principal limiter admits a
  request exactly when fewer than the limit were admitted for its principal in the window before it,
  so no window ever holds more than the limit; and two requests are counted together only when they
  come from the same key or from the same user.\<close>

theorem principal_limit_exact:
  fixes cs :: "(time \<times> string \<times> unit) list"
  assumes "sorted (t0 # map fst cs)" "0 \<le> n"
    and "serve (\<lambda>_. allow) (NewRateLimiter w n) cs [] = (rl, h)" "last (t0 # map fst cs) \<le> now"
  shows "snd (allow k now rl) = admits w n k now h \<and> (\<forall>k t. int (in_span w k t h) \<le> n) \<and>
    snd (Limit a key user now rl) =
      (limit_identity a key user = [] \<or> admits w n (limit_identity a key user) now h) \<and>
    (limit_identity a key user = limit_identity a' key' user' \<and> limit_identity a key user \<noteq> [] \<longrightarrow>
       a = a' \<and> (if a = ''api_key'' then key = key' else user = user'))"
proof -
  have s0: "rl_stands w n (NewRateLimiter w n) t0 []"
    by (simp add: rl_stands_def NewRateLimiter_def remembers_def mok_def times_of_def)
  have "rl_stands w n rl (last (t0 # map fst cs)) h"
    using per_principal.serve_stands[OF s0 assms(1)] assms(3) by simp
  then have "snd (allow k now rl) = admits w n k now h" for k
    using assms(4) by (rule per_principal.decision)
  moreover have "\<forall>k t. int (in_span w k t h) \<le> n"
    using per_principal.serve_span[OF s0 assms(1), of n] assms(2,3) by (simp add: in_span_def)
  ultimately show ?thesis using limit_identity_inj[of a key user a' key' user']
    by (auto simp: Limit_def Let_def)
qed

theorem principal_limit_exact_witness:
  "serve (\<lambda>_ :: unit. allow) (NewRateLimiter 10 2) [(1, ''jwt:7'', ()), (2, ''jwt:7'', ()), (3, ''jwt:7'', ())] [] =
     (\<lparr>window = 10, maxReqs = 2, requests = [(''jwt:7'', [1, 2])]\<rparr>, [(1, ''jwt:7''), (2, ''jwt:7'')]) \<and>
   snd (allow ''jwt:7'' 12 \<lparr>window = 10, maxReqs = 2, requests = [(''jwt:7'', [1, 2])]\<rparr>) \<and>
   \<not> snd (allow ''jwt:7'' 10 \<lparr>window = 10, maxReqs = 2, requests = [(''jwt:7'', [1, 2])]\<rparr>)"
proof -
  let ?rl = "\<lparr>window = 10, maxReqs = 2, requests = [(''jwt:7'', [1, 2])]\<rparr>" and ?h = "[(1, ''jwt:7''), (2, ''jwt:7'')]"
  let ?cs = "[(1, ''jwt:7'', ()), (2, ''jwt:7'', ()), (3, ''jwt:7'', ())]"
  have run: "serve (\<lambda>_. allow) (NewRateLimiter 10 2) ?cs [] = (?rl, ?h)"
    by code_simp
  have "snd (allow ''jwt:7'' 12 ?rl) = admits 10 2 ''jwt:7'' 12 ?h"
    and "snd (allow ''jwt:7'' 10 ?rl) = admits 10 2 ''jwt:7'' 10 ?h"
    using principal_limit_exact[OF _ _ run, of 0, THEN conjunct1] by (simp_all del: One_nat_def)
  moreover have "admits 10 2 ''jwt:7'' 12 ?h" "\<not> admits 10 2 ''jwt:7'' 10 ?h" by code_simp+
  ultimately show ?thesis using run by blast
qed

text \<open>C29. The per-address limiter decides as the same reference with the limit in force at each
  call, although it sweeps its map; no window holds more than the largest limit; and it remembers an
  address after a call only if that address called within the last two windows.\<close>

theorem address_limit_exact:
  assumes "sorted (t0 # map fst cs)" "0 \<le> N" "\<forall>(t, k, rt)\<in>set cs. ip_limit n rt \<le> N" "0 < w" "w \<le> max_int64" "0 \<le> t0"
    and "serve ip_Allow (NewIPRateLimiter w n tp) cs [] = (rl, h)" "last (t0 # map fst cs) \<le> now"
  shows "snd (ip_Allow rt k now rl) = admits w (ip_limit n rt) k now h \<and> (\<forall>k t. int (in_span w k t h) \<le> N) \<and>
    (\<forall>j \<in> set (mkeys (ip_requests (fst (ip_Allow rt k now rl)))). j = k \<or> (\<exists>(t, i, c)\<in>set cs. i = j \<and> now - 2 * w < t))"
proof -
  let ?i = "NewIPRateLimiter w n tp" and ?C = "(\<lambda>(x, k, c). (x, k)) ` set cs" and ?r = "fst (ip_Allow rt k now rl)"
  have s0: "ip_stands w n ?i t0 []"
    by (simp add: ip_stands_def NewIPRateLimiter_def remembers_def mok_def times_of_def)
  have "ip_stands w n rl (last (t0 # map fst cs)) h"
    using per_address.serve_stands[OF s0 assms(1)] assms(7) by simp
  then have dec: "snd (ip_Allow rt k now rl) = admits w (ip_limit n rt) k now h"
    using assms(8) by (rule per_address.decision)
  have span: "\<forall>k t. int (in_span w k t h) \<le> N"
  proof -
    have "\<forall>x\<in>set cs. ip_limit n (snd (snd x)) \<le> N" using assms(3) by fastforce
    then show ?thesis
      using per_address.serve_span[OF s0 assms(1), of N] assms(2,7) by (simp add: in_span_def)
  qed
  have r0: "recent ?i t0 {}" using assms(6) by (simp add: recent_def NewIPRateLimiter_def mok_def)
  have win: "ip_window ?i = w" by (simp add: NewIPRateLimiter_def)
  have rw: "ip_window rl = w" using ip_serve_window[of ?i cs "[]"] assms(7) win by simp
  have r1: "recent rl (last (t0 # map fst cs)) ?C"
    using recent_serve[OF r0 assms(1), of "[]"] win assms(4,5,7) by simp
  have r2: "recent ?r now (insert (now, k) ?C)"
    using recent_call[OF r1 assms(8)] rw assms(4,5) by simp
  have ls: "now - lastSweep ?r < w"
    using recent_swept[OF r1 assms(8)] rw assms(4,5) by (simp add: ip_Allow_pruned Let_def)
  have "j = k \<or> (\<exists>(t, i, c)\<in>set cs. i = j \<and> now - 2 * w < t)" if j: "j \<in> set (mkeys (ip_requests ?r))" for j
  proof -
    obtain ts where "mget (ip_requests ?r) j = Some ts" using j by (auto simp: map_of_eq_None_iff dest!: weak_map_of_SomeI)
    then obtain u where "(u, j) \<in> insert (now, k) ?C" "lastSweep ?r - w \<le> u"
      using r2 rw ip_Allow_window[of rt k now rl] unfolding recent_def by metis
    then show ?thesis using ls by fastforce
  qed
  then show ?thesis using dec span by blast
qed

theorem address_limit_exact_witness:
  "serve ip_Allow (NewIPRateLimiter 10 2 False) [(1, ''a'', None), (20, ''b'', Some 1)] [] =
     (\<lparr>ip_window = 10, ip_maxReqs = 2, ip_requests = [(''b'', [20])], trustProxy = False, lastSweep = 20\<rparr>,
      [(1, ''a''), (20, ''b'')]) \<and>
   \<not> snd (ip_Allow (Some 1) ''b'' 25 \<lparr>ip_window = 10, ip_maxReqs = 2, ip_requests = [(''b'', [20])], trustProxy = False, lastSweep = 20\<rparr>)"
proof -
  let ?rl = "\<lparr>ip_window = 10, ip_maxReqs = 2, ip_requests = [(''b'', [20])], trustProxy = False, lastSweep = 20\<rparr>"
  let ?cs = "[(1, ''a'', None), (20, ''b'', Some 1)]" and ?h = "[(1, ''a''), (20, ''b'')]"
  have run: "serve ip_Allow (NewIPRateLimiter 10 2 False) ?cs [] = (?rl, ?h)"
    by code_simp
  have "snd (ip_Allow (Some 1) ''b'' 25 ?rl) = admits 10 (ip_limit 2 (Some 1)) ''b'' 25 ?h"
    using address_limit_exact[OF _ _ _ _ _ _ run, of 0 2 25 "Some 1" "''b''"]
    by (simp add: ip_limit_def max_int64_def)
  then show ?thesis using run by (simp add: admits_def in_window_def ip_limit_def)
qed

text \<open>The address a request is counted under cannot be chosen by the client: without a trusted proxy
  the header is ignored, and with one only the entry the proxy appended counts.\<close>

lemma clientIP_untrusted: "clientIP xff ra sp False = clientIP [] ra sp True"
  by (simp add: clientIP_def)

lemma clientIP_appended:
  assumes "CHR '','' \<notin> set entry" "TrimSpace entry \<noteq> []"
  shows "clientIP (spoofed @ CHR '','' # entry) ra sp True = TrimSpace entry"
proof -
  have "after_last_comma (spoofed @ CHR '','' # entry) = entry"
    using assms(1) by (auto simp: after_last_comma_def takeWhile_append)
  then show ?thesis using assms(2) by (simp add: clientIP_def)
qed

end
