(* ===== verification/Transactions.thy ===== *)
theory Transactions
  imports Session_Gate
begin

text \<open>
  What the account and key services share: the outcome of a database transaction as the repository
  code sees it (\<^verbatim>\<open>repository/user.go\<close>), and what revoking and awaiting sessions leaves behind.

  A transaction is described by the errors its statements and its \<^verbatim>\<open>COMMIT\<close> return. After a lost
  acknowledgement the transaction is unresolved: it holds its row lock, and may commit or roll back later.
\<close>

datatype db_failure = DbErr | DbCtx

datatype commit_error = TxCommitRollback | PgError string | TransportError

definition commitDefinitelyRolledBack :: "commit_error \<Rightarrow> bool" where
  "commitDefinitelyRolledBack e =
     (case e of
        TxCommitRollback \<Rightarrow> True
      | PgError code \<Rightarrow> code \<in> set [''40001'', ''40P01'', ''25P02'']
      | TransportError \<Rightarrow> False)"

record tx_env =
  begin_err :: "db_failure option"
  read_err :: "db_failure option"
  write_err :: "db_failure option"
  audit_err :: "db_failure option"
  commit_err :: "commit_error option"

definition clean_tx :: tx_env where
  "clean_tx = \<lparr>begin_err = None, read_err = None, write_err = None, audit_err = None, commit_err = None\<rparr>"

section \<open>The gate around a transaction\<close>

lemma withUser_outcome:
  assumes "withUser env g w u fn = (g', w', r)"
  shows "(w' = w \<and> (r = Some ErrUnavailable \<or> r = Some CtxErr)) \<or>
    (\<exists>v unc. (if fenced g u then read_recovery env else read_version env) = Some v \<and> fn v w = (w', unc, r) \<and> fenced g' u = unc)"
  using assms
  by (cases "mget g u") (auto simp: gate_defs gm_laws split: if_splits option.splits prod.splits)

text \<open>The gate's own state only depends on which version was read and whether the write is uncertain.\<close>

lemma withUser_gate:
  assumes "withUser env g w u fn = (g', w', r)"
    and "\<And>v. fst (snd (fn v w)) = fst (snd (fn2 v w2))"
  shows "fst (withUser env g w2 u fn2) = g'"
proof -
  have "fst (withUser env g w u fn) = fst (withUser env g w2 u fn2)"
    by (simp add: withUser_def Let_def case_prod_beta assms(2) split: option.split)
  then show ?thesis using assms(1) by simp
qed

lemma withUser_sim:
  assumes "withUser env g w u fn = (g', w', r)"
    and "\<And>v. fst (snd (fn v w)) = fst (snd (fn2 v w2))"
  shows "\<exists>r2. (withUser env g w2 u fn2 = (g', w2, r2) \<and> w' = w \<and> r \<noteq> None) \<or>
    (\<exists>v. withUser env g w2 u fn2 = (g', fst (fn2 v w2), r2) \<and> w' = fst (fn v w))"
  using assms(1)
  by (cases "mget g u") (auto simp: withUser_def stateFor_def Let_def case_prod_beta assms(2) split: if_splits option.splits)

section \<open>Revoked sessions\<close>

definition blocked :: "Session \<Rightarrow> bool" where
  "blocked s \<longleftrightarrow> s_state s = StateRevoked"

lemma MarkRevoked_blocks:
  assumes "MarkRevoked r u n = (r', hit)" and "i \<in> set (live r)" and "mget (heap r) i = Some s" and "s_UserID s = u"
  shows "i \<in> set hit \<and> sess_pred blocked i r'"
proof -
  have "sess_pred blocked i (fst (mark_loop r u n (live r))) \<and> i \<in> set (snd (mark_loop r u n (live r)))"
    by (rule sess_mark_hit[OF assms(2), of "\<lambda>x. x = s"])
      (use assms(3,4) in \<open>auto simp: sess_pred_def blocked_def mark_session_def Let_def\<close>)
  then show ?thesis using assms(1)
    by (auto simp: MarkRevoked_def blocked_def cancel_session_def split: prod.splits intro!: sess_fold)
qed

lemma blocked_Done: "sess_pred blocked i r \<Longrightarrow> sess_pred blocked i (Done r j)"
  by (auto simp: Done_def Let_def sess_pred_def mget_upd_session blocked_def MarkDone_def split: option.splits if_splits)

lemma await_one_state: "await_one w t x s = (s', res) \<Longrightarrow> s_state s' = s_state s"
  by (auto simp: await_one_def Let_def BeginCleanup_def Force_def split: prod.splits if_splits)

lemma Await_blocked:
  "Await r t da is = (r2, c) \<Longrightarrow> sess_pred blocked i r \<Longrightarrow> sess_pred blocked i r2"
proof (induction "is" arbitrary: r r2 c)
  case (Cons j js)
  show ?case
  proof (cases "mget (heap r) j")
    case None
    then show ?thesis using Cons by simp
  next
    case (Some s)
    obtain s' res where a: "await_one (windows r) t (da j) s = (s', res)" by (cases "await_one (windows r) t (da j) s")
    let ?r1 = "upd_session j (\<lambda>_. s') r"
    have "sess_pred blocked i ?r1"
      using Cons.prems(2) Some await_one_state[OF a] by (auto simp: sess_pred_def mget_upd_session blocked_def split: option.splits)
    then have "sess_pred blocked i (if st_complete res then Done ?r1 (s_ID s) else ?r1)"
      by (simp add: blocked_Done)
    then show ?thesis using Cons.prems(1) Cons.IH Some a by (auto simp: Let_def split: prod.splits)
  qed
qed auto

text \<open>What a revocation followed by a wait guarantees for a session of the user that was registered:
  it stays revoked, and a complete wait has removed it from the registry.\<close>

lemma revoke_then_await:
  assumes "reg_inv (n, r)" and "MarkRevoked r u n = (r1, hit)" and "n \<le> t" and "Await r1 t da hit = (r2, c)"
    and "i \<in> set (live r)" and "mget (heap r) i = Some s" and "s_UserID s = u"
  shows "sess_pred blocked i r2 \<and> (Complete c \<longrightarrow> i \<notin> set (live r2))"
proof -
  have b: "i \<in> set hit" "sess_pred blocked i r1" using MarkRevoked_blocks[OF assms(2,5,6,7)] by auto
  have "\<forall>j\<in>set hit. sess_pred (waitable t j) j r1" "distinct hit"
    using MarkRevoked_waitable[OF assms(1,2,3)] by auto
  from Await_spec[OF this(2,1) assms(4)]
  have "Complete c \<longrightarrow> (\<forall>j\<in>set hit. sess_pred (in_time t (da j)) j r1)"
    and "set (live r2) = set (live r1) - {j \<in> set hit. sess_pred (in_time t (da j)) j r1}"
    by (auto simp: filter_empty_conv)
  then show ?thesis using b Await_blocked[OF assms(4) b(2)] by auto
qed

end
