(* ===== verification/Auth_Middleware.thy ===== *)
theory Auth_Middleware
  imports Access_Control Session_Gate
begin

text \<open>
  Authentication of a request (\<^verbatim>\<open>server/middleware/auth.go\<close>, \<^verbatim>\<open>pkg/token/jwt.go\<close>).

  The middleware is a function of the request's headers, the key validator, the token service
  and the user gate; its result is the context the next handler runs with, or the status that is
  written. The key validator and the parsing of a signed token are arguments; the gate is the model
  of \<^verbatim>\<open>gate/gate.go\<close>.
\<close>

section \<open>Model\<close>

record Principal =
  AuthType :: string
  p_UserID :: "uint option"
  p_Username :: string
  APIKeyID :: "uint option"
  APIKeyName :: string
  APIKeyPrefix :: string
  p_Role :: string
  p_ServerIDs :: "uint list"
  p_Scopes :: "string list"
  p_Revision :: int

definition no_principal :: Principal where
  "no_principal = \<lparr>AuthType = [], p_UserID = None, p_Username = [], APIKeyID = None, APIKeyName = [],
     APIKeyPrefix = [], p_Role = [], p_ServerIDs = [], p_Scopes = [], p_Revision = 0\<rparr>"

record http_request =
  r_Method :: string
  r_Path :: string
  h_APIKey :: string
  h_Upgrade :: string
  h_Authorization :: string

datatype key_error = KeyUnavailable | KeyInvalid

datatype validator =
    IdentityValidator "string \<Rightarrow> Principal \<times> key_error option"
  | LegacyValidator "string \<Rightarrow> uint \<times> string \<times> string \<times> string list \<times> uint list \<times> key_error option"
  | NoValidator

record auth_ctx =
  ctx_claims :: "Claims option"
  ctx_principal :: "Principal option"

datatype auth_result = Next auth_ctx | Refused nat string

definition servers_prefix :: string where
  "servers_prefix = ''/api/v1/servers/''"

definition terminal_suffixes :: "string list" where
  "terminal_suffixes = [''/terminal'', ''/terminal/'']"

definition terminalPathPattern :: "string \<Rightarrow> bool" where
  "terminalPathPattern p \<longleftrightarrow> HasPrefix p servers_prefix \<and>
     (let rest = drop (length servers_prefix) p
      in takeWhile is_digit rest \<noteq> [] \<and> dropWhile is_digit rest \<in> set terminal_suffixes)"

definition isTerminalWebSocketHandshake :: "http_request \<Rightarrow> bool" where
  "isTerminalWebSocketHandshake r \<longleftrightarrow>
     r_Method r = ''GET'' \<and> h_Upgrade r = ''websocket'' \<and> terminalPathPattern (r_Path r)"

definition lower :: "char \<Rightarrow> char" where
  "lower c = (if of_char c \<ge> (65::nat) \<and> of_char c \<le> (90::nat) then char_of (of_char c + 32 :: nat) else c)"

definition EqualFold :: "string \<Rightarrow> string \<Rightarrow> bool" where
  "EqualFold s t \<longleftrightarrow> map lower s = map lower t"

definition extractBearerToken :: "http_request \<Rightarrow> string option" where
  "extractBearerToken r =
     (let h = h_Authorization r;
          scheme = takeWhile (\<lambda>c. c \<noteq> CHR '' '') h;
          rest = dropWhile (\<lambda>c. c \<noteq> CHR '' '') h
      in if h = [] then None
         else if rest = [] \<or> \<not> EqualFold scheme ''Bearer'' then None
         else let t = TrimSpace (tl rest) in if t = [] then None else Some t)"

definition validateAPIKeyIdentity :: "validator \<Rightarrow> string \<Rightarrow> Principal \<times> key_error option" where
  "validateAPIKeyIdentity v raw =
     (case v of
        IdentityValidator f \<Rightarrow> f raw
      | LegacyValidator f \<Rightarrow>
          (let (i, name, role, scopes, sids, err) = f raw
           in (no_principal\<lparr>AuthType := ''api_key'', APIKeyID := Some i, APIKeyName := name, p_Role := role,
                 p_Scopes := scopes, p_ServerIDs := sids\<rparr>, err))
      | NoValidator \<Rightarrow> (no_principal, Some KeyInvalid))"

definition PrincipalFromClaims :: "Claims option \<Rightarrow> Principal" where
  "PrincipalFromClaims claims =
     (case claims of
        None \<Rightarrow> no_principal\<lparr>AuthType := ''unauthenticated''\<rparr>
      | Some c \<Rightarrow> no_principal\<lparr>AuthType := ''jwt'', p_UserID := Some (c_UserID c), p_Username := c_Username c,
                    p_Role := c_Role c, p_ServerIDs := c_ServerIDs c\<rparr>)"

definition WithPrincipal :: "auth_ctx \<Rightarrow> Principal \<Rightarrow> auth_ctx" where
  "WithPrincipal c p = c\<lparr>ctx_principal := Some p\<rparr>"

definition WithUserClaims :: "auth_ctx \<Rightarrow> Claims \<Rightarrow> auth_ctx" where
  "WithUserClaims c cl = WithPrincipal (c\<lparr>ctx_claims := Some cl\<rparr>) (PrincipalFromClaims (Some cl))"

definition GetPrincipal :: "auth_ctx \<Rightarrow> Principal" where
  "GetPrincipal c = (case ctx_principal c of Some p \<Rightarrow> p | None \<Rightarrow> no_principal\<lparr>AuthType := ''unauthenticated''\<rparr>)"

definition GetUserClaims :: "auth_ctx \<Rightarrow> Claims option" where
  "GetUserClaims c = ctx_claims c"

definition auth_reason :: "nat \<Rightarrow> string" where
  "auth_reason st = (if st = 403 then ''forbidden'' else if st = 503 then ''unavailable'' else ''unauthorized'')"

datatype token_error = TokenRevoked

definition version_check :: "Claims \<Rightarrow> int \<Rightarrow> 'w \<Rightarrow> 'w \<times> token_error gate_error option" where
  "version_check cl v w = (w, if c_TokenVersion cl \<noteq> Some v then Some (Callback TokenRevoked) else None)"

definition key_claims :: "Principal \<Rightarrow> Claims" where
  "key_claims p = \<lparr>c_UserID = (case p_UserID p of Some u \<Rightarrow> u | None \<Rightarrow> 0), c_Username = p_Username p,
     c_Role = p_Role p, c_ServerIDs = p_ServerIDs p, c_TokenVersion = None\<rparr>"

definition auth_api_key :: "validator \<Rightarrow> auth_ctx \<Rightarrow> http_request \<Rightarrow> auth_result" where
  "auth_api_key kv c r =
     (case validateAPIKeyIdentity kv (h_APIKey r) of
        (p, Some KeyUnavailable) \<Rightarrow> Refused 503 ''api key permissions unavailable''
      | (p, Some KeyInvalid) \<Rightarrow> Refused 401 ''invalid api key''
      | (p, None) \<Rightarrow>
          (let p' = p\<lparr>AuthType := ''api_key''\<rparr>;
               c' = WithPrincipal (c\<lparr>ctx_claims := Some (key_claims p')\<rparr>) p';
               (allowed, required) = hasScope (r_Method r) (r_Path r) (p_Scopes p')
           in if \<not> allowed
              then Refused 403 (if required \<noteq> [] then ''insufficient scope: requires '' @ required
                                else ''api key not permitted on this endpoint'')
              else Next c'))"

definition auth_jwt :: "(string \<Rightarrow> Claims option) \<Rightarrow> gate option \<Rightarrow> admission \<Rightarrow> auth_ctx \<Rightarrow> http_request \<Rightarrow>
    gate option \<times> auth_result" where
  "auth_jwt jwtSvc G env c r =
     (case extractBearerToken r of
        None \<Rightarrow> (G, Refused 401 ''missing or invalid authorization header'')
      | Some t \<Rightarrow>
          (case jwtSvc t of
             None \<Rightarrow> (G, Refused 401 ''invalid or expired token'')
           | Some cl \<Rightarrow>
               (case G of
                  None \<Rightarrow> (G, Next (WithUserClaims c cl))
                | Some g \<Rightarrow>
                    (case Admit env g () (c_UserID cl) (version_check cl) of
                       (g', _, None) \<Rightarrow> (Some g', Next (WithUserClaims c cl))
                     | (g', _, Some (Callback TokenRevoked)) \<Rightarrow> (Some g', Refused 401 ''session revoked'')
                     | (g', _, Some _) \<Rightarrow> (Some g', Refused 503 ''session version unavailable'')))))"

definition Auth :: "(string \<Rightarrow> Claims option) \<Rightarrow> validator \<Rightarrow> gate option \<Rightarrow> admission \<Rightarrow> auth_ctx \<Rightarrow> http_request \<Rightarrow>
    gate option \<times> auth_result" where
  "Auth jwtSvc kv G env c r =
     (if h_APIKey r \<noteq> [] then (G, auth_api_key kv c r)
      else if isTerminalWebSocketHandshake r then (G, Next c)
      else auth_jwt jwtSvc G env c r)"

definition RequireAdminJWT :: "auth_ctx \<Rightarrow> auth_result" where
  "RequireAdminJWT c =
     (let p = GetPrincipal c
      in if AuthType p \<noteq> ''jwt'' \<or> p_Role p \<noteq> ''admin'' \<or> p_UserID p = None \<or> p_UserID p = Some 0
         then Refused 403 ''administrator login required'' else Next c)"

text \<open>The token service. \<open>sign\<close>, \<open>parse\<close> and \<open>numericDate\<close> are \<^verbatim>\<open>SignedString\<close>,
  \<^verbatim>\<open>ParseWithClaims\<close> (at the time of the call) and \<^verbatim>\<open>NewNumericDate\<close> of the JWT library; a parsed
  token carries whether its claims have the requested type and whether it is valid. A date that is absent
  from the claims is \<open>None\<close>.\<close>

datatype signing_method = HS256 | OtherHMAC nat | NotHMAC nat

record jwt_claims =
  ExpiresAt :: "time option"
  IssuedAt :: "time option"
  Issuer :: string
  payload :: Claims

record JWTService =
  secret :: bytes
  expiryTime :: duration

type_synonym signer = "signing_method \<Rightarrow> bytes \<Rightarrow> jwt_claims \<Rightarrow> string option"
type_synonym parser = "(signing_method \<Rightarrow> bytes option) \<Rightarrow> time \<Rightarrow> string \<Rightarrow> (jwt_claims option \<times> bool) option"

definition GenerateToken :: "(time \<Rightarrow> time) \<Rightarrow> signer \<Rightarrow> JWTService \<Rightarrow> time \<Rightarrow> uint \<Rightarrow> string \<Rightarrow> string \<Rightarrow> int \<Rightarrow> string option" where
  "GenerateToken numericDate sign s now uid name role tv =
     sign HS256 (secret s)
       \<lparr>ExpiresAt = Some (numericDate (Add now (expiryTime s))), IssuedAt = Some (numericDate now), Issuer = ''vpsmanager'',
        payload = \<lparr>c_UserID = uid, c_Username = name, c_Role = role, c_ServerIDs = [], c_TokenVersion = Some tv\<rparr>\<rparr>"

definition signing_key :: "JWTService \<Rightarrow> signing_method \<Rightarrow> bytes option" where
  "signing_key s m = (case m of NotHMAC _ \<Rightarrow> None | _ \<Rightarrow> Some (secret s))"

definition ValidateToken :: "parser \<Rightarrow> JWTService \<Rightarrow> time \<Rightarrow> string \<Rightarrow> jwt_claims option" where
  "ValidateToken parse s now t =
     (case parse (signing_key s) now t of
        None \<Rightarrow> None
      | Some (None, _) \<Rightarrow> None
      | Some (Some c, valid) \<Rightarrow> if valid then Some c else None)"

section \<open>Who gets through\<close>

lemma Admit_success:
  assumes "Admit env g w u fn = (g', w', None)"
  shows "\<exists>v. (if fenced g u then read_recovery env else read_version env) = Some v \<and> fn v w = (w', None)"
  by (cases rule: withUser_cases[OF assms[unfolded Admit_def]]) (auto split: prod.splits)

lemma auth_api_key_Next:
  "auth_api_key kv c r = Next c' \<longleftrightarrow>
   (\<exists>p. validateAPIKeyIdentity kv (h_APIKey r) = (p, None) \<and> fst (hasScope (r_Method r) (r_Path r) (p_Scopes p)) \<and>
      c' = \<lparr>ctx_claims = Some (key_claims p), ctx_principal = Some (p\<lparr>AuthType := ''api_key''\<rparr>)\<rparr>)"
  by (cases c) (auto simp: auth_api_key_def WithPrincipal_def key_claims_def Let_def split: prod.splits option.splits key_error.splits)

lemma auth_jwt_Next:
  assumes "auth_jwt jwtSvc G env c r = (G', Next c')"
  shows "\<exists>t cl. extractBearerToken r = Some t \<and> jwtSvc t = Some cl \<and> c' = WithUserClaims c cl \<and>
    (\<forall>g. G = Some g \<longrightarrow> (\<exists>v. (if fenced g (c_UserID cl) then read_recovery env else read_version env) = Some v \<and>
       c_TokenVersion cl = Some v))"
proof -
  from assms obtain t cl where t: "extractBearerToken r = Some t" "jwtSvc t = Some cl"
    by (auto simp: auth_jwt_def split: option.splits)
  show ?thesis
  proof (cases G)
    case None
    then show ?thesis using assms t by (auto simp: auth_jwt_def)
  next
    case (Some g)
    obtain g' x where ad: "Admit env g () (c_UserID cl) (version_check cl) = (g', (), x)"
      by (cases "Admit env g () (c_UserID cl) (version_check cl)") auto
    then have "x = None \<and> c' = WithUserClaims c cl" using assms t Some
      by (auto simp: auth_jwt_def split: option.splits gate_error.splits token_error.splits)
    then show ?thesis using Admit_success[of env g "()" "c_UserID cl" "version_check cl" g' "()"] ad t Some
      by (auto simp: version_check_def split: if_splits)
  qed
qed

lemma RequireAdmin_Next:
  "RequireAdminJWT c = Next c' \<longleftrightarrow> c' = c \<and> AuthType (GetPrincipal c) = ''jwt'' \<and> p_Role (GetPrincipal c) = ''admin'' \<and>
     (\<exists>u. p_UserID (GetPrincipal c) = Some u \<and> u \<noteq> 0)"
  by (auto simp: RequireAdminJWT_def Let_def)

text \<open>C8. A request reaches the next handler only as a key the validator accepted and whose
  scopes cover the normalized route, as the WebSocket handshake of the terminal route without any
  identity, or with a signed token whose version the gate has just established as current. Behind
  \<^verbatim>\<open>RequireAdminJWT\<close> only the last remains, for an administrator's token: a key never passes,
  whatever role its identity carries.\<close>

theorem auth_next_exact:
  assumes "Auth jwtSvc kv (Some g) env \<lparr>ctx_claims = None, ctx_principal = None\<rparr> r = (G', Next c)"
  shows "(if h_APIKey r \<noteq> [] then
      \<exists>p. validateAPIKeyIdentity kv (h_APIKey r) = (p, None) \<and> fst (hasScope (r_Method r) (r_Path r) (p_Scopes p)) \<and>
        GetPrincipal c = p\<lparr>AuthType := ''api_key''\<rparr>
    else if isTerminalWebSocketHandshake r then ctx_claims c = None \<and> AuthType (GetPrincipal c) = ''unauthenticated''
    else \<exists>t cl v. extractBearerToken r = Some t \<and> jwtSvc t = Some cl \<and> ctx_claims c = Some cl \<and>
        GetPrincipal c = PrincipalFromClaims (Some cl) \<and> c_TokenVersion cl = Some v \<and>
        (if fenced g (c_UserID cl) then read_recovery env else read_version env) = Some v) \<and>
    (RequireAdminJWT c = Next c' \<longrightarrow> h_APIKey r = [] \<and>
       (\<exists>t cl. extractBearerToken r = Some t \<and> jwtSvc t = Some cl \<and> c_Role cl = ''admin'' \<and> c_UserID cl \<noteq> 0))"
proof (cases "h_APIKey r \<noteq> []")
  case True
  then show ?thesis using assms by (auto simp: Auth_def auth_api_key_Next GetPrincipal_def RequireAdmin_Next)
next
  case nokey: False
  show ?thesis
  proof (cases "isTerminalWebSocketHandshake r")
    case True
    then show ?thesis using assms nokey by (auto simp: Auth_def GetPrincipal_def RequireAdmin_Next)
  next
    case False
    then have "auth_jwt jwtSvc (Some g) env \<lparr>ctx_claims = None, ctx_principal = None\<rparr> r = (G', Next c)"
      using assms nokey by (simp add: Auth_def)
    from auth_jwt_Next[OF this] obtain t cl v where j: "extractBearerToken r = Some t" "jwtSvc t = Some cl"
      "c = WithUserClaims \<lparr>ctx_claims = None, ctx_principal = None\<rparr> cl" "c_TokenVersion cl = Some v"
      "(if fenced g (c_UserID cl) then read_recovery env else read_version env) = Some v" by blast
    have "ctx_claims c = Some cl" "GetPrincipal c = PrincipalFromClaims (Some cl)"
      "RequireAdminJWT c = Next c' \<Longrightarrow> c_Role cl = ''admin'' \<and> c_UserID cl \<noteq> 0"
      using j(3) by (auto simp: GetPrincipal_def WithUserClaims_def WithPrincipal_def RequireAdmin_Next PrincipalFromClaims_def)
    then show ?thesis using nokey False j by auto
  qed
qed

definition demo_claims :: Claims where
  "demo_claims = \<lparr>c_UserID = 1, c_Username = ''root'', c_Role = ''admin'', c_ServerIDs = [], c_TokenVersion = Some 7\<rparr>"

definition demo_request :: http_request where
  "demo_request = \<lparr>r_Method = ''GET'', r_Path = ''/api/v1/settings'', h_APIKey = [], h_Upgrade = [],
     h_Authorization = ''bearer tok''\<rparr>"

definition demo_jwt :: "string \<Rightarrow> Claims option" where
  "demo_jwt t = (if t = ''tok'' then Some demo_claims else None)"

lemma demo_auth:
  "Auth demo_jwt NoValidator (Some []) (gate_env None (Some 7)) \<lparr>ctx_claims = None, ctx_principal = None\<rparr> demo_request =
    (Some [(1, \<lparr>initialized = True, pending = False\<rparr>)],
     Next \<lparr>ctx_claims = Some demo_claims, ctx_principal = Some (PrincipalFromClaims (Some demo_claims))\<rparr>)"
  by code_simp

theorem auth_next_exact_witness:
  "RequireAdminJWT \<lparr>ctx_claims = Some demo_claims, ctx_principal = Some (PrincipalFromClaims (Some demo_claims))\<rparr> =
     Next \<lparr>ctx_claims = Some demo_claims, ctx_principal = Some (PrincipalFromClaims (Some demo_claims))\<rparr> \<and>
   (\<exists>t cl. extractBearerToken demo_request = Some t \<and> demo_jwt t = Some cl \<and> c_Role cl = ''admin'' \<and> c_UserID cl \<noteq> 0)"
proof -
  have adm: "RequireAdminJWT \<lparr>ctx_claims = Some demo_claims, ctx_principal = Some (PrincipalFromClaims (Some demo_claims))\<rparr> =
     Next \<lparr>ctx_claims = Some demo_claims, ctx_principal = Some (PrincipalFromClaims (Some demo_claims))\<rparr>" by code_simp
  then show ?thesis using auth_next_exact[OF demo_auth] by blast
qed

text \<open>C25. Every refusal has its own status: 503 exactly when the key validator or the gate could
  not establish the current permissions or session version, 403 exactly for an accepted key whose
  scopes do not cover the route, 401 otherwise; and a refused request leaves the fence of every
  other user alone.\<close>

theorem auth_refusal_status:
  assumes "Auth jwtSvc kv (Some g) env c r = (G', Refused st msg)"
  shows "st \<in> {401, 403, 503} \<and>
    (st = 403 \<longleftrightarrow> h_APIKey r \<noteq> [] \<and> (\<exists>p. validateAPIKeyIdentity kv (h_APIKey r) = (p, None) \<and>
        \<not> fst (hasScope (r_Method r) (r_Path r) (p_Scopes p)))) \<and>
    (st = 503 \<longleftrightarrow> (if h_APIKey r \<noteq> [] then snd (validateAPIKeyIdentity kv (h_APIKey r)) = Some KeyUnavailable
        else \<exists>t cl e. extractBearerToken r = Some t \<and> jwtSvc t = Some cl \<and>
          snd (snd (Admit env g () (c_UserID cl) (version_check cl))) = Some e \<and> e \<noteq> Callback TokenRevoked)) \<and>
    (\<exists>g'. G' = Some g' \<and> (\<forall>u. (\<forall>t cl. extractBearerToken r = Some t \<and> jwtSvc t = Some cl \<longrightarrow> u \<noteq> c_UserID cl) \<longrightarrow>
       fenced g' u = fenced g u))"
proof (cases "h_APIKey r \<noteq> []")
  case True
  then show ?thesis using assms
    by (auto simp: Auth_def auth_api_key_def Let_def split: prod.splits option.splits key_error.splits if_splits)
next
  case False
  then have j: "auth_jwt jwtSvc (Some g) env c r = (G', Refused st msg)"
    using assms by (auto simp: Auth_def split: if_splits)
  show ?thesis
  proof (cases "\<exists>t cl. extractBearerToken r = Some t \<and> jwtSvc t = Some cl")
    case True
    then obtain t cl where t: "extractBearerToken r = Some t" "jwtSvc t = Some cl" by blast
    obtain g' x where ad: "Admit env g () (c_UserID cl) (version_check cl) = (g', (), x)"
      by (cases "Admit env g () (c_UserID cl) (version_check cl)") auto
    have "fenced g' u = fenced g u" if "u \<noteq> c_UserID cl" for u
      using withUser_other[OF ad[unfolded Admit_def] that] .
    then show ?thesis using j t ad False
      by (auto simp: auth_jwt_def split: option.splits gate_error.splits token_error.splits)
  next
    case none: False
    then have "G' = Some g \<and> st = 401" using j by (auto simp: auth_jwt_def split: option.splits)
    then show ?thesis using none False by auto
  qed
qed

theorem auth_refusal_status_witness:
  "Auth demo_jwt NoValidator (Some []) (gate_env None None) \<lparr>ctx_claims = None, ctx_principal = None\<rparr> demo_request =
     (Some [(1, \<lparr>initialized = False, pending = False\<rparr>)], Refused 503 ''session version unavailable'') \<and>
   (\<exists>t cl e. extractBearerToken demo_request = Some t \<and> demo_jwt t = Some cl \<and>
      snd (snd (Admit (gate_env None None) [] () (c_UserID cl) (version_check cl))) = Some e \<and> e \<noteq> Callback TokenRevoked)"
proof -
  have r: "Auth demo_jwt NoValidator (Some []) (gate_env None None) \<lparr>ctx_claims = None, ctx_principal = None\<rparr> demo_request =
     (Some [(1, \<lparr>initialized = False, pending = False\<rparr>)], Refused 503 ''session version unavailable'')" by code_simp
  have "h_APIKey demo_request = []" by (simp add: demo_request_def)
  then show ?thesis using auth_refusal_status[OF r] r by auto
qed

text \<open>C16. In every reachable state of the gate beside the database, a bearer token that passes the
  middleware carries exactly the committed session version of its user, and no password change of
  that user is unresolved.\<close>

theorem jwt_session_current:
  assumes "reach gate_init gate_step S" and "\<forall>t cl. extractBearerToken r = Some t \<and> jwtSvc t = Some cl \<longrightarrow> sources_ok S (c_UserID cl) env"
    and "Auth jwtSvc kv (Some (gt S)) env c r = (G', Next c')"
    and "h_APIKey r = []" and "\<not> isTerminalWebSocketHandshake r"
  shows "\<exists>t cl. extractBearerToken r = Some t \<and> jwtSvc t = Some cl \<and> ctx_claims c' = Some cl \<and>
    c_TokenVersion cl = Some (committed S (c_UserID cl)) \<and> open_commit S (c_UserID cl) = None"
proof -
  have inv: "gate_inv S" using gates.reach_inv[OF assms(1)] .
  have "auth_jwt jwtSvc (Some (gt S)) env c r = (G', Next c')" using assms(3-5) by (simp add: Auth_def)
  from auth_jwt_Next[OF this] obtain t cl v where j: "extractBearerToken r = Some t" "jwtSvc t = Some cl"
    "c' = WithUserClaims c cl" "c_TokenVersion cl = Some v"
    "(if fenced (gt S) (c_UserID cl) then read_recovery env else read_version env) = Some v" by blast
  have src: "sources_ok S (c_UserID cl) env" using assms(2) j(1,2) by blast
  have "v = committed S (c_UserID cl) \<and> open_commit S (c_UserID cl) = None"
    using j(5) src inv unfolding sources_ok_def gate_inv_def by (metis option.distinct(1))
  then show ?thesis using j by (auto simp: WithUserClaims_def WithPrincipal_def)
qed

theorem jwt_session_current_witness:
  "\<exists>t cl. extractBearerToken demo_request = Some t \<and> demo_jwt t = Some cl \<and>
    c_TokenVersion cl = Some (committed gate_example (c_UserID cl)) \<and> open_commit gate_example (c_UserID cl) = None"
proof -
  have r: "reach gate_init gate_step gate_example"
    by (rule reach_init) (simp add: gate_init_def gate_example_def)
  have src: "\<forall>t cl. extractBearerToken demo_request = Some t \<and> demo_jwt t = Some cl \<longrightarrow>
      sources_ok gate_example (c_UserID cl) (gate_env None (Some 7))"
    by (simp add: sources_ok_def gate_env_def gate_example_def)
  have g: "gt gate_example = []" by (simp add: gate_example_def)
  show ?thesis
    using jwt_session_current[OF r src, unfolded g, OF demo_auth]
    by (auto simp: demo_request_def isTerminalWebSocketHandshake_def)
qed

end
