(* ===== verification/Account_Service.thy ===== *)
theory Account_Service
  imports Transactions Auth_Middleware
begin

text \<open>
  Accounts: first-administrator bootstrap, login and password change (\<^verbatim>\<open>service/auth.go\<close>,
  \<^verbatim>\<open>repository/user.go\<close>).

  The user table is a map from ids to rows; \<open>unresolved\<close> holds the row a password transaction with an
  unknown outcome may still install. Its row lock is the reason a locking read or another password
  transaction of that user does not answer until it is resolved. Hash and password functions are
  arguments; statement errors come from \<open>tx_env\<close>.
\<close>

section \<open>Users\<close>

record User =
  u_ID :: uint
  u_Username :: string
  u_PasswordHash :: string
  u_Role :: string
  u_TokenVersion :: int

record accounts =
  users :: "(uint, User) gomap"
  unresolved :: "(uint, User) gomap"

definition FindByUsername :: "accounts \<Rightarrow> string \<Rightarrow> User option" where
  "FindByUsername db name = List.find (\<lambda>u. u_Username u = name) (map snd (users db))"

definition FindByID :: "accounts \<Rightarrow> uint \<Rightarrow> User option" where
  "FindByID db i = mget (users db) i"

definition CountUsers :: "accounts \<Rightarrow> nat" where
  "CountUsers db = length (users db)"

definition TokenVersion :: "accounts \<Rightarrow> uint \<Rightarrow> int option" where
  "TokenVersion db i = map_option u_TokenVersion (mget (users db) i)"

definition LockedTokenVersion :: "accounts \<Rightarrow> uint \<Rightarrow> int option" where
  "LockedTokenVersion db i = (if mget (unresolved db) i = None then TokenVersion db i else None)"

datatype acct_error = DbFailed db_failure | RecordNotFound | WrongCurrentPassword | CommitUnknown

definition repo_ChangePassword ::
  "tx_env \<Rightarrow> (string \<Rightarrow> bool) \<Rightarrow> string \<Rightarrow> uint \<Rightarrow> accounts \<Rightarrow> accounts \<times> (acct_error + int)" where
  "repo_ChangePassword tx verify newHash i db =
     (case begin_err tx of Some e \<Rightarrow> (db, Inl (DbFailed e)) | None \<Rightarrow>
      case read_err tx of Some e \<Rightarrow> (db, Inl (DbFailed e)) | None \<Rightarrow>
      case mget (users db) i of
        None \<Rightarrow> (db, Inl RecordNotFound)
      | Some user \<Rightarrow>
          if \<not> verify (u_PasswordHash user) then (db, Inl WrongCurrentPassword)
          else case write_err tx of Some e \<Rightarrow> (db, Inl (DbFailed e)) | None \<Rightarrow>
            (let row = user\<lparr>u_PasswordHash := newHash, u_TokenVersion := u_TokenVersion user + 1\<rparr>
             in case commit_err tx of
                  Some e \<Rightarrow> if commitDefinitelyRolledBack e then (db, Inl (DbFailed DbErr))
                            else (db\<lparr>unresolved := mput i row (unresolved db)\<rparr>, Inl CommitUnknown)
                | None \<Rightarrow> (db\<lparr>users := mput i row (users db)\<rparr>, Inr (u_TokenVersion user + 1))))"

section \<open>Bootstrap and login\<close>

definition SetBootstrapToken :: "(string \<Rightarrow> bytes) \<Rightarrow> string \<Rightarrow> bytes option" where
  "SetBootstrapToken sha v = (if 32 \<le> length v \<and> length v \<le> 256 then Some (sha v) else None)"

definition BootstrapEnabled :: "bytes option \<Rightarrow> bool" where
  "BootstrapEnabled h \<longleftrightarrow> h \<noteq> None"

definition VerifyBootstrapProof :: "(string \<Rightarrow> bytes) \<Rightarrow> bytes option \<Rightarrow> string \<Rightarrow> bool" where
  "VerifyBootstrapProof sha h proof =
     (if length proof < 32 \<or> 256 < length proof \<or> \<not> BootstrapEnabled h then False
      else sha proof = the h)"

text \<open>The error of the counting statement, if any, is an argument of the operations that count.\<close>

definition NeedsSetup :: "db_failure option \<Rightarrow> accounts \<Rightarrow> db_failure + bool" where
  "NeedsSetup count_err db = (case count_err of Some e \<Rightarrow> Inl e | None \<Rightarrow> Inr (CountUsers db = 0))"

text \<open>\<^verbatim>\<open>Login\<close>: \<open>check h p\<close> is the password comparison, \<open>issue\<close> the token service, \<open>find_err\<close> an
  error of the lookup other than a missing row.\<close>

datatype login_result = Token string | InvalidCredentials | LoginDb db_failure | IssueFailed

definition authenticateExisting ::
  "(string \<Rightarrow> string \<Rightarrow> bool) \<Rightarrow> (User \<Rightarrow> string option) \<Rightarrow> db_failure option \<Rightarrow> accounts \<Rightarrow> string \<Rightarrow> string \<Rightarrow> login_result" where
  "authenticateExisting check issue find_err db name pw =
     (case find_err of Some e \<Rightarrow> LoginDb e | None \<Rightarrow>
      case FindByUsername db name of
        None \<Rightarrow> InvalidCredentials
      | Some u \<Rightarrow> if \<not> check (u_PasswordHash u) pw then InvalidCredentials
                  else case issue u of None \<Rightarrow> IssueFailed | Some t \<Rightarrow> Token t)"

text \<open>Bootstrap: the count before the transaction and the transaction under the database-wide
  advisory lock are two steps; \<open>new_id\<close> is the id the database assigns. A failed \<^verbatim>\<open>COMMIT\<close> is an
  error to the caller whether or not the transaction took effect (\<open>took\<close>).\<close>

datatype boot_error = BootForbidden | BootConflict | BootDb | BootInternal | BootIssue

definition boot_precheck ::
  "(string \<Rightarrow> bytes) \<Rightarrow> bytes option \<Rightarrow> string \<Rightarrow> db_failure option \<Rightarrow> accounts \<Rightarrow> boot_error option" where
  "boot_precheck sha h proof count_err db =
     (if \<not> VerifyBootstrapProof sha h proof then Some BootForbidden
      else if count_err \<noteq> None then Some BootDb
      else if CountUsers db \<noteq> 0 then Some BootConflict else None)"

definition first_user_tx :: "tx_env \<Rightarrow> bool \<Rightarrow> uint \<Rightarrow> string \<Rightarrow> string \<Rightarrow> accounts \<Rightarrow> accounts \<times> (boot_error + User)" where
  "first_user_tx tx took new_id name hash db =
     (if begin_err tx \<noteq> None \<or> read_err tx \<noteq> None then (db, Inl BootDb)
      else if 0 < CountUsers db then (db, Inl BootConflict)
      else if write_err tx \<noteq> None then (db, Inl BootDb)
      else let u = \<lparr>u_ID = new_id, u_Username = name, u_PasswordHash = hash, u_Role = ''admin'', u_TokenVersion = 0\<rparr>;
               db' = db\<lparr>users := mput new_id u (users db)\<rparr>
           in if commit_err tx \<noteq> None then (if took then db' else db, Inl BootDb) else (db', Inr u))"

text \<open>What a setup request relies on beside the database: the password hash, the token service and
  whether an owner backfill is wired. The second result of \<open>createFirstUser\<close> says that the backfill
  was triggered.\<close>

record boot_env =
  bcrypt_hash :: "string \<Rightarrow> string option"
  issue_token :: "User \<Rightarrow> string option"
  backfill_wired :: bool

definition createFirstUser ::
  "boot_env \<Rightarrow> tx_env \<Rightarrow> bool \<Rightarrow> uint \<Rightarrow> string \<Rightarrow> string \<Rightarrow> accounts \<Rightarrow> accounts \<times> bool \<times> (boot_error + string)" where
  "createFirstUser env tx took new_id name pw db =
     (case bcrypt_hash env pw of
        None \<Rightarrow> (db, False, Inl BootInternal)
      | Some hash \<Rightarrow>
          (case first_user_tx tx took new_id name hash db of
             (db', Inl e) \<Rightarrow> (db', False, Inl e)
           | (db', Inr u) \<Rightarrow>
               (db', backfill_wired env, case issue_token env u of None \<Rightarrow> Inl BootIssue | Some t \<Rightarrow> Inr t)))"

text \<open>\<^verbatim>\<open>Bootstrap\<close> counts in the table as it is when the request arrives, and creates in the table as it
  is when the lock is granted.\<close>

definition Bootstrap ::
  "(string \<Rightarrow> bytes) \<Rightarrow> bytes option \<Rightarrow> string \<Rightarrow> db_failure option \<Rightarrow> accounts \<Rightarrow>
   boot_env \<Rightarrow> tx_env \<Rightarrow> bool \<Rightarrow> uint \<Rightarrow> string \<Rightarrow> string \<Rightarrow> accounts \<Rightarrow> accounts \<times> bool \<times> (boot_error + string)" where
  "Bootstrap sha h proof count_err counted env tx took new_id name pw db =
     (case boot_precheck sha h proof count_err counted of
        Some e \<Rightarrow> (db, False, Inl e)
      | None \<Rightarrow> createFirstUser env tx took new_id name pw db)"

section \<open>Password change\<close>

datatype change_result = ChangeOk | ChangeInternal | ChangeUnavailable string | ChangeFailed "acct_error gate_error"

definition commit_unknown_state :: string where
  "commit_unknown_state = ''password_commit_unknown''"

definition cleanup_incomplete_state :: string where
  "cleanup_incomplete_state = ''terminal_cleanup_incomplete''"

text \<open>The callback under the user's lock: the transaction, then the revocation of the user's
  terminals when the transaction committed or may have.\<close>

type_synonym acct_world = "accounts \<times> Registry option \<times> uint list"

definition change_fn :: "tx_env \<Rightarrow> (string \<Rightarrow> bool) \<Rightarrow> string \<Rightarrow> uint \<Rightarrow> time \<Rightarrow> (acct_world, acct_error) gate_fn" where
  "change_fn tx verify hash i now _ w =
     (case w of (db, R, revoked) \<Rightarrow>
       (let (db', res) = repo_ChangePassword tx verify hash i db;
            unknown = (res = Inl CommitUnknown);
            (R', revoked') = (case R of
               Some r \<Rightarrow> if unknown \<or> \<not> isl res then (let (r', hit) = MarkRevoked r i now in (Some r', hit)) else (R, revoked)
             | None \<Rightarrow> (R, revoked))
        in ((db', R', revoked'), unknown, (case res of Inl e \<Rightarrow> Some (Callback e) | Inr _ \<Rightarrow> None))))"

text \<open>The request: \<open>env\<close> and \<open>renv\<close> are what the gate's sources answer for the update and for the
  reconciliation, \<open>t\<close> and \<open>done_at\<close> describe the wait for the revoked terminals. The reconciliation
  runs beside the wait; it only touches the gate.\<close>

definition recover_if :: "bool \<Rightarrow> admission \<Rightarrow> gate \<Rightarrow> uint \<Rightarrow> gate" where
  "recover_if unknown renv g i = (if unknown then fst (Recover renv g () i :: gate \<times> unit \<times> acct_error gate_error option) else g)"

definition await_revoked :: "time \<Rightarrow> (uint \<Rightarrow> time option) \<Rightarrow> Registry option \<Rightarrow> uint list \<Rightarrow> Registry option \<times> bool" where
  "await_revoked t done_at R revoked =
     (case R of
        Some r \<Rightarrow> if revoked \<noteq> [] then (let (r', c) = Await r t done_at revoked in (Some r', \<not> Complete c)) else (R, False)
      | None \<Rightarrow> (R, False))"

definition ChangePassword ::
  "(string \<Rightarrow> string option) \<Rightarrow> (string \<Rightarrow> string \<Rightarrow> bool) \<Rightarrow> admission \<Rightarrow> tx_env \<Rightarrow> admission \<Rightarrow> time \<Rightarrow> time \<Rightarrow>
   (uint \<Rightarrow> time option) \<Rightarrow> gate \<Rightarrow> accounts \<Rightarrow> Registry option \<Rightarrow> uint \<Rightarrow> string \<Rightarrow> string \<Rightarrow>
   gate \<times> accounts \<times> Registry option \<times> change_result" where
  "ChangePassword bcrypt check env tx renv now t done_at g db R i cur new =
     (case bcrypt new of
        None \<Rightarrow> (g, db, R, ChangeInternal)
      | Some hash \<Rightarrow>
          (let (g1, (db1, R1, revoked), changeErr) =
                 Update env g (db, R, []) i (change_fn tx (\<lambda>h. check h cur) hash i now);
               unknown = (changeErr = Some (Callback CommitUnknown));
               (R2, cleanupErr) = await_revoked t done_at R1 revoked;
               g2 = recover_if unknown renv g1 i
           in (g2, db1, R2,
               if unknown then ChangeUnavailable commit_unknown_state
               else if cleanupErr then ChangeUnavailable cleanup_incomplete_state
               else case changeErr of
                      None \<Rightarrow> ChangeOk
                    | Some e \<Rightarrow> if e \<in> set [ErrUnavailable, CtxErr, Callback (DbFailed DbCtx)]
                                then ChangeUnavailable [] else ChangeFailed e)))"

section \<open>The outcome of a password change\<close>

definition password_row :: "string \<Rightarrow> User \<Rightarrow> User" where
  "password_row hash u = u\<lparr>u_PasswordHash := hash, u_TokenVersion := u_TokenVersion u + 1\<rparr>"

lemma repo_ChangePassword_cases:
  assumes "repo_ChangePassword tx verify hash i db = (db', res)"
  shows "(case res of
      Inr v \<Rightarrow> \<exists>u. mget (users db) i = Some u \<and> verify (u_PasswordHash u) \<and> v = u_TokenVersion u + 1 \<and>
        db' = db\<lparr>users := mput i (password_row hash u) (users db)\<rparr>
    | Inl CommitUnknown \<Rightarrow> \<exists>u. mget (users db) i = Some u \<and> verify (u_PasswordHash u) \<and>
        db' = db\<lparr>unresolved := mput i (password_row hash u) (unresolved db)\<rparr>
    | Inl e \<Rightarrow> db' = db) \<and> (isl res \<or> read_err tx = None) \<and> (res = Inl CommitUnknown \<longrightarrow> read_err tx = None)"
  using assms
  by (auto simp: repo_ChangePassword_def password_row_def Let_def split: option.splits if_splits)

lemma change_fn_cases:
  assumes "change_fn tx verify hash i now v (db, Some r, []) = ((db', R', hit), unc, e)"
  shows "(\<exists>u r'. e = None \<and> \<not> unc \<and> mget (users db) i = Some u \<and> verify (u_PasswordHash u) \<and>
       db' = db\<lparr>users := mput i (password_row hash u) (users db)\<rparr> \<and> MarkRevoked r i now = (r', hit) \<and> R' = Some r') \<or>
    (\<exists>u r'. e = Some (Callback CommitUnknown) \<and> unc \<and> mget (users db) i = Some u \<and>
       db' = db\<lparr>unresolved := mput i (password_row hash u) (unresolved db)\<rparr> \<and> MarkRevoked r i now = (r', hit) \<and> R' = Some r') \<or>
    (\<exists>x. e = Some (Callback x) \<and> x \<noteq> CommitUnknown \<and> \<not> unc \<and> db' = db \<and> R' = Some r \<and> hit = [])"
proof -
  obtain d res where rc: "repo_ChangePassword tx verify hash i db = (d, res)"
    by (cases "repo_ChangePassword tx verify hash i db")
  note C = repo_ChangePassword_cases[OF rc]
  show ?thesis
  proof (cases res)
    case (Inl x)
    then show ?thesis using assms C rc
      by (cases x) (auto simp: change_fn_def Let_def split: prod.splits)
  next
    case (Inr x)
    then show ?thesis using assms C rc
      by (auto simp: change_fn_def Let_def split: prod.splits)
  qed
qed

definition own_sessions :: "Registry \<Rightarrow> uint \<Rightarrow> uint list" where
  "own_sessions r i = filter (\<lambda>j. case mget (heap r) j of None \<Rightarrow> False | Some s \<Rightarrow> s_UserID s = i) (live r)"

lemma await_hits:
  assumes "reg_inv (now, r)" "now \<le> t" "MarkRevoked r i now = (r1, hit)"
    and "(if hit \<noteq> [] then (let (r', c) = Await r1 t da hit in (Some r', \<not> Complete c)) else (Some r1, False)) = (R2, bad)"
  shows "\<exists>r2. R2 = Some r2 \<and> (\<forall>j\<in>set (own_sessions r i). sess_pred blocked j r2 \<and> (\<not> bad \<longrightarrow> j \<notin> set (live r2)))"
proof (cases "hit = []")
  case True
  then have "own_sessions r i = []"
    using MarkRevoked_blocks[OF assms(3)] by (auto simp: own_sessions_def filter_empty_conv split: option.splits)
  then show ?thesis using True assms(4) by auto
next
  case False
  then obtain r2 c where aw: "Await r1 t da hit = (r2, c)" "R2 = Some r2" "bad = (\<not> Complete c)"
    using assms(4) by (auto split: prod.splits)
  then show ?thesis using revoke_then_await[OF assms(1,3,2) aw(1)]
    by (auto simp: own_sessions_def split: option.splits)
qed

lemma recover_keeps_fence:
  assumes "fenced g i" "read_recovery renv = None"
  shows "fenced (recover_if True renv g i) i"
proof -
  obtain g' e where rec: "(Recover renv g () i :: gate \<times> unit \<times> acct_error gate_error option) = (g', (), e)"
    by (cases "Recover renv g () i :: gate \<times> unit \<times> acct_error gate_error option") auto
  then have "fenced g' i"
    using assms by (cases rule: withUser_cases[OF rec[unfolded Recover_def Admit_def]]) auto
  then show ?thesis using rec by (simp add: recover_if_def)
qed

text \<open>C20. A password change answers what happened. Success means the row carries the new hash and
  the next session version, and every terminal the user had is revoked and gone. An unknown commit is
  reported as such: the row may still change, the terminals are revoked, and the gate stays fenced until
  a locking read has answered. An incomplete cleanup is reported only after a committed change with all
  terminals revoked. Every other answer means that neither the row nor the terminals were touched.\<close>

theorem change_password_outcome:
  assumes "ChangePassword bcrypt check env tx renv now t da g db (Some r) i cur new = (g', db', R', res)"
    and "reach reg_init reg_step (now, r)" and "now \<le> t"
  shows "\<exists>r'. R' = Some r' \<and>
    (if res = ChangeOk \<or> res = ChangeUnavailable cleanup_incomplete_state then
       (\<exists>u h. mget (users db) i = Some u \<and> check (u_PasswordHash u) cur \<and> bcrypt new = Some h \<and>
          db' = db\<lparr>users := mput i (password_row h u) (users db)\<rparr>) \<and>
       (\<forall>j\<in>set (own_sessions r i). sess_pred blocked j r' \<and> (res = ChangeOk \<longrightarrow> j \<notin> set (live r')))
     else if res = ChangeUnavailable commit_unknown_state then
       (\<exists>u h. mget (users db) i = Some u \<and> bcrypt new = Some h \<and>
          db' = db\<lparr>unresolved := mput i (password_row h u) (unresolved db)\<rparr>) \<and>
       (\<forall>j\<in>set (own_sessions r i). sess_pred blocked j r') \<and> (fenced g' i \<or> read_recovery renv \<noteq> None)
     else db' = db \<and> r' = r)"
proof -
  have states: "commit_unknown_state \<noteq> cleanup_incomplete_state" "commit_unknown_state \<noteq> []" "cleanup_incomplete_state \<noteq> []"
    by (simp_all add: commit_unknown_state_def cleanup_incomplete_state_def)
  show ?thesis
  proof (cases "bcrypt new")
    case None
    then show ?thesis using assms(1) by (simp add: ChangePassword_def)
  next
    case (Some h)
    obtain g1 db1 R1 hit e where U:
      "Update env g (db, Some r, []) i (change_fn tx (\<lambda>h. check h cur) h i now) = (g1, (db1, R1, hit), e)"
      by (cases "Update env g (db, Some r, []) i (change_fn tx (\<lambda>h. check h cur) h i now)") auto
    define W where "W = await_revoked t da R1 hit"
    let ?unk = "e = Some (Callback CommitUnknown)"
    have res: "g' = recover_if ?unk renv g1 i" "db' = db1" "R' = fst W"
      "res = (if ?unk then ChangeUnavailable commit_unknown_state
              else if snd W then ChangeUnavailable cleanup_incomplete_state
              else case e of None \<Rightarrow> ChangeOk
                | Some x \<Rightarrow> if x \<in> set [ErrUnavailable, CtxErr, Callback (DbFailed DbCtx)]
                            then ChangeUnavailable [] else ChangeFailed x)"
      using assms(1) Some U by (auto simp: ChangePassword_def W_def Let_def split_beta simp del: list.set split del: if_split cong del: if_weak_cong)
    have inv: "reg_inv (now, r)" using regs.reach_inv[OF assms(2)] .
    have hits: "\<exists>r2. fst W = Some r2 \<and> (\<forall>j\<in>set (own_sessions r i). sess_pred blocked j r2 \<and> (\<not> snd W \<longrightarrow> j \<notin> set (live r2)))"
      if "MarkRevoked r i now = (r1, hit)" "R1 = Some r1" for r1
      using await_hits[OF inv assms(3) that(1), of da "fst W" "snd W"] that(2) by (simp add: W_def await_revoked_def)
    from withUser_outcome[OF U[unfolded Update_def]] consider
        (refused) "db1 = db" "R1 = Some r" "hit = []" "e = Some ErrUnavailable \<or> e = Some CtxErr"
      | (ran) v unc where "change_fn tx (\<lambda>h. check h cur) h i now v (db, Some r, []) = ((db1, R1, hit), unc, e)" "fenced g1 i = unc"
      by auto
    then show ?thesis
    proof cases
      case refused
      then show ?thesis using res states by (auto simp: W_def await_revoked_def)
    next
      case ran
      from change_fn_cases[OF ran(1)] show ?thesis
      proof (elim disjE exE conjE)
        fix u r1
        assume e: "e = None" and u: "mget (users db) i = Some u" "check (u_PasswordHash u) cur"
          "db1 = db\<lparr>users := mput i (password_row h u) (users db)\<rparr>" and m: "MarkRevoked r i now = (r1, hit)" "R1 = Some r1"
        then show ?thesis using res states hits[OF m] Some by auto
      next
        fix u r1
        assume e: "e = Some (Callback CommitUnknown)" "unc" and u: "mget (users db) i = Some u"
          "db1 = db\<lparr>unresolved := mput i (password_row h u) (unresolved db)\<rparr>" and m: "MarkRevoked r i now = (r1, hit)" "R1 = Some r1"
        have "fenced g' i \<or> read_recovery renv \<noteq> None"
          using recover_keeps_fence[of g1 i renv] ran(2) e res(1) by auto
        then show ?thesis using res states hits[OF m] Some u e by auto
      next
        fix x
        assume "e = Some (Callback x)" "x \<noteq> CommitUnknown" "db1 = db" "R1 = Some r" "hit = []"
        then show ?thesis using res states by (auto simp: W_def await_revoked_def)
      qed
    qed
  qed
qed

definition demo_user :: User where
  "demo_user = \<lparr>u_ID = 5, u_Username = ''root'', u_PasswordHash = ''old'', u_Role = ''admin'', u_TokenVersion = 7\<rparr>"

definition demo_db :: accounts where
  "demo_db = \<lparr>users = [(5, demo_user)], unresolved = []\<rparr>"

definition demo_change :: "commit_error option \<Rightarrow> gate \<times> accounts \<times> Registry option \<times> change_result" where
  "demo_change ce = ChangePassword Some (=) (gate_env None (Some 7)) (clean_tx\<lparr>commit_err := ce\<rparr>) (gate_env None None) 10 20
     (\<lambda>_. Some 15) [] demo_db (Some reg_example) 5 ''old'' ''new''"

lemma demo_change_results: "snd (snd (snd (demo_change None))) = ChangeOk"
    "snd (snd (snd (demo_change (Some TransportError)))) = ChangeUnavailable commit_unknown_state"
  by code_simp+

theorem change_password_outcome_witness:
  "(\<exists>r'. fst (snd (snd (demo_change None))) = Some r' \<and> sess_pred blocked 1 r' \<and> 1 \<notin> set (live r')) \<and>
   fenced (fst (demo_change (Some TransportError))) 5"
proof -
  have own: "1 \<in> set (own_sessions reg_example 5)" by code_simp
  obtain g' db' R' res where d: "demo_change None = (g', db', R', res)" by (cases "demo_change None")
  obtain g2 db2 R2 res2 where d2: "demo_change (Some TransportError) = (g2, db2, R2, res2)"
    by (cases "demo_change (Some TransportError)")
  have r: "res = ChangeOk" "res2 = ChangeUnavailable commit_unknown_state"
    using demo_change_results d d2 by simp_all
  have s: "commit_unknown_state \<noteq> cleanup_incomplete_state"
    by (simp add: commit_unknown_state_def cleanup_incomplete_state_def)
  have n: "read_recovery (gate_env None None) = None" by (simp add: gate_env_def)
  show ?thesis
    using change_password_outcome[OF d[unfolded demo_change_def] reg_example_reach] own
      change_password_outcome[OF d2[unfolded demo_change_def] reg_example_reach] s n
    unfolding d d2 r by auto
qed

section \<open>Accounts beside the gate\<close>

text \<open>The gate's sources are the repository reads; a transaction does not get its row while another
  one of that user is unresolved.\<close>

definition db_answers :: "accounts \<Rightarrow> uint \<Rightarrow> admission \<Rightarrow> bool" where
  "db_answers db i env \<longleftrightarrow> (read_version env = None \<or> read_version env = TokenVersion db i) \<and>
     (read_recovery env = None \<or> read_recovery env = LockedTokenVersion db i)"

definition tx_answers :: "accounts \<Rightarrow> uint \<Rightarrow> tx_env \<Rightarrow> bool" where
  "tx_answers db i tx \<longleftrightarrow> mget (unresolved db) i \<noteq> None \<longrightarrow> read_err tx \<noteq> None"

inductive acct_step :: "gate \<times> accounts \<Rightarrow> gate \<times> accounts \<Rightarrow> bool" where
  acct_admit: "db_answers db (c_UserID cl) env \<Longrightarrow> Admit env g () (c_UserID cl) (version_check cl) = (g', (), e) \<Longrightarrow>
    acct_step (g, db) (g', db)"
| acct_change: "db_answers db i env \<Longrightarrow> tx_answers db i tx \<Longrightarrow>
    Update env g (db, R, []) i (change_fn tx verify hash i now) = (g', (db', R', hit), e) \<Longrightarrow> acct_step (g, db) (g', db')"
| acct_recover: "db_answers db i env \<Longrightarrow>
    (Recover env g () i :: gate \<times> unit \<times> acct_error gate_error option) = (g', (), e) \<Longrightarrow> acct_step (g, db) (g', db)"
| acct_bootstrap: "createFirstUser benv tx took new_id name pw db = (db', trig, res) \<Longrightarrow> acct_step (g, db) (g, db')"
| acct_commit: "mget (unresolved db) i = Some row \<Longrightarrow>
    acct_step (g, db) (g, db\<lparr>users := mput i row (users db), unresolved := mdel i (unresolved db)\<rparr>)"
| acct_rollback: "acct_step (g, db) (g, db\<lparr>unresolved := mdel i (unresolved db)\<rparr>)"
| acct_restart: "acct_step (g, db) ([], db)"

definition acct_init :: "gate \<times> accounts \<Rightarrow> bool" where
  "acct_init x \<longleftrightarrow> fst x = [] \<and> unresolved (snd x) = []"

text \<open>The abstraction to the gate's view of a database: one version per user.\<close>

definition version_in :: "(uint, User) gomap \<Rightarrow> uint \<Rightarrow> int option" where
  "version_in m i = map_option u_TokenVersion (mget m i)"

definition acct_abs :: "gate \<times> accounts \<Rightarrow> gate_sys" where
  "acct_abs x = \<lparr>gt = fst x, committed = (\<lambda>i. case version_in (users (snd x)) i of None \<Rightarrow> 0 | Some v \<Rightarrow> v),
     open_commit = version_in (unresolved (snd x))\<rparr>"

lemma acct_abs_fields [simp]: "gt (acct_abs x) = fst x" "open_commit (acct_abs x) = version_in (unresolved (snd x))"
  "committed (acct_abs x) i = (case version_in (users (snd x)) i of None \<Rightarrow> 0 | Some v \<Rightarrow> v)"
  by (simp_all add: acct_abs_def)

lemma version_in_mput: "version_in (mput i u m) j = (if j = i then Some (u_TokenVersion u) else version_in m j)"
  by (simp add: version_in_def gm_laws)

lemma version_in_mdel: "version_in (mdel i m) j = (if j = i then None else version_in m j)"
  by (simp add: version_in_def gm_laws)

lemma version_in_mdel': "version_in (mdel i m) = (version_in m)(i := None)"
  by (simp add: fun_eq_iff version_in_mdel)

lemma db_answers_sources: "db_answers db i env \<Longrightarrow> sources_ok (acct_abs (g, db)) i env"
  by (auto simp: db_answers_def sources_ok_def TokenVersion_def LockedTokenVersion_def version_in_def split: if_splits option.splits)

lemma gate_abs_admit:
  assumes "sources_ok (acct_abs (g, db)) i env" "fst (withUser env g w i (\<lambda>v w. let (w', e) = fn v w in (w', False, e))) = g'"
  shows "gate_step (acct_abs (g, db)) (acct_abs (g', db))"
proof -
  let ?S = "acct_abs (g, db)"
  obtain h S' r where ad: "Admit env g ?S i (check_fn 0) = (h, S', r)" by (cases "Admit env g ?S i (check_fn 0)")
  have "fst (withUser env g w i (\<lambda>v w. let (w', e) = fn v w in (w', False, e))) = h"
    by (rule withUser_gate[OF ad[unfolded Admit_def]]) (simp add: split_beta)
  then have h: "h = g'" using assms(2) by simp
  have "S' = ?S" using withUser_outcome[OF ad[unfolded Admit_def]] by (auto simp: check_fn_def)
  then have "gate_step ?S (?S\<lparr>gt := g'\<rparr>)" using gate_step.admit[OF assms(1), of 0 h S' r] ad h by simp
  then show ?thesis by (simp add: acct_abs_def)
qed

definition write_of :: "accounts \<Rightarrow> uint \<Rightarrow> (acct_error + int) \<Rightarrow> write_result" where
  "write_of db i res = (case res of
      Inr v \<Rightarrow> Committed v
    | Inl CommitUnknown \<Rightarrow> Unknown (case version_in (users db) i of Some v \<Rightarrow> v + 1 | None \<Rightarrow> 0)
    | Inl _ \<Rightarrow> RolledBack)"

lemma gate_abs_write:
  assumes "repo_ChangePassword tx verify hash i db = (db', res)"
  shows "(fst (write_fn i (write_of db i res) v (acct_abs (g, db))))\<lparr>gt := g'\<rparr> = acct_abs (g', db')"
proof (cases res)
  case (Inl e)
  then show ?thesis using repo_ChangePassword_cases[OF assms]
    by (cases e) (auto simp: write_of_def write_fn_def acct_abs_def version_in_mput version_in_def password_row_def fun_eq_iff gm_laws)
next
  case (Inr n)
  then show ?thesis using repo_ChangePassword_cases[OF assms]
    by (auto simp: write_of_def write_fn_def acct_abs_def version_in_mput password_row_def fun_eq_iff)
qed

lemma change_fn_parts:
  assumes "repo_ChangePassword tx verify hash i db = (db1, res)"
  shows "fst (fst (change_fn tx verify hash i now v (db, R, hit))) = db1"
    and "fst (snd (change_fn tx verify hash i now v (db, R, hit))) = fst (snd (write_fn i (write_of db i res) v' S))"
  using assms
  by (auto simp: change_fn_def write_fn_def write_of_def Let_def split_beta split: sum.splits acct_error.splits option.splits)

lemma gate_abs_change:
  assumes "sources_ok (acct_abs (g, db)) i env"
    and U: "Update env g (db, R, []) i (change_fn tx verify hash i now) = (g', (db', R', hit), e)"
  shows "gate_step (acct_abs (g, db)) (acct_abs (g', db'))"
proof -
  let ?S = "acct_abs (g, db)"
  obtain db1 res where rc: "repo_ChangePassword tx verify hash i db = (db1, res)"
    by (cases "repo_ChangePassword tx verify hash i db")
  let ?wr = "write_of db i res"
  note parts = change_fn_parts[OF rc]
  obtain r2 where "(withUser env g ?S i (write_fn i ?wr) = (g', ?S, r2) \<and> (db', R', hit) = (db, R, []) \<and> e \<noteq> None) \<or>
    (\<exists>v. withUser env g ?S i (write_fn i ?wr) = (g', fst (write_fn i ?wr v ?S), r2) \<and>
       (db', R', hit) = fst (change_fn tx verify hash i now v (db, R, [])))"
    using withUser_sim[OF U[unfolded Update_def], of "write_fn i ?wr" ?S] parts(2) by blast
  then show ?thesis
  proof (elim disjE exE conjE)
    assume "withUser env g ?S i (write_fn i ?wr) = (g', ?S, r2)" "(db', R', hit) = (db, R, [])"
    then show ?thesis using gate_step.update[OF assms(1), of ?wr g' ?S r2] by (simp add: Update_def acct_abs_def)
  next
    fix v
    assume w: "withUser env g ?S i (write_fn i ?wr) = (g', fst (write_fn i ?wr v ?S), r2)"
      and "(db', R', hit) = fst (change_fn tx verify hash i now v (db, R, []))"
    then have "db' = db1" using parts(1) by (metis fst_conv)
    then show ?thesis using gate_step.update[OF assms(1), of ?wr] w gate_abs_write[OF rc, where v = v and g = g and g' = g']
      by (simp add: Update_def)
  qed
qed

lemma first_user_tx_cases:
  assumes "first_user_tx tx took new_id name hash db = (db', res)"
  shows "(db' = db \<and> isl res) \<or> (users db = [] \<and> (\<exists>u. db' = db\<lparr>users := [(new_id, u)]\<rparr> \<and> u_Role u = ''admin'' \<and>
    u_TokenVersion u = 0 \<and> (res = Inr u \<or> isl res)))"
  using assms by (auto simp: first_user_tx_def CountUsers_def Let_def split: if_splits)

lemma createFirstUser_cases:
  assumes "createFirstUser benv tx took new_id name pw db = (db', trig, res)"
  shows "(db' = db \<and> isl res) \<or>
    (users db = [] \<and> (\<exists>u. db' = db\<lparr>users := [(new_id, u)]\<rparr> \<and> u_Role u = ''admin'' \<and> u_TokenVersion u = 0))"
proof (cases "bcrypt_hash benv pw")
  case None
  then show ?thesis using assms by (auto simp: createFirstUser_def)
next
  case (Some hash)
  obtain d r where t: "first_user_tx tx took new_id name hash db = (d, r)" by fastforce
  from first_user_tx_cases[OF t] show ?thesis using assms Some t by (cases r) (auto simp: createFirstUser_def)
qed

lemma createFirstUser_abs:
  assumes "createFirstUser benv tx took new_id name pw db = (db', trig, res)"
  shows "acct_abs (g, db') = acct_abs (g, db)"
  using createFirstUser_cases[OF assms]
  by (auto simp: acct_abs_def version_in_def fun_eq_iff)

lemma gate_abs_step:
  assumes "acct_step x y"
  shows "gate_step (acct_abs x) (acct_abs y) \<or> acct_abs x = acct_abs y"
  using assms
proof cases
  case (acct_admit db cl env g g' e)
  then show ?thesis using gate_abs_admit[where g = g and w = "()" and fn = "version_check cl", OF db_answers_sources[OF acct_admit(3)]]
    by (simp add: Admit_def)
next
  case (acct_change db i env tx g R verify hash now g' db' R' hit e)
  then show ?thesis using gate_abs_change[OF db_answers_sources] by blast
next
  case (acct_recover db i env g g' e)
  then show ?thesis
    using gate_abs_admit[where g = g and w = "()" and fn = "\<lambda>_ w. (w, None :: acct_error gate_error option)",
      OF db_answers_sources[OF acct_recover(3)]]
    by (simp add: Recover_def Admit_def)
next
  case (acct_bootstrap benv tx took new_id name pw db db' trig res g)
  then show ?thesis using createFirstUser_abs[OF acct_bootstrap(3)] by simp
next
  case (acct_commit db i row g)
  have "open_commit (acct_abs (g, db)) i = Some (u_TokenVersion row)" using acct_commit by (simp add: version_in_def)
  from gate_step.resolve_commit[OF this] show ?thesis
    using acct_commit by (simp add: acct_abs_def version_in_mput version_in_mdel' fun_upd_def if_distrib cong: if_cong)
next
  case (acct_rollback g db i)
  show ?thesis
  proof (cases "version_in (unresolved db) i")
    case None
    then show ?thesis using acct_rollback by (auto simp: acct_abs_def version_in_mdel fun_eq_iff)
  next
    case (Some n)
    then have "open_commit (acct_abs (g, db)) i = Some n" by simp
    from gate_step.resolve_rollback[OF this] show ?thesis
      using acct_rollback by (simp add: acct_abs_def version_in_mdel' fun_upd_def)
  qed
next
  case (acct_restart g db)
  then show ?thesis using gate_step.restart[of "acct_abs (g, db)"] by (simp add: acct_abs_def)
qed

text \<open>C15. The account database and the gate around it refine the gate's abstract database: every
  admission, password change, reconciliation, bootstrap, late commit or rollback and restart is a step of
  the abstract system on the session versions, or leaves it unchanged.\<close>

theorem accounts_refine_gate:
  assumes "acct_step x y"
  shows "gate_step (acct_abs x) (acct_abs y) \<or> acct_abs x = acct_abs y"
  by (rule gate_abs_step[OF assms])

theorem accounts_refine_gate_witness:
  "let w = Update (gate_env None (Some 7)) [] (demo_db, None, []) 5 (change_fn clean_tx (\<lambda>_. True) ''new'' 5 10)
   in gate_step (acct_abs ([], demo_db)) (acct_abs (fst w, fst (fst (snd w)))) \<and>
      committed (acct_abs (fst w, fst (fst (snd w)))) 5 = 8"
proof -
  let ?w = "Update (gate_env None (Some 7)) [] (demo_db, None, []) 5 (change_fn clean_tx (\<lambda>_. True) ''new'' 5 10)"
  obtain g' db' R' hit e where w: "?w = (g', (db', R', hit), e)" by (cases ?w) auto
  have "db_answers demo_db 5 (gate_env None (Some 7))" "tx_answers demo_db 5 clean_tx" by code_simp+
  from acct_change[OF this w] have st: "acct_step ([], demo_db) (g', db')" .
  have "version_in (users (fst (fst (snd ?w)))) 5 = Some 8" by code_simp
  then have v: "committed (acct_abs (g', db')) 5 = 8" using w by simp
  have v0: "committed (acct_abs ([], demo_db)) 5 = 7" by (simp add: version_in_def demo_db_def demo_user_def)
  have "acct_abs ([], demo_db) \<noteq> acct_abs (g', db')"
  proof
    assume "acct_abs ([], demo_db) = acct_abs (g', db')"
    from arg_cong[OF this, of "\<lambda>S. committed S 5"] show False unfolding v v0 by simp
  qed
  then show ?thesis using accounts_refine_gate[OF st] v w by (simp add: Let_def)
qed

definition acct_inv :: "gate \<times> accounts \<Rightarrow> bool" where
  "acct_inv x \<longleftrightarrow> gate_inv (acct_abs x) \<and>
     (\<forall>i v. version_in (unresolved (snd x)) i = Some v \<longrightarrow> version_in (users (snd x)) i = Some (v - 1))"

lemma refine_inv:
  assumes "gate_inv (acct_abs x)" "gate_step (acct_abs x) (acct_abs y) \<or> acct_abs x = acct_abs y"
  shows "gate_inv (acct_abs y)"
  using assms gates.inv_step by metis

text \<open>Versions only grow, and an unresolved transaction of a user is one ahead.\<close>

definition grows :: "accounts \<Rightarrow> accounts \<Rightarrow> bool" where
  "grows db db' \<longleftrightarrow> (\<forall>i v. version_in (users db) i = Some v \<longrightarrow> (\<exists>v'. version_in (users db') i = Some v' \<and> v \<le> v'))"

lemma change_db:
  assumes "Update env g (db, R, []) i (change_fn tx verify hash i now) = (g', (db', R', hit), e)"
  shows "db' = db \<or> (\<exists>u. mget (users db) i = Some u \<and> read_err tx = None \<and>
    (db' = db\<lparr>users := mput i (password_row hash u) (users db)\<rparr> \<or>
     db' = db\<lparr>unresolved := mput i (password_row hash u) (unresolved db)\<rparr>))"
proof -
  obtain db1 res where rc: "repo_ChangePassword tx verify hash i db = (db1, res)"
    by (cases "repo_ChangePassword tx verify hash i db")
  have "db' = db \<or> db' = db1"
    using withUser_outcome[OF assms[unfolded Update_def]] change_fn_parts(1)[OF rc] by (metis fst_conv)
  then show ?thesis using repo_ChangePassword_cases[OF rc]
    by (cases res) (auto split: acct_error.splits)
qed

lemma acct_db_step:
  assumes "acct_step x y" and "\<forall>i v. version_in (unresolved (snd x)) i = Some v \<longrightarrow> version_in (users (snd x)) i = Some (v - 1)"
  shows "grows (snd x) (snd y) \<and>
    (\<forall>i v. version_in (unresolved (snd y)) i = Some v \<longrightarrow> version_in (users (snd y)) i = Some (v - 1))"
  using assms(1)
proof cases
  case (acct_change db i env tx g R verify hash now g' db' R' hit e)
  have "version_in (unresolved db) i = None" if "read_err tx = None"
    using acct_change(4) that by (simp add: tx_answers_def version_in_def)
  moreover have "version_in (users db) i = Some (u_TokenVersion u)" if "mget (users db) i = Some u" for u
    using that by (simp add: version_in_def)
  ultimately show ?thesis using change_db[OF acct_change(5)] assms(2) acct_change(1,2)
    by (auto simp: grows_def version_in_mput password_row_def split: if_splits)
next
  case (acct_bootstrap benv tx took new_id name pw db db' trig res g)
  have "version_in (unresolved db) i = None" if "users db = []" for i
    using assms(2) acct_bootstrap(1) that by (cases "version_in (unresolved db) i") (auto simp: version_in_def)
  then show ?thesis using createFirstUser_cases[OF acct_bootstrap(3)] assms(2) acct_bootstrap(1,2)
    by (auto simp: grows_def) (auto simp: version_in_def)
next
  case (acct_commit db i row g)
  then have "version_in (users db) i = Some (u_TokenVersion row - 1)" using assms(2) by (auto simp: version_in_def)
  then show ?thesis using acct_commit assms(2) by (auto simp: grows_def version_in_mput version_in_mdel)
qed (use assms(2) in \<open>auto simp: grows_def version_in_mdel\<close>)

interpretation accts: transition_system acct_init acct_step acct_inv
proof
  fix x assume "acct_init x"
  then show "acct_inv x" by (auto simp: acct_init_def acct_inv_def gate_inv_def version_in_def)
next
  fix x y assume "acct_inv x" "acct_step x y"
  then show "acct_inv y" using acct_db_step refine_inv gate_abs_step unfolding acct_inv_def by blast
qed

lemma grows_trans: "grows a b \<Longrightarrow> grows b c \<Longrightarrow> grows a c"
  unfolding grows_def by (meson order_trans)

lemma acct_steps_grow: "acct_step\<^sup>*\<^sup>* x y \<Longrightarrow> acct_inv x \<Longrightarrow> grows (snd x) (snd y) \<and> acct_inv y"
proof (induction rule: rtranclp_induct)
  case base
  then show ?case by (simp add: grows_def)
next
  case (step y z)
  then have "acct_inv z" "grows (snd y) (snd z)"
    using accts.inv_step acct_db_step unfolding acct_inv_def by blast+
  then show ?case using step grows_trans by blast
qed

text \<open>C2. A password change ends every older session for good. After a successful change of a user's
  password, in any interleaving of further requests, changes, unknown commits, restarts and bootstraps, a
  bearer token of that user that passes the middleware carries a later version than every token issued
  before the change, and it is the version stored in the row, with no change of the user unresolved.\<close>

theorem old_tokens_never_pass:
  assumes "reach acct_init acct_step (g, db)" and "TokenVersion db i = Some old"
    and "db_answers db i env" and "tx_answers db i tx"
    and "Update env g (db, R, []) i (change_fn tx verify hash i now) = (g1, (db1, R1, hit), None)"
    and "acct_step\<^sup>*\<^sup>* (g1, db1) (g2, db2)" 
    and "\<forall>t cl. extractBearerToken r = Some t \<and> jwtSvc t = Some cl \<longrightarrow> db_answers db2 (c_UserID cl) env2"
    and "Auth jwtSvc kv (Some g2) env2 c r = (G', Next c')" and "h_APIKey r = []" and "\<not> isTerminalWebSocketHandshake r"
  shows "\<exists>cl v. ctx_claims c' = Some cl \<and> c_TokenVersion cl = Some v \<and> TokenVersion db2 (c_UserID cl) = Some v \<and>
    mget (unresolved db2) (c_UserID cl) = None \<and> (c_UserID cl = i \<longrightarrow> old < v)"
proof -
  have inv0: "acct_inv (g, db)" using accts.reach_inv[OF assms(1)] .
  have "acct_step (g, db) (g1, db1)" using acct_change[OF assms(3,4,5)] .
  then have inv1: "acct_inv (g1, db1)" using accts.inv_step inv0 by blast
  have new: "version_in (users db1) i = Some (old + 1)"
  proof -
    obtain db' res where rc: "repo_ChangePassword tx verify hash i db = (db', res)"
      by (cases "repo_ChangePassword tx verify hash i db")
    obtain w unc where "change_fn tx verify hash i now w (db, R, []) = ((db1, R1, hit), unc, None)"
      using withUser_outcome[OF assms(5)[unfolded Update_def]] by auto
    then have "db1 = db'" "\<not> isl res" using rc
      by (auto simp: change_fn_def Let_def split: prod.splits sum.splits)
    then show ?thesis using repo_ChangePassword_cases[OF rc] assms(2)
      by (cases res) (auto simp: version_in_mput password_row_def TokenVersion_def)
  qed
  have g: "grows db1 db2" and inv2: "acct_inv (g2, db2)" using acct_steps_grow[OF assms(6) inv1] by auto
  have "auth_jwt jwtSvc (Some g2) env2 c r = (G', Next c')" using assms(8-10) by (simp add: Auth_def)
  from auth_jwt_Next[OF this] obtain t cl v where j: "c' = WithUserClaims c cl" "c_TokenVersion cl = Some v"
    "(if fenced g2 (c_UserID cl) then read_recovery env2 else read_version env2) = Some v"
    and tok: "extractBearerToken r = Some t" "jwtSvc t = Some cl" by blast
  let ?u = "c_UserID cl"
  have ans: "db_answers db2 ?u env2" using assms(7) tok by blast
  have "version_in (unresolved db2) ?u \<noteq> None \<longrightarrow> fenced g2 ?u"
    using inv2 by (auto simp: acct_inv_def gate_inv_def)
  then have cur: "TokenVersion db2 ?u = Some v \<and> mget (unresolved db2) ?u = None"
    using j(3) ans by (auto simp: db_answers_def LockedTokenVersion_def version_in_def split: if_splits)
  have "old < v" if "?u = i"
  proof -
    obtain v' where "version_in (users db2) i = Some v'" "old + 1 \<le> v'" using g new unfolding grows_def by blast
    then show ?thesis using cur that by (auto simp: TokenVersion_def version_in_def)
  qed
  then show ?thesis using j cur by (auto simp: WithUserClaims_def WithPrincipal_def)
qed

definition demo_changed :: "gate \<times> acct_world \<times> acct_error gate_error option" where
  "demo_changed = Update (gate_env None (Some 7)) [] (demo_db, None, []) 5 (change_fn clean_tx (\<lambda>_. True) ''new'' 5 10)"

definition demo_claims8 :: Claims where
  "demo_claims8 = demo_claims\<lparr>c_UserID := 5, c_TokenVersion := Some 8\<rparr>"

theorem old_tokens_never_pass_witness:
  "\<exists>cl v. ctx_claims (WithUserClaims \<lparr>ctx_claims = None, ctx_principal = None\<rparr> demo_claims8) = Some cl \<and>
     c_TokenVersion cl = Some v \<and> TokenVersion (fst (fst (snd demo_changed))) (c_UserID cl) = Some v \<and> (c_UserID cl = 5 \<longrightarrow> 7 < v)"
proof -
  let ?c = "\<lparr>ctx_claims = None, ctx_principal = None\<rparr>"
  let ?A = "Auth (\<lambda>_. Some demo_claims8) NoValidator (Some (fst demo_changed)) (gate_env (Some 8) None) ?c demo_request"
  have "snd (snd demo_changed) = None" by code_simp
  then have w: "demo_changed = (fst demo_changed, (fst (fst (snd demo_changed)), fst (snd (fst (snd demo_changed))),
      snd (snd (fst (snd demo_changed)))), None)" by (simp add: prod_eq_iff)
  have r: "reach acct_init acct_step ([], demo_db)" by (rule reach_init) (simp add: acct_init_def demo_db_def)
  have tv: "TokenVersion demo_db 5 = Some 7" by code_simp
  have a: "db_answers demo_db 5 (gate_env None (Some 7))" "tx_answers demo_db 5 clean_tx" by code_simp+
  have "snd ?A = Next (WithUserClaims ?c demo_claims8)" by code_simp
  then have au: "?A = (fst ?A, Next (WithUserClaims ?c demo_claims8))" by (simp add: prod_eq_iff)
  have "db_answers (fst (fst (snd demo_changed))) 5 (gate_env (Some 8) None)" by code_simp
  then have ans: "\<forall>t cl. extractBearerToken demo_request = Some t \<and> Some demo_claims8 = Some cl \<longrightarrow>
      db_answers (fst (fst (snd demo_changed))) (c_UserID cl) (gate_env (Some 8) None)"
    by (auto simp: demo_claims8_def)
  have no: "h_APIKey demo_request = []" "\<not> isTerminalWebSocketHandshake demo_request" by code_simp+
  from old_tokens_never_pass[OF r tv a w[unfolded demo_changed_def] rtranclp.rtrancl_refl,
      unfolded demo_changed_def[symmetric], OF ans au no] show ?thesis by blast
qed

section \<open>The first administrator\<close>

text \<open>Concurrent setup requests: each checks its proof and the empty table first and runs the locked
  transaction later; everything else the service does to the accounts may happen in between.\<close>

record boot_sys =
  b_acct :: "gate \<times> accounts"
  b_waiting :: nat
  b_created :: "User list"
  b_told :: "string list"

text \<open>\<open>b_created\<close> are the rows setup transactions put into the table, \<open>b_told\<close> the tokens their callers
  were given. Nothing else fills an empty table.\<close>

inductive boot_step :: "(string \<Rightarrow> bytes) \<Rightarrow> bytes option \<Rightarrow> boot_sys \<Rightarrow> boot_sys \<Rightarrow> bool" for sha h where
  boot_enter: "boot_precheck sha h proof count_err (snd (b_acct S)) = None \<Longrightarrow>
    boot_step sha h S (S\<lparr>b_waiting := b_waiting S + 1\<rparr>)"
| boot_tx: "b_waiting S = Suc n \<Longrightarrow>
    createFirstUser benv tx took new_id name pw (snd (b_acct S)) = (db', trig, res) \<Longrightarrow>
    boot_step sha h S (S\<lparr>b_waiting := n, b_acct := (fst (b_acct S), db'),
      b_created := b_created S @ (if db' = snd (b_acct S) then [] else map snd (users db')),
      b_told := b_told S @ (case res of Inr t \<Rightarrow> [t] | Inl _ \<Rightarrow> [])\<rparr>)"
| boot_other: "acct_step (b_acct S) x \<Longrightarrow> users (snd (b_acct S)) = [] \<longrightarrow> users (snd x) = [] \<Longrightarrow>
    boot_step sha h S (S\<lparr>b_acct := x\<rparr>)"

definition boot_init :: "boot_sys \<Rightarrow> bool" where
  "boot_init S \<longleftrightarrow> acct_init (b_acct S) \<and> b_waiting S = 0 \<and> b_created S = [] \<and> b_told S = []"

definition boot_inv :: "boot_sys \<Rightarrow> bool" where
  "boot_inv S \<longleftrightarrow> length (b_told S) \<le> length (b_created S) \<and> length (b_created S) \<le> 1 \<and>
     (b_created S \<noteq> [] \<longrightarrow> users (snd (b_acct S)) \<noteq> []) \<and> (\<forall>u\<in>set (b_created S). u_Role u = ''admin'')"

lemma acct_step_nonempty:
  assumes "acct_step x y" "users (snd x) \<noteq> []"
  shows "users (snd y) \<noteq> []"
proof -
  have ne: "mput i v m \<noteq> []" for i and v :: User and m by (cases m) (auto split: prod.splits)
  from assms(1) show ?thesis
  proof cases
    case (acct_change db i env tx g R verify hash now g' db' R' hit e)
    then show ?thesis using change_db[OF acct_change(5)] assms(2) ne by auto
  next
    case (acct_bootstrap benv tx took new_id name pw db db' trig res g)
    then show ?thesis using createFirstUser_cases[OF acct_bootstrap(3)] assms(2) by auto
  qed (use assms(2) ne in auto)
qed

interpretation boots: transition_system boot_init "boot_step sha h" boot_inv for sha h
proof
  fix S assume "boot_init S"
  then show "boot_inv S" by (simp add: boot_init_def boot_inv_def)
next
  fix S T assume inv: "boot_inv S" and st: "boot_step sha h S T"
  from st show "boot_inv T"
  proof cases
    case (boot_tx n benv tx took new_id name pw db' trig res)
    from createFirstUser_cases[OF boot_tx(3)] inv show ?thesis unfolding boot_tx(1) boot_inv_def
      by (cases res) (auto dest: arg_cong[where f = users])
  next
    case (boot_other x)
    then show ?thesis using inv acct_step_nonempty by (auto simp: boot_inv_def)
  qed (use inv in \<open>auto simp: boot_inv_def\<close>)
qed

lemma createFirstUser_taken:
  assumes "users db \<noteq> []"
  shows "createFirstUser benv tx took new_id name pw db = (db, False, Inl (if bcrypt_hash benv pw = None then BootInternal
    else if begin_err tx \<noteq> None \<or> read_err tx \<noteq> None then BootDb else BootConflict))"
  using assms by (simp add: createFirstUser_def first_user_tx_def CountUsers_def split: option.splits)

text \<open>C23. Setup happens once. However setup requests, sign-ins and password changes interleave, at
  most one administrator row is ever created by setup, and at most that one caller is given a token, whatever
  errors the database, the hash and the token service return. Once the row exists, a request that arrives is
  forbidden, fails with a database error or is told of the conflict, and one that passed the first check
  before changes nothing and triggers nothing: it is told of the conflict unless the hash or the database
  failed it earlier. A request gets as far as the table at all only with a proof whose digest is that of a
  configured token of 32 to 256 characters.\<close>

theorem bootstrap_once:
  assumes "reach boot_init (boot_step sha (SetBootstrapToken sha token)) S"
  shows "length (b_told S) \<le> length (b_created S) \<and> length (b_created S) \<le> 1 \<and>
    (\<forall>u\<in>set (b_created S). u_Role u = ''admin'') \<and>
    (b_created S \<noteq> [] \<longrightarrow>
       boot_precheck sha (SetBootstrapToken sha token) proof count_err (snd (b_acct S)) =
         Some (if \<not> VerifyBootstrapProof sha (SetBootstrapToken sha token) proof then BootForbidden
               else if count_err \<noteq> None then BootDb else BootConflict) \<and>
       Bootstrap sha (SetBootstrapToken sha token) proof None counted benv tx took new_id name pw (snd (b_acct S)) =
         (snd (b_acct S), False, Inl (
            if \<not> VerifyBootstrapProof sha (SetBootstrapToken sha token) proof then BootForbidden
            else if users counted \<noteq> [] then BootConflict
            else if bcrypt_hash benv pw = None then BootInternal
            else if begin_err tx \<noteq> None \<or> read_err tx \<noteq> None then BootDb else BootConflict))) \<and>
    (VerifyBootstrapProof sha (SetBootstrapToken sha token) proof \<longleftrightarrow>
       32 \<le> length token \<and> length token \<le> 256 \<and> 32 \<le> length proof \<and> length proof \<le> 256 \<and> sha proof = sha token)"
proof -
  have inv: "boot_inv S" using boots.reach_inv[OF assms] .
  let ?h = "SetBootstrapToken sha token"
  have p: "VerifyBootstrapProof sha ?h proof \<longleftrightarrow>
       32 \<le> length token \<and> length token \<le> 256 \<and> 32 \<le> length proof \<and> length proof \<le> 256 \<and> sha proof = sha token"
    by (auto simp: VerifyBootstrapProof_def SetBootstrapToken_def BootstrapEnabled_def)
  have t: "createFirstUser benv tx took new_id name pw (snd (b_acct S)) = (snd (b_acct S), False,
      Inl (if bcrypt_hash benv pw = None then BootInternal
        else if begin_err tx \<noteq> None \<or> read_err tx \<noteq> None then BootDb else BootConflict))" if "b_created S \<noteq> []"
    using createFirstUser_taken inv that by (auto simp: boot_inv_def)
  show ?thesis unfolding p[symmetric] using inv t
    by (auto simp: boot_inv_def boot_precheck_def Bootstrap_def CountUsers_def)
qed

text \<open>Two requests pass the first check on an empty table; the first to get the lock creates the
  administrator, the second is told of the conflict.\<close>

definition demo_token :: string where
  "demo_token = replicate 32 CHR ''a''"

definition demo_boot_env :: boot_env where
  "demo_boot_env = \<lparr>bcrypt_hash = (\<lambda>p. Some (''h'' @ p)), issue_token = (\<lambda>u. Some ''t''), backfill_wired = True\<rparr>"

definition demo_first_admin :: User where
  "demo_first_admin = \<lparr>u_ID = 1, u_Username = ''root'', u_PasswordHash = ''hpw'', u_Role = ''admin'', u_TokenVersion = 0\<rparr>"

definition demo_boot :: boot_sys where
  "demo_boot = \<lparr>b_acct = ([], \<lparr>users = [(1, demo_first_admin)], unresolved = []\<rparr>), b_waiting = 1, b_created = [demo_first_admin],
     b_told = [''t'']\<rparr>"

lemma demo_boot_reach: "reach boot_init (boot_step id (SetBootstrapToken id demo_token)) demo_boot"
proof -
  let ?e = "\<lparr>users = [], unresolved = []\<rparr>" and ?h = "SetBootstrapToken id demo_token"
  let ?S = "\<lambda>n. \<lparr>b_acct = ([], ?e), b_waiting = n, b_created = [], b_told = []\<rparr>"
  have ok: "boot_precheck id ?h demo_token None ?e = None" by code_simp
  have en: "boot_step id ?h (?S n) (?S (Suc n))" for n
    using boot_enter[of id ?h demo_token None "?S n"] ok by simp
  have "createFirstUser demo_boot_env clean_tx False 1 ''root'' ''pw'' ?e =
    (\<lparr>users = [(1, demo_first_admin)], unresolved = []\<rparr>, True, Inr ''t'')" by code_simp
  then have "boot_step id ?h (?S 2) demo_boot"
    using boot_tx[of "?S 2" 1 demo_boot_env clean_tx False 1 "''root''" "''pw''" _ _ _ id ?h] by (simp add: demo_boot_def)
  moreover have "reach boot_init (boot_step id ?h) (?S 0)" by (rule reach_init) (simp add: boot_init_def acct_init_def)
  ultimately show ?thesis using en[of 0] en[of 1] by (simp add: numeral_2_eq_2) (blast intro: reach_step)
qed

theorem bootstrap_once_witness:
  "b_created demo_boot = [demo_first_admin] \<and>
   Bootstrap id (SetBootstrapToken id demo_token) demo_token None \<lparr>users = [], unresolved = []\<rparr> demo_boot_env clean_tx False 2
     ''eve'' ''pw'' (snd (b_acct demo_boot)) = (snd (b_acct demo_boot), False, Inl BootConflict)"
proof -
  have "b_created demo_boot = [demo_first_admin]" by (simp add: demo_boot_def)
  moreover have "begin_err clean_tx = None" "read_err clean_tx = None" by code_simp+
  moreover have "VerifyBootstrapProof id (SetBootstrapToken id demo_token) demo_token" by code_simp
  ultimately show ?thesis
    using bootstrap_once[OF demo_boot_reach, of demo_token None "\<lparr>users = [], unresolved = []\<rparr>" demo_boot_env clean_tx False 2
        "''eve''" "''pw''"] by (simp add: demo_boot_env_def)
qed

end
