(* ===== verification/Api_Key.thy ===== *)
theory Api_Key
  imports Account_Service "HOL-Library.List_Lexorder" "HOL-Library.Char_ord"
begin

text \<open>
  API keys: creation, permission changes, rotation, deletion and validation (\<^verbatim>\<open>service/apikey.go\<close>,
  \<^verbatim>\<open>service/apikey_permissions.go\<close>, \<^verbatim>\<open>service/apikey_rotation.go\<close>,
  \<^verbatim>\<open>service/apikey_owner_backfill.go\<close>) over the key table (\<^verbatim>\<open>repository/apikey.go\<close>,
  \<^verbatim>\<open>repository/apikey_permissions.go\<close>, \<^verbatim>\<open>repository/apikey_rotation.go\<close>).

  The key table is a map from ids to rows; ids come from a sequence and are never reused. As for accounts,
  \<open>key_open\<close> holds what a transaction with an unknown outcome may still install: a new row with its
  audit event, or a deletion. Hashing, random key material and encryption are arguments.
\<close>

section \<open>Keys\<close>

record APIKey =
  k_ID :: uint
  k_UserID :: "uint option"
  k_OwnerBinding :: nat
  k_Name :: string
  k_KeyHash :: string
  k_KeyPrefix :: string
  k_Scopes :: "string list"
  k_ServerIDs :: "uint list"
  k_EncryptedRawKey :: string
  k_Salt :: bytes
  k_CryptoVersion :: int
  k_Revision :: int
  k_UpdatedAt :: "time option"

definition AllScopeGatedScopes :: "string list" where
  "AllScopeGatedScopes = [''servers:read'', ''servers:exec'', ''servers:terminal'', ''metrics:read'',
     ''credentials:read'', ''services:read'']"

record AuditEvent =
  ae_User :: uint
  ae_Username :: string
  ae_Action :: string
  ae_Resource :: uint
  ae_Before :: "string list \<times> uint list \<times> int"
  ae_After :: "string list \<times> uint list \<times> int"

record key_db =
  keys :: "(uint, APIKey) gomap"
  key_open :: "(uint, APIKey option \<times> AuditEvent list) gomap"
  key_seq :: uint
  audits :: "AuditEvent list"
  servers :: "uint list"

datatype key_params = NoParams | BadScopes "string list" | MissingServers "uint list"

datatype key_err = KDb db_failure | KNotFound | KForbidden | KAuditStorage | KCommitUnknown | KApp nat string key_params

section \<open>Repository\<close>

definition PermissionsRevision :: "key_db \<Rightarrow> uint \<Rightarrow> int" where
  "PermissionsRevision db i = (case mget (keys db) i of None \<Rightarrow> 0 | Some k \<Rightarrow> k_Revision k)"

definition FindByHash :: "key_db \<Rightarrow> string \<Rightarrow> APIKey option" where
  "FindByHash db h = List.find (\<lambda>k. k_KeyHash k = h) (map snd (keys db))"

definition FindKeyByID :: "key_db \<Rightarrow> uint \<Rightarrow> APIKey option" where
  "FindKeyByID db i = mget (keys db) i"

text \<open>The end of every key transaction: commit, known rollback, or unknown outcome.\<close>

definition apply_row :: "uint \<Rightarrow> APIKey option \<Rightarrow> (uint, APIKey) gomap \<Rightarrow> (uint, APIKey) gomap" where
  "apply_row i r m = (case r of Some k \<Rightarrow> mput i k m | None \<Rightarrow> mdel i m)"

definition commit_key :: "tx_env \<Rightarrow> uint \<Rightarrow> APIKey option \<Rightarrow> AuditEvent list \<Rightarrow> key_db \<Rightarrow> key_db \<times> key_err option" where
  "commit_key tx i r evs db =
     (case commit_err tx of
        None \<Rightarrow> (db\<lparr>keys := apply_row i r (keys db), audits := audits db @ evs\<rparr>, None)
      | Some e \<Rightarrow> if commitDefinitelyRolledBack e then (db, Some (KDb DbErr))
                  else (db\<lparr>key_open := mput i (r, evs) (key_open db)\<rparr>, Some KCommitUnknown))"

text \<open>Only the revision, its time and the permission columns that differ are written.\<close>

definition written_columns :: "time \<Rightarrow> APIKey \<Rightarrow> APIKey \<Rightarrow> APIKey" where
  "written_columns now row key = row\<lparr>k_Revision := k_Revision key, k_UpdatedAt := Some now,
     k_Scopes := (if k_Scopes row = k_Scopes key then k_Scopes row else k_Scopes key),
     k_ServerIDs := (if k_ServerIDs row = k_ServerIDs key then k_ServerIDs row else k_ServerIDs key)\<rparr>"

lemma written_columns: "written_columns now row key = row\<lparr>k_Revision := k_Revision key, k_UpdatedAt := Some now,
     k_Scopes := k_Scopes key, k_ServerIDs := k_ServerIDs key\<rparr>"
  by (simp add: written_columns_def)

definition repo_UpdatePermissions ::
  "tx_env \<Rightarrow> time \<Rightarrow> (APIKey \<Rightarrow> key_err + APIKey \<times> AuditEvent option) \<Rightarrow> uint \<Rightarrow> key_db \<Rightarrow>
   key_db \<times> (key_err + APIKey \<times> bool)" where
  "repo_UpdatePermissions tx now change i db =
     (case begin_err tx of Some e \<Rightarrow> (db, Inl (KDb e)) | None \<Rightarrow>
      case read_err tx of Some e \<Rightarrow> (db, Inl (KDb e)) | None \<Rightarrow>
      case mget (keys db) i of None \<Rightarrow> (db, Inl KNotFound) | Some row \<Rightarrow>
      case change row of
        Inl e \<Rightarrow> (db, Inl e)
      | Inr (key, None) \<Rightarrow> (db, Inr (key, False))
      | Inr (key, Some ev) \<Rightarrow>
          (let key' = key\<lparr>k_Revision := wrap64 (k_Revision key + 1), k_UpdatedAt := Some now\<rparr>;
               row' = written_columns now row key'
           in case write_err tx of Some e \<Rightarrow> (db, Inl (KDb e)) | None \<Rightarrow>
              if audit_err tx \<noteq> None then (db, Inl KAuditStorage)
              else case commit_key tx i (Some row') [ev] db of
                     (db', None) \<Rightarrow> (db', Inr (key', True))
                   | (db', Some e) \<Rightarrow> (db', Inl e)))"

definition repo_Rotate ::
  "tx_env \<Rightarrow> (APIKey \<Rightarrow> key_err + AuditEvent) \<Rightarrow> APIKey \<Rightarrow> uint \<Rightarrow> key_db \<Rightarrow> key_db \<times> (key_err + APIKey)" where
  "repo_Rotate tx audit material i db =
     (case begin_err tx of Some e \<Rightarrow> (db, Inl (KDb e)) | None \<Rightarrow>
      case read_err tx of Some e \<Rightarrow> (db, Inl (KDb e)) | None \<Rightarrow>
      case mget (keys db) i of None \<Rightarrow> (db, Inl KNotFound) | Some row \<Rightarrow>
      case audit row of
        Inl e \<Rightarrow> (db, Inl e)
      | Inr ev \<Rightarrow>
          (let key = row\<lparr>k_Revision := wrap64 (k_Revision row + 1), k_KeyHash := k_KeyHash material,
                 k_KeyPrefix := k_KeyPrefix material, k_EncryptedRawKey := k_EncryptedRawKey material,
                 k_Salt := k_Salt material, k_CryptoVersion := k_CryptoVersion material\<rparr>
           in case write_err tx of Some e \<Rightarrow> (db, Inl (KDb e)) | None \<Rightarrow>
              if audit_err tx \<noteq> None then (db, Inl KAuditStorage)
              else case commit_key tx i (Some key) [ev] db of
                     (db', None) \<Rightarrow> (db', Inr key)
                   | (db', Some e) \<Rightarrow> (db', Inl e)))"

definition repo_Delete :: "tx_env \<Rightarrow> uint \<Rightarrow> key_db \<Rightarrow> key_db \<times> key_err option" where
  "repo_Delete tx i db =
     (case begin_err tx of Some e \<Rightarrow> (db, Some (KDb e)) | None \<Rightarrow>
      case write_err tx of Some e \<Rightarrow> (db, Some (KDb e)) | None \<Rightarrow> commit_key tx i None [] db)"

text \<open>The bounded assignment of unowned pre-upgrade keys to the first administrator: \<open>locked\<close> are the
  rows another transaction holds, which \<^verbatim>\<open>SKIP LOCKED\<close> passes over.\<close>

definition OwnerBackfillBatchSize :: nat where
  "OwnerBackfillBatchSize = 100"

definition legacy_unowned :: "APIKey \<Rightarrow> bool" where
  "legacy_unowned k \<longleftrightarrow> k_OwnerBinding k = 0 \<and> (k_UserID k = Some 0 \<or> k_UserID k = None)"

definition backfill_batch :: "uint list \<Rightarrow> key_db \<Rightarrow> uint list" where
  "backfill_batch locked db = take OwnerBackfillBatchSize
     (sort (map fst (filter (\<lambda>(i, k). legacy_unowned k \<and> i \<notin> set locked) (keys db))))"

definition BindUnownedToDefaultAdmin :: "uint option \<Rightarrow> uint list \<Rightarrow> key_db \<Rightarrow> key_db \<times> nat" where
  "BindUnownedToDefaultAdmin admin locked db =
     (case admin of
        None \<Rightarrow> (db, 0)
      | Some a \<Rightarrow>
          (let b = backfill_batch locked db
           in (db\<lparr>keys := map (\<lambda>(i, k). (i, if i \<in> set b then k\<lparr>k_UserID := Some a, k_OwnerBinding := 1\<rparr> else k)) (keys db)\<rparr>,
               length b)))"

section \<open>Service\<close>

definition apiKeyMutationBudget :: duration where
  "apiKeyMutationBudget = 10 * second"

definition requireAPIKeyAdmin :: "Principal \<Rightarrow> bool" where
  "requireAPIKeyAdmin p \<longleftrightarrow>
     \<not> (AuthType p \<noteq> ''jwt'' \<or> p_Role p \<noteq> ''admin'' \<or> p_UserID p = None \<or> p_UserID p = Some 0)"

text \<open>A Go map used as a set is the list of its keys.\<close>

fun same_loop :: "'a list \<Rightarrow> 'a list \<Rightarrow> 'a list \<Rightarrow> bool" where
  "same_loop sa other [] = (length sa = length other)"
| "same_loop sa other (v # vs) = (if v \<notin> set sa then False else same_loop sa (List.insert v other) vs)"

definition samePermissionSet :: "'a list \<Rightarrow> 'a list \<Rightarrow> bool" where
  "samePermissionSet a b = same_loop (fold List.insert a []) [] b"

fun uniq_loop :: "'a list \<Rightarrow> 'a list \<Rightarrow> 'a list" where
  "uniq_loop seen [] = []"
| "uniq_loop seen (v # vs) = (if v \<in> set seen then uniq_loop seen vs else v # uniq_loop (v # seen) vs)"

definition uniquePermissions :: "'a list \<Rightarrow> 'a list" where
  "uniquePermissions vs = uniq_loop [] vs"

definition resolveScopes :: "string list option \<Rightarrow> key_err + string list" where
  "resolveScopes scopes =
     (case scopes of
        None \<Rightarrow> Inr AllScopeGatedScopes
      | Some [] \<Rightarrow> Inl (KApp 400 ''scopes_required'' NoParams)
      | Some ss \<Rightarrow> Inr ss)"

text \<open>\<open>generateKey\<close> returns fresh material, or an error; \<open>existing\<close> is the answer of the server
  lookup.\<close>

definition new_key :: "uint \<Rightarrow> uint \<Rightarrow> string \<Rightarrow> string list \<Rightarrow> uint list \<Rightarrow> time \<Rightarrow> APIKey \<Rightarrow> APIKey" where
  "new_key i owner name scopes sids now m =
     m\<lparr>k_ID := i, k_UserID := Some owner, k_OwnerBinding := 1, k_Name := name, k_Scopes := scopes,
       k_ServerIDs := sids, k_Revision := 1, k_UpdatedAt := Some now\<rparr>"

definition Create :: "(key_err + string \<times> APIKey) \<Rightarrow> (key_err + uint list) \<Rightarrow> db_failure option \<Rightarrow> Principal \<Rightarrow> time \<Rightarrow>
    string \<Rightarrow> string list option \<Rightarrow> uint list \<Rightarrow> key_db \<Rightarrow> key_db \<times> (key_err + string \<times> APIKey)" where
  "Create gen existing insert_err p now name scopes sids db =
     (if \<not> requireAPIKeyAdmin p then (db, Inl KForbidden)
      else case resolveScopes scopes of Inl e \<Rightarrow> (db, Inl e) | Inr resolved \<Rightarrow>
      if ValidateScopes resolved \<noteq> [] then (db, Inl (KApp 400 ''invalid_scopes'' (BadScopes (ValidateScopes resolved))))
      else case (if sids = [] then Inr [] else existing) of Inl e \<Rightarrow> (db, Inl e) | Inr ex \<Rightarrow>
      if sids \<noteq> [] \<and> length ex \<noteq> length sids
      then (db, Inl (KApp 400 ''servers_not_found'' (MissingServers (filter (\<lambda>i. i \<notin> set ex) sids))))
      else case gen of Inl e \<Rightarrow> (db, Inl e) | Inr (raw, m) \<Rightarrow>
        (let owner = (case p_UserID p of Some u \<Rightarrow> u | None \<Rightarrow> 0);
             k = new_key (key_seq db) owner name resolved sids now m
         in case insert_err of Some e \<Rightarrow> (db, Inl (KDb e))
            | None \<Rightarrow> (db\<lparr>keys := mput (key_seq db) k (keys db), key_seq := key_seq db + 1\<rparr>, Inr (raw, k))))"

text \<open>The decision inside the permission transaction. \<open>json_size\<close> is the size of the encoded audit
  details, \<open>lookup_err\<close> an error of the server lookup.\<close>

record UpdateInput =
  ExpectedRevision :: int
  in_Scopes :: "string list option"
  in_ServerIDs :: "uint list option"

definition server_ids_of :: "uint list \<Rightarrow> db_failure option \<Rightarrow> uint list \<Rightarrow> uint list \<Rightarrow> key_err + uint list" where
  "server_ids_of existing_servers lookup_err old requested =
     (let ids = sort (uniquePermissions requested);
          added = filter (\<lambda>v. v \<notin> set old) ids
      in if list_ex (\<lambda>v. v = 0 \<or> max_int64 < int v) ids then Inl (KApp 400 ''invalid_server_id'' NoParams)
         else if added = [] then Inr ids
         else case lookup_err of Some e \<Rightarrow> Inl (KDb e) | None \<Rightarrow>
           (let ex = filter (\<lambda>v. v \<in> set existing_servers) added
            in if length ex \<noteq> length added
               then Inl (KApp 400 ''servers_not_found'' (MissingServers (filter (\<lambda>v. v \<notin> set ex) added)))
               else Inr ids))"

definition policy_of :: "APIKey \<Rightarrow> string list \<times> uint list \<times> int" where
  "policy_of k = (k_Scopes k, k_ServerIDs k, k_Revision k)"

definition requested_scopes :: "UpdateInput \<Rightarrow> APIKey \<Rightarrow> string list" where
  "requested_scopes inp key =
     (case in_Scopes inp of None \<Rightarrow> k_Scopes key | Some ss \<Rightarrow> sort (uniquePermissions ss))"

definition requested_servers :: "uint list \<Rightarrow> db_failure option \<Rightarrow> UpdateInput \<Rightarrow> APIKey \<Rightarrow> key_err + uint list" where
  "requested_servers existing_servers lookup_err inp key =
     (case in_ServerIDs inp of
        None \<Rightarrow> Inr (k_ServerIDs key)
      | Some ids \<Rightarrow> server_ids_of existing_servers lookup_err (k_ServerIDs key) ids)"

definition perm_event :: "Principal \<Rightarrow> uint \<Rightarrow> APIKey \<Rightarrow> APIKey \<Rightarrow> AuditEvent" where
  "perm_event p i before key = \<lparr>ae_User = the (p_UserID p), ae_Username = p_Username p, ae_Action = ''api_key.permissions.update'',
     ae_Resource = i, ae_Before = policy_of before, ae_After = (k_Scopes key, k_ServerIDs key, k_Revision key + 1)\<rparr>"

definition revision_conflict :: key_err where
  "revision_conflict = KApp 409 ''api_key_revision_conflict'' NoParams"

definition perm_change :: "(AuditEvent \<Rightarrow> int) \<Rightarrow> uint list \<Rightarrow> db_failure option \<Rightarrow> Principal \<Rightarrow> UpdateInput \<Rightarrow> uint \<Rightarrow>
    APIKey \<Rightarrow> key_err + APIKey \<times> AuditEvent option" where
  "perm_change json_size existing_servers lookup_err p inp i key =
     (if k_Revision key \<noteq> ExpectedRevision inp then Inl revision_conflict
      else if k_Revision key = max_int64 then Inl revision_conflict
      else case requested_servers existing_servers lookup_err inp key of
             Inl e \<Rightarrow> Inl e
           | Inr ids \<Rightarrow>
               (let key' = key\<lparr>k_Scopes := requested_scopes inp key, k_ServerIDs := ids\<rparr>
                in if samePermissionSet (k_Scopes key) (k_Scopes key') \<and> samePermissionSet (k_ServerIDs key) (k_ServerIDs key')
                   then Inr (key'\<lparr>k_Scopes := k_Scopes key, k_ServerIDs := k_ServerIDs key\<rparr>, None)
                   else if 256 * 1024 < json_size (perm_event p i key key') then Inl (KApp 400 ''invalid_request'' NoParams)
                   else Inr (key', Some (perm_event p i key key'))))"

text \<open>What a callback works on: the table, the terminals, and the variables it captures, the revoked
  terminals and the row it hands back.\<close>

type_synonym key_world = "key_db \<times> Registry \<times> uint list \<times> APIKey option"

definition apiKeyPolicyError :: "key_err gate_error \<Rightarrow> key_err" where
  "apiKeyPolicyError e =
     (case e of
        Callback KNotFound \<Rightarrow> KApp 404 ''api_key_not_found'' NoParams
      | Callback (KApp st r ps) \<Rightarrow> KApp st r ps
      | _ \<Rightarrow> KApp 503 ''unavailable'' NoParams)"

text \<open>The three callbacks under the key's lock: the transaction, then the revocation of the key's
  terminals when it changed the key or may have.\<close>

definition revoke_if :: "bool \<Rightarrow> uint \<Rightarrow> time \<Rightarrow> Registry \<Rightarrow> Registry \<times> uint list" where
  "revoke_if b i now r = (if b then MarkRevoked r i now else (r, []))"

definition perm_fn :: "tx_env \<Rightarrow> (APIKey \<Rightarrow> key_err + APIKey \<times> AuditEvent option) \<Rightarrow> uint \<Rightarrow> time \<Rightarrow> (key_world, key_err) gate_fn" where
  "perm_fn tx change i now _ w =
     (case w of (db, r, _, _) \<Rightarrow>
        (let (db', res) = repo_UpdatePermissions tx now change i db;
             changed = (case res of Inr (_, c) \<Rightarrow> c | Inl _ \<Rightarrow> False);
             unknown = (res = Inl KCommitUnknown);
             (r', hit) = revoke_if (changed \<or> unknown) i now r
         in ((db', r', hit, (case res of Inr (k, _) \<Rightarrow> Some k | Inl _ \<Rightarrow> None)), unknown, (case res of Inl e \<Rightarrow> Some (Callback e) | Inr _ \<Rightarrow> None))))"

definition rotate_audit :: "Principal \<Rightarrow> int \<Rightarrow> uint \<Rightarrow> APIKey \<Rightarrow> key_err + AuditEvent" where
  "rotate_audit p expected i key =
     (if k_Revision key \<noteq> expected \<or> k_Revision key = max_int64
      then Inl revision_conflict
      else Inr \<lparr>ae_User = the (p_UserID p), ae_Username = p_Username p, ae_Action = ''api_key.rotate'', ae_Resource = i,
             ae_Before = ([], [], expected), ae_After = ([], [], expected + 1)\<rparr>)"

definition rotate_fn :: "tx_env \<Rightarrow> (APIKey \<Rightarrow> key_err + AuditEvent) \<Rightarrow> APIKey \<Rightarrow> uint \<Rightarrow> time \<Rightarrow> (key_world, key_err) gate_fn" where
  "rotate_fn tx audit material i now _ w =
     (case w of (db, r, _, _) \<Rightarrow>
        (let (db', res) = repo_Rotate tx audit material i db;
             unknown = (res = Inl KCommitUnknown);
             (r', hit) = revoke_if (\<not> isl res \<or> unknown) i now r
         in ((db', r', hit, (case res of Inr k \<Rightarrow> Some k | Inl _ \<Rightarrow> None)), unknown, (case res of Inl e \<Rightarrow> Some (Callback e) | Inr _ \<Rightarrow> None))))"

definition delete_fn :: "tx_env \<Rightarrow> uint \<Rightarrow> time \<Rightarrow> (key_world, key_err) gate_fn" where
  "delete_fn tx i now _ w =
     (case w of (db, r, _, _) \<Rightarrow>
        (let (db', err) = repo_Delete tx i db;
             unknown = (err = Some KCommitUnknown);
             (r', hit) = revoke_if (err = None \<or> unknown) i now r
         in ((db', r', hit, None), unknown, map_option Callback err)))"

text \<open>\<^verbatim>\<open>finishPermissionChange\<close>: the wait for revoked terminals; the reconciliation after an unknown
  commit runs on its own.\<close>

definition finishPermissionChange :: "time \<Rightarrow> (uint \<Rightarrow> time option) \<Rightarrow> Registry \<Rightarrow> uint list \<Rightarrow> Registry" where
  "finishPermissionChange t done_at r revoked = (if revoked \<noteq> [] then fst (Await r t done_at revoked) else r)"

definition key_budget :: "admission \<Rightarrow> bool \<Rightarrow> gate \<Rightarrow> key_db \<Rightarrow> Registry \<Rightarrow> uint \<Rightarrow> (key_world, key_err) gate_fn \<Rightarrow>
    gate \<times> key_world \<times> key_err gate_error option" where
  "key_budget env wctx g db r i fn = UpdateWithBudget env g (db, r, [], None) i apiKeyMutationBudget wctx fn"

definition UpdatePermissions ::
  "(AuditEvent \<Rightarrow> int) \<Rightarrow> db_failure option \<Rightarrow> admission \<Rightarrow> bool \<Rightarrow> tx_env \<Rightarrow> time \<Rightarrow> time \<Rightarrow> (uint \<Rightarrow> time option) \<Rightarrow> Principal \<Rightarrow>
   gate \<Rightarrow> key_db \<Rightarrow> Registry \<Rightarrow> uint \<Rightarrow> UpdateInput \<Rightarrow> gate \<times> key_db \<times> Registry \<times> (key_err + APIKey option)" where
  "UpdatePermissions json_size lookup_err env wctx tx now t done_at p g db r i inp =
     (if \<not> requireAPIKeyAdmin p then (g, db, r, Inl KForbidden)
      else if ExpectedRevision inp \<le> 0 \<or> (in_Scopes inp = None \<and> in_ServerIDs inp = None)
      then (g, db, r, Inl (KApp 400 ''invalid_request'' NoParams))
      else if in_Scopes inp = Some [] then (g, db, r, Inl (KApp 400 ''scopes_required'' NoParams))
      else if (case in_Scopes inp of None \<Rightarrow> [] | Some ss \<Rightarrow> ValidateScopes ss) \<noteq> []
      then (g, db, r, Inl (KApp 400 ''invalid_scopes'' (BadScopes (case in_Scopes inp of None \<Rightarrow> [] | Some ss \<Rightarrow> ValidateScopes ss))))
      else
        let (g', (db', r', revoked, updated), err) =
              key_budget env wctx g db r i (perm_fn tx (perm_change json_size (servers db) lookup_err p inp i) i now)
        in (g', db', finishPermissionChange t done_at r' revoked, 
             case err of Some e \<Rightarrow> Inl (apiKeyPolicyError e) | None \<Rightarrow> Inr updated))"

definition Rotate ::
  "(key_err + string \<times> APIKey) \<Rightarrow> admission \<Rightarrow> bool \<Rightarrow> tx_env \<Rightarrow> time \<Rightarrow> time \<Rightarrow> (uint \<Rightarrow> time option) \<Rightarrow> Principal \<Rightarrow>
   gate \<Rightarrow> key_db \<Rightarrow> Registry \<Rightarrow> uint \<Rightarrow> int \<Rightarrow> gate \<times> key_db \<times> Registry \<times> (key_err + string \<times> APIKey option)" where
  "Rotate gen env wctx tx now t done_at p g db r i expected =
     (if \<not> requireAPIKeyAdmin p then (g, db, r, Inl KForbidden)
      else if expected \<le> 0 then (g, db, r, Inl (KApp 400 ''invalid_request'' NoParams))
      else case gen of Inl e \<Rightarrow> (g, db, r, Inl (apiKeyPolicyError (Callback e))) | Inr (raw, m) \<Rightarrow>
        (let (g', (db', r', revoked, key), err) = key_budget env wctx g db r i (rotate_fn tx (rotate_audit p expected i) m i now)
         in (g', db', finishPermissionChange t done_at r' revoked,
             case err of Some e \<Rightarrow> Inl (apiKeyPolicyError e) | None \<Rightarrow> Inr (raw, key))))"

definition Delete ::
  "admission \<Rightarrow> bool \<Rightarrow> tx_env \<Rightarrow> time \<Rightarrow> time \<Rightarrow> (uint \<Rightarrow> time option) \<Rightarrow> Principal \<Rightarrow>
   gate \<Rightarrow> key_db \<Rightarrow> Registry \<Rightarrow> uint \<Rightarrow> gate \<times> key_db \<times> Registry \<times> key_err option" where
  "Delete env wctx tx now t done_at p g db r i =
     (if \<not> requireAPIKeyAdmin p then (g, db, r, Some KForbidden)
      else
        let (g', (db', r', revoked, _), err) = key_budget env wctx g db r i (delete_fn tx i now)
        in (g', db', finishPermissionChange t done_at r' revoked, map_option apiKeyPolicyError err))"

text \<open>\<^verbatim>\<open>Validate\<close>: the lookup by hash, and later the admission through the gate, whose callback reloads
  a row that has changed since.\<close>

datatype validate_err = VNotFound | VUnavailable

definition validate_lookup :: "db_failure option \<Rightarrow> key_db \<Rightarrow> string \<Rightarrow> validate_err + APIKey" where
  "validate_lookup err db h =
     (case err of Some _ \<Rightarrow> Inl VUnavailable | None \<Rightarrow>
      case FindByHash db h of None \<Rightarrow> Inl VNotFound | Some k \<Rightarrow> Inr k)"

definition validate_fn :: "db_failure option \<Rightarrow> key_db \<Rightarrow> string \<Rightarrow> int \<Rightarrow> APIKey \<Rightarrow> APIKey \<times> key_err gate_error option" where
  "validate_fn reload_err db h revision key =
     (if revision = 0 then (key, Some (Callback KNotFound))
      else case (if revision \<noteq> k_Revision key
                 then case reload_err of Some e \<Rightarrow> Inl (KDb e) | None \<Rightarrow>
                   (case FindKeyByID db (k_ID key) of None \<Rightarrow> Inl KNotFound | Some k \<Rightarrow> Inr k)
                 else Inr key) of
             Inl e \<Rightarrow> (key, Some (Callback e))
           | Inr k \<Rightarrow> if k_KeyHash k \<noteq> h then (k, Some (Callback KNotFound)) else (k, None))"

definition validate_admit :: "db_failure option \<Rightarrow> admission \<Rightarrow> gate \<Rightarrow> key_db \<Rightarrow> string \<Rightarrow> APIKey \<Rightarrow> gate \<times> (validate_err + APIKey)" where
  "validate_admit reload_err env g db h key =
     (case Admit env g key (k_ID key) (validate_fn reload_err db h) of
        (g', k, None) \<Rightarrow> (g', Inr k)
      | (g', _, Some (Callback KNotFound)) \<Rightarrow> (g', Inl VNotFound)
      | (g', _, Some _) \<Rightarrow> (g', Inl VUnavailable))"

text \<open>The identity the server derives from a validated key (\<^verbatim>\<open>cmd/server/main.go\<close>).\<close>

definition key_principal :: "APIKey \<Rightarrow> Principal" where
  "key_principal k = \<lparr>AuthType = ''api_key'',
     p_UserID = (case k_UserID k of Some u \<Rightarrow> if u \<noteq> 0 then Some u else None | None \<Rightarrow> None), p_Username = [],
     APIKeyID = Some (k_ID k), APIKeyName = k_Name k, APIKeyPrefix = k_KeyPrefix k, p_Role = ''admin'',
     p_ServerIDs = k_ServerIDs k, p_Scopes = k_Scopes k, p_Revision = k_Revision k\<rparr>"

definition Reveal :: "(APIKey \<Rightarrow> key_err + string) \<Rightarrow> db_failure option \<Rightarrow> Principal \<Rightarrow> key_db \<Rightarrow> uint \<Rightarrow> key_err + string" where
  "Reveal decrypt err p db i =
     (if \<not> requireAPIKeyAdmin p then Inl KForbidden
      else case err of Some e \<Rightarrow> Inl (KDb e) | None \<Rightarrow>
      case FindKeyByID db i of
        None \<Rightarrow> Inl (KApp 404 ''api_key_not_found'' NoParams)
      | Some k \<Rightarrow> if k_EncryptedRawKey k = [] then Inl (KApp 404 ''raw_key_unavailable'' NoParams) else decrypt k)"

text \<open>The background assignment of owners: up to \<^verbatim>\<open>maxBatches\<close> batches per wake-up, stopping at a short
  batch, an error or the cancellation of the context. \<open>answers\<close> lists what each batch meets: the
  administrator and the locked rows, an error, or an error after the statement took effect; the context is
  cancelled where the list ends.\<close>

datatype bind_answer =
    Bound "uint option" "uint list"
  | BindLost "uint option" "uint list"
  | BindFailed

fun runBatch :: "nat \<Rightarrow> bind_answer list \<Rightarrow> key_db \<Rightarrow> key_db" where
  "runBatch 0 answers db = db"
| "runBatch (Suc n) [] db = db"
| "runBatch (Suc n) (BindFailed # as) db = db"
| "runBatch (Suc n) (BindLost admin locked # as) db = fst (BindUnownedToDefaultAdmin admin locked db)"
| "runBatch (Suc n) (Bound admin locked # as) db =
     (let (db', changed) = BindUnownedToDefaultAdmin admin locked db
      in if changed < OwnerBackfillBatchSize then db' else runBatch n as db')"

definition maxBatches :: nat where
  "maxBatches = 8"

text \<open>The worker's loop over its wake-ups, by the channel or the ticker, each with its batches' answers.\<close>

definition Run_backfill :: "bind_answer list list \<Rightarrow> key_db \<Rightarrow> key_db" where
  "Run_backfill wakes = fold (runBatch maxBatches) wakes"

section \<open>Sets of permissions\<close>

lemma fold_insert_distinct: "distinct acc \<Longrightarrow> distinct (fold List.insert xs acc) \<and> set (fold List.insert xs acc) = set xs \<union> set acc"
  by (induction xs arbitrary: acc) auto

lemma same_loop_iff:
  "distinct sa \<Longrightarrow> distinct other \<Longrightarrow> set other \<subseteq> set sa \<Longrightarrow> same_loop sa other vs \<longleftrightarrow> set sa = set other \<union> set vs"
proof (induction vs arbitrary: other)
  case Nil
  have "length sa = length other \<longleftrightarrow> set sa = set other"
    using Nil by (metis card_subset_eq distinct_card finite_set)
  then show ?case by simp
next
  case (Cons v vs)
  then show ?case by auto
qed

lemma samePermissionSet_iff: "samePermissionSet a b \<longleftrightarrow> set a = set b"
  using fold_insert_distinct[of "[]" a] same_loop_iff[of "fold List.insert a []" "[]" b]
  by (auto simp: samePermissionSet_def)

lemma uniq_loop_spec: "distinct (uniq_loop seen vs) \<and> set (uniq_loop seen vs) = set vs - set seen"
  by (induction vs arbitrary: seen) auto

lemma uniquePermissions_spec [simp]: "distinct (uniquePermissions vs)" "set (uniquePermissions vs) = set vs"
  using uniq_loop_spec[of "[]" vs] by (simp_all add: uniquePermissions_def)

section \<open>Keys beside the gate\<close>

definition key_answers :: "key_db \<Rightarrow> uint \<Rightarrow> admission \<Rightarrow> bool" where
  "key_answers db i env \<longleftrightarrow> (read_version env = None \<or> read_version env = Some (PermissionsRevision db i)) \<and>
     (read_recovery env = None \<or> read_recovery env = Some (PermissionsRevision db i) \<and> mget (key_open db) i = None)"

text \<open>The row lock of an unresolved transaction.\<close>

definition key_tx :: "key_db \<Rightarrow> uint \<Rightarrow> tx_env \<Rightarrow> bool" where
  "key_tx db i tx \<longleftrightarrow> mget (key_open db) i \<noteq> None \<longrightarrow> read_err tx \<noteq> None \<and> write_err tx \<noteq> None"

inductive key_step :: "gate \<times> key_db \<Rightarrow> gate \<times> key_db \<Rightarrow> bool" where
  k_validate: "key_answers db (k_ID key) env \<Longrightarrow> validate_admit re env g db h key = (g', res) \<Longrightarrow> key_step (g, db) (g', db)"
| k_update: "key_answers db i env \<Longrightarrow> key_tx db i tx \<Longrightarrow>
    key_budget env wctx g db r i (perm_fn tx (perm_change json (servers db) le p inp i) i now) = (g', (db', w), e) \<Longrightarrow>
    key_step (g, db) (g', db')"
| k_rotate: "key_answers db i env \<Longrightarrow> key_tx db i tx \<Longrightarrow>
    key_budget env wctx g db r i (rotate_fn tx (rotate_audit p expected i) m i now) = (g', (db', w), e) \<Longrightarrow>
    key_step (g, db) (g', db')"
| k_delete: "key_answers db i env \<Longrightarrow> key_tx db i tx \<Longrightarrow>
    key_budget env wctx g db r i (delete_fn tx i now) = (g', (db', w), e) \<Longrightarrow> key_step (g, db) (g', db')"
| k_recover: "key_answers db i env \<Longrightarrow>
    (Recover env g () i :: gate \<times> unit \<times> key_err gate_error option) = (g', (), e) \<Longrightarrow> key_step (g, db) (g', db)"
| k_create: "Create gen ex ie p now name scopes sids db = (db', res) \<Longrightarrow> key_step (g, db) (g, db')"
| k_backfill: "\<forall>i. mget (key_open db) i \<noteq> None \<longrightarrow> i \<in> set locked \<Longrightarrow>
    key_step (g, db) (g, fst (BindUnownedToDefaultAdmin admin locked db))"
| k_commit: "mget (key_open db) i = Some (row, evs) \<Longrightarrow>
    key_step (g, db) (g, db\<lparr>keys := apply_row i row (keys db), audits := audits db @ evs, key_open := mdel i (key_open db)\<rparr>)"
| k_rollback: "key_step (g, db) (g, db\<lparr>key_open := mdel i (key_open db)\<rparr>)"
| k_restart: "key_step (g, db) ([], db)"

definition creds :: "APIKey \<Rightarrow> string \<times> string list \<times> uint list" where
  "creds k = (k_KeyHash k, k_Scopes k, k_ServerIDs k)"

definition row_ok :: "uint \<Rightarrow> uint \<Rightarrow> APIKey \<Rightarrow> bool" where
  "row_ok s i k \<longleftrightarrow> i < s \<and> k_ID k = i \<and> 0 < k_Revision k \<and> k_Revision k \<le> max_int64"

definition next_row :: "APIKey \<Rightarrow> APIKey option \<Rightarrow> bool" where
  "next_row k r \<longleftrightarrow> (\<forall>k'. r = Some k' \<longrightarrow> k_Revision k' = k_Revision k + 1 \<and> k_Revision k < max_int64 \<and> k_ID k' = k_ID k)"

definition keys_ok :: "key_db \<Rightarrow> bool" where
  "keys_ok db \<longleftrightarrow> mok (keys db) \<and> (\<forall>i k. mget (keys db) i = Some k \<longrightarrow> row_ok (key_seq db) i k) \<and>
     (\<forall>i r evs. mget (key_open db) i = Some (r, evs) \<longrightarrow> r = None \<or> (\<exists>k. mget (keys db) i = Some k \<and> next_row k r))"

definition key_inv :: "gate \<times> key_db \<Rightarrow> bool" where
  "key_inv x \<longleftrightarrow> keys_ok (snd x) \<and> (\<forall>i. mget (key_open (snd x)) i \<noteq> None \<longrightarrow> fenced (fst x) i)"

definition key_init :: "gate \<times> key_db \<Rightarrow> bool" where
  "key_init x \<longleftrightarrow> fst x = [] \<and> keys_ok (snd x) \<and> key_open (snd x) = []"

text \<open>How a row may change: a row with the same revision is the same credential, revisions grow, and a
  deleted id never returns.\<close>

definition row_le :: "APIKey option \<Rightarrow> APIKey option \<Rightarrow> bool" where
  "row_le a b \<longleftrightarrow> (case (a, b) of
      (None, x) \<Rightarrow> x = None
    | (Some k, None) \<Rightarrow> True
    | (Some k, Some k') \<Rightarrow> k_Revision k \<le> k_Revision k' \<and> (k_Revision k = k_Revision k' \<longrightarrow> creds k = creds k'))"

definition db_le :: "key_db \<Rightarrow> key_db \<Rightarrow> bool" where
  "db_le db db' \<longleftrightarrow> key_seq db \<le> key_seq db' \<and> (\<forall>i < key_seq db. row_le (mget (keys db) i) (mget (keys db') i))"

lemma row_le_refl [simp]: "row_le a a"
  by (auto simp: row_le_def split: option.splits)

lemma row_le_None: "row_le a None"
  by (simp add: row_le_def split: option.splits)

lemma keys_ok_row: "keys_ok db \<Longrightarrow> mget (keys db) i = Some k \<Longrightarrow> row_ok (key_seq db) i k"
  by (simp add: keys_ok_def)

lemma row_le_trans: "row_le a b \<Longrightarrow> row_le b c \<Longrightarrow> row_le a c"
  by (auto simp: row_le_def split: option.splits)

lemma row_le_next: "next_row k r \<Longrightarrow> row_le (Some k) r"
  by (cases r) (simp_all add: row_le_def next_row_def)

lemma db_le_refl [simp]: "db_le db db"
  by (simp add: db_le_def)

lemma db_le_trans: "db_le a b \<Longrightarrow> db_le b c \<Longrightarrow> db_le a c"
  by (auto simp: db_le_def intro: row_le_trans)

lemma mget_apply_row: "mget (apply_row i r m) j = (if j = i then r else mget m j)"
  by (auto simp: apply_row_def gm_laws split: option.splits)

lemma mok_apply_row: "mok m \<Longrightarrow> mok (apply_row i r m)"
  by (auto simp: apply_row_def gm_laws split: option.splits)

text \<open>What a mutation of key \<open>i\<close> may do to the table: nothing, install the next row or a deletion,
  or leave it unresolved.\<close>

definition mutates :: "key_db \<Rightarrow> uint \<Rightarrow> key_db \<Rightarrow> bool \<Rightarrow> bool" where
  "mutates db i db' unc \<longleftrightarrow> (db' = db \<and> \<not> unc) \<or>
     (\<exists>r evs. mget (key_open db) i = None \<and> (r = None \<or> (\<exists>k. mget (keys db) i = Some k \<and> next_row k r)) \<and>
        (db' = db\<lparr>keys := apply_row i r (keys db), audits := audits db @ evs\<rparr> \<and> \<not> unc \<or>
         db' = db\<lparr>key_open := mput i (r, evs) (key_open db)\<rparr> \<and> unc))"

lemma key_tx_free: "key_tx db i tx \<Longrightarrow> read_err tx = None \<or> write_err tx = None \<Longrightarrow> mget (key_open db) i = None"
  by (cases "mget (key_open db) i") (auto simp: key_tx_def)

lemma commit_key_mutates:
  assumes "commit_key tx i r evs db = (db', e)" "mget (key_open db) i = None"
    and "r = None \<or> (\<exists>k. mget (keys db) i = Some k \<and> next_row k r)"
  shows "mutates db i db' (e = Some KCommitUnknown)"
  using assms by (auto simp: commit_key_def mutates_def split: option.splits if_splits)

definition bumps :: "(APIKey \<Rightarrow> key_err + APIKey \<times> AuditEvent option) \<Rightarrow> bool" where
  "bumps change \<longleftrightarrow> (\<forall>row key ev. change row = Inr (key, Some ev) \<longrightarrow>
     k_Revision key = k_Revision row \<and> k_Revision row \<noteq> max_int64 \<and> k_ID key = k_ID row) \<and>
     (\<forall>row. change row \<noteq> Inl KCommitUnknown)"

lemma wrap64_succ: "0 < n \<Longrightarrow> n \<le> max_int64 \<Longrightarrow> n \<noteq> max_int64 \<Longrightarrow> wrap64 (n + 1) = n + 1"
  by (rule wrap64_id) (simp_all add: min_int64_def max_int64_def)

lemma repo_UpdatePermissions_mutates:
  assumes run: "repo_UpdatePermissions tx now change i db = (db', res)" and ok: "keys_ok db" and tx: "key_tx db i tx" and b: "bumps change"
  shows "mutates db i db' (res = Inl KCommitUnknown)"
proof -
  have same: "mutates db i db False" by (simp add: mutates_def)
  have nk: "x \<noteq> KCommitUnknown" if "change row = Inl x" for row x using b that by (auto simp: bumps_def)
  have bump: "k_Revision key = k_Revision row \<and> k_Revision row \<noteq> max_int64" if "change row = Inr (key, Some ev)" for row key ev
    using b that unfolding bumps_def by blast
  consider (quiet) "db' = db" "res \<noteq> Inl KCommitUnknown"
    | (commit) row key ev e where "mget (keys db) i = Some row" "change row = Inr (key, Some ev)" "read_err tx = None"
        "commit_key tx i (Some (row\<lparr>k_Revision := wrap64 (k_Revision key + 1), k_UpdatedAt := Some now,
            k_Scopes := k_Scopes key, k_ServerIDs := k_ServerIDs key\<rparr>)) [ev] db = (db', e)"
        "(res = Inl KCommitUnknown) = (e = Some KCommitUnknown)"
    using run
    by (auto simp: repo_UpdatePermissions_def written_columns Let_def dest: nk split: option.splits sum.splits prod.splits if_splits)
  then show ?thesis
  proof cases
    case quiet
    then show ?thesis using same by simp
  next
    case commit
    have "mget (key_open db) i = None" using key_tx_free[OF tx] commit(3) by blast
    moreover have "next_row row (Some (row\<lparr>k_Revision := wrap64 (k_Revision key + 1), k_UpdatedAt := Some now,
            k_Scopes := k_Scopes key, k_ServerIDs := k_ServerIDs key\<rparr>))"
      using bump[OF commit(2)] keys_ok_row[OF ok commit(1)] wrap64_succ[of "k_Revision row"] by (auto simp: next_row_def row_ok_def)
    ultimately show ?thesis using commit_key_mutates[OF commit(4)] commit(1,5) by auto
  qed
qed

lemma requested_servers_known: "requested_servers sv le inp key \<noteq> Inl KCommitUnknown"
  by (auto simp: requested_servers_def server_ids_of_def Let_def split: option.splits if_splits)

lemma perm_change_bumps: "bumps (perm_change json sv le p inp i)"
proof -
  have "x \<noteq> KCommitUnknown" if "requested_servers sv le inp row = Inl x" for row x
    using that requested_servers_known[of sv le inp row] by auto
  then show ?thesis
    by (auto simp: bumps_def perm_change_def revision_conflict_def Let_def split: sum.splits if_splits)
qed

lemma repo_Rotate_mutates:
  assumes run: "repo_Rotate tx (rotate_audit p expected i) m i db = (db', res)" and ok: "keys_ok db" and tx: "key_tx db i tx"
  shows "mutates db i db' (res = Inl KCommitUnknown)"
proof -
  have same: "mutates db i db False" by (simp add: mutates_def)
  have nk: "x \<noteq> KCommitUnknown" if "rotate_audit p expected i row = Inl x" for row x
    using that by (auto simp: rotate_audit_def revision_conflict_def split: if_splits)
  have nm: "k_Revision row \<noteq> max_int64" if "rotate_audit p expected i row = Inr ev" for row ev
    using that by (auto simp: rotate_audit_def split: if_splits)
  let ?new = "\<lambda>row. row\<lparr>k_Revision := wrap64 (k_Revision row + 1), k_KeyHash := k_KeyHash m,
                 k_KeyPrefix := k_KeyPrefix m, k_EncryptedRawKey := k_EncryptedRawKey m,
                 k_Salt := k_Salt m, k_CryptoVersion := k_CryptoVersion m\<rparr>"
  consider (quiet) "db' = db" "res \<noteq> Inl KCommitUnknown"
    | (commit) row ev e where "mget (keys db) i = Some row" "rotate_audit p expected i row = Inr ev" "read_err tx = None"
        "commit_key tx i (Some (?new row)) [ev] db = (db', e)"
        "(res = Inl KCommitUnknown) = (e = Some KCommitUnknown)"
    using run
    by (auto simp: repo_Rotate_def Let_def dest: nk split: option.splits sum.splits prod.splits if_splits)
  then show ?thesis
  proof cases
    case quiet
    then show ?thesis using same by simp
  next
    case commit
    have "mget (key_open db) i = None" using key_tx_free[OF tx] commit(3) by blast
    moreover have "next_row row (Some (?new row))"
      using nm[OF commit(2)] keys_ok_row[OF ok commit(1)] wrap64_succ[of "k_Revision row"] by (auto simp: next_row_def row_ok_def)
    ultimately show ?thesis using commit_key_mutates[OF commit(4)] commit(1,5) by auto
  qed
qed

lemma repo_Delete_mutates:
  assumes "repo_Delete tx i db = (db', e)" and "key_tx db i tx"
  shows "mutates db i db' (e = Some KCommitUnknown)"
proof -
  have "mutates db i db False" by (simp add: mutates_def)
  then show ?thesis using assms(1) commit_key_mutates[of tx i None "[]" db db' e] key_tx_free[OF assms(2)]
    by (auto simp: repo_Delete_def split: option.splits)
qed

text \<open>The gate around a mutation: the fence follows the uncertainty of what reached the table.\<close>

definition mutator :: "key_db \<Rightarrow> uint \<Rightarrow> (key_world, key_err) gate_fn \<Rightarrow> bool" where
  "mutator db i fn \<longleftrightarrow> (\<forall>v r h u. mutates db i (fst (fst (fn v (db, r, h, u)))) (fst (snd (fn v (db, r, h, u)))))"

lemma key_budget_mutates:
  assumes "key_budget env wctx g db r i fn = (g', (db', w), e)" and "mutator db i fn"
  shows "\<exists>unc. mutates db i db' unc \<and> (unc \<longrightarrow> fenced g' i) \<and> (\<forall>j. j \<noteq> i \<longrightarrow> fenced g' j = fenced g j) \<and>
    (fenced g' i \<or> \<not> fenced g i \<or> read_recovery env \<noteq> None)"
proof -
  let ?fn = "\<lambda>v w. if wctx then (w, False, Some CtxErr) else fn v w"
  have U: "withUser env g (db, r, [], None) i ?fn = (g', (db', w), e)"
    using assms(1) by (simp add: key_budget_def UpdateWithBudget_def Update_def apiKeyMutationBudget_def second_def)
  have other: "\<forall>j. j \<noteq> i \<longrightarrow> fenced g' j = fenced g j" using withUser_other[OF U] by blast
  have none: "mutates db i db False" by (simp add: mutates_def)
  from U show ?thesis
  proof (cases rule: withUser_cases[where v = 0])
    case refused
    then show ?thesis using other none by (intro exI[of _ False]) auto
  next
    case (ran v unc err)
    have "mutates db i db' unc"
      using ran(2) none assms(2)[unfolded mutator_def, rule_format, of v r "[]" None] by (auto split: if_splits)
    then show ?thesis using ran other by (intro exI[of _ unc]) (auto split: if_splits)
  qed
qed

lemma callbacks_mutate:
  assumes "keys_ok db" and "key_tx db i tx"
  shows "mutator db i (perm_fn tx (perm_change json sv le p inp i) i now)"
    and "mutator db i (rotate_fn tx (rotate_audit p expected i) m i now)"
    and "mutator db i (delete_fn tx i now)"
  unfolding mutator_def
  using repo_UpdatePermissions_mutates[OF _ assms perm_change_bumps] repo_Rotate_mutates[OF _ assms] repo_Delete_mutates[OF _ assms(2)]
  by (auto simp: perm_fn_def rotate_fn_def delete_fn_def Let_def split: prod.splits)

lemma mutates_step:
  assumes "mutates db i db' unc" "keys_ok db"
  shows "keys_ok db' \<and> db_le db db' \<and> (\<forall>j. mget (key_open db') j \<noteq> None \<longrightarrow> mget (key_open db) j \<noteq> None \<or> (j = i \<and> unc))"
proof -
  have row: "row_ok (key_seq db) i k'" if "mget (keys db) i = Some k" "next_row k (Some k')" for k k'
  proof -
    have "row_ok (key_seq db) i k" using that(1) assms(2) by (simp add: keys_ok_def)
    then show ?thesis using that(2) by (simp add: row_ok_def next_row_def)
  qed
  have le: "row_le (mget (keys db) i) r" if "r = None \<or> (\<exists>k. mget (keys db) i = Some k \<and> next_row k r)" for r
    using that row_le_next row_le_None by metis
  from assms(1) consider "db' = db"
    | (commit) r evs where "mget (key_open db) i = None" "r = None \<or> (\<exists>k. mget (keys db) i = Some k \<and> next_row k r)"
        "db' = db\<lparr>keys := apply_row i r (keys db), audits := audits db @ evs\<rparr>"
    | (lost) r evs where "mget (key_open db) i = None" "r = None \<or> (\<exists>k. mget (keys db) i = Some k \<and> next_row k r)"
        "db' = db\<lparr>key_open := mput i (r, evs) (key_open db)\<rparr>" "unc"
    unfolding mutates_def by blast
  then show ?thesis
  proof cases
    case 1
    then show ?thesis using assms(2) by simp
  next
    case commit
    have "keys_ok db'" unfolding keys_ok_def
    proof (intro conjI allI impI)
      show "mok (keys db')" using commit(3) assms(2) by (simp add: mok_apply_row keys_ok_def)
      fix j k assume "mget (keys db') j = Some k"
      then show "row_ok (key_seq db') j k"
        using commit(2,3) assms(2) row by (auto simp: mget_apply_row keys_ok_def split: if_splits)
    next
      fix j q es assume o: "mget (key_open db') j = Some (q, es)"
      then have "j \<noteq> i" using commit(1,3) by auto
      then show "q = None \<or> (\<exists>k. mget (keys db') j = Some k \<and> next_row k q)"
        using o commit(3) assms(2) by (simp add: mget_apply_row keys_ok_def)
    qed
    moreover have "db_le db db'" using le[OF commit(2)] commit(3) by (auto simp: db_le_def mget_apply_row)
    ultimately show ?thesis using commit(3) by simp
  next
    case lost
    then show ?thesis using assms(2) by (auto simp: keys_ok_def db_le_def)
  qed
qed

lemma validate_admit_gate:
  assumes "validate_admit re env g db h key = (g', res)"
  shows "fst (Admit env g key (k_ID key) (validate_fn re db h)) = g'"
  using assms by (auto simp: validate_admit_def split: prod.splits option.splits gate_error.splits key_err.splits)

lemma admit_fence:
  assumes "withUser env g w i (\<lambda>v w. let (w', e) = fn v w in (w', False, e)) = (g', w', e)"
    and "key_answers db i env" and "\<forall>j. mget (key_open db) j \<noteq> None \<longrightarrow> fenced g j"
  shows "\<forall>j. mget (key_open db) j \<noteq> None \<longrightarrow> fenced g' j"
proof (intro allI impI)
  fix j assume o: "mget (key_open db) j \<noteq> None"
  show "fenced g' j"
  proof (cases "j = i")
    case False
    then show ?thesis using withUser_other[OF assms(1) False] assms(3) o by simp
  next
    case True
    from assms(1) show ?thesis
    proof (cases rule: withUser_cases[where v = 0])
      case refused
      then show ?thesis using assms(3) o True by simp
    next
      case (ran v unc err)
      then have "read_recovery env = Some v" using assms(3) o True by (simp split: if_splits)
      then show ?thesis using assms(2) o True by (simp add: key_answers_def)
    qed
  qed
qed

lemma mget_map_values: "mget (map (\<lambda>(i, k). (i, f i k)) m) j = map_option (f j) (mget m j)"
  by (induction m) auto

lemma backfill_step:
  assumes "keys_ok db" and "\<forall>i. mget (key_open db) i \<noteq> None \<longrightarrow> i \<in> set locked"
    and db'_def: "db' = fst (BindUnownedToDefaultAdmin admin locked db)"
  shows "keys_ok db' \<and> db_le db db' \<and> key_open db' = key_open db"
proof (cases admin)
  case None
  then show ?thesis using assms(1) by (simp add: db'_def BindUnownedToDefaultAdmin_def)
next
  case (Some a)
  define f where "f i k = (if i \<in> set (backfill_batch locked db) then k\<lparr>k_UserID := Some a, k_OwnerBinding := 1\<rparr> else k)" for i and k :: APIKey
  have k: "keys db' = map (\<lambda>(i, k). (i, f i k)) (keys db)" and o: "key_open db' = key_open db" "key_seq db' = key_seq db"
    using Some by (simp_all add: db'_def BindUnownedToDefaultAdmin_def f_def Let_def)
  have g: "mget (keys db') j = map_option (f j) (mget (keys db) j)" for j by (simp add: k mget_map_values)
  have f: "k_Revision (f i k) = k_Revision k" "k_ID (f i k) = k_ID k" "creds (f i k) = creds k" for i k
    by (auto simp: f_def creds_def)
  have nr: "next_row (f i k) r = next_row k r" for i k r by (simp add: next_row_def f)
  have "mok (keys db')" using assms(1) by (simp add: keys_ok_def mok_def k case_prod_unfold comp_def)
  moreover have "row_ok (key_seq db') i k'" if "mget (keys db') i = Some k'" for i k'
    using that assms(1) by (auto simp: g keys_ok_def row_ok_def f o)
  moreover have "r = None \<or> (\<exists>k. mget (keys db') i = Some k \<and> next_row k r)" if "mget (key_open db') i = Some (r, evs)" for i r evs
  proof -
    have "r = None \<or> (\<exists>k. mget (keys db) i = Some k \<and> next_row k r)"
      using that assms(1) unfolding o keys_ok_def by blast
    then show ?thesis using nr by (auto simp: g)
  qed
  ultimately have "keys_ok db'" unfolding keys_ok_def by blast
  moreover have "db_le db db'" by (auto simp: db_le_def o g row_le_def f split: option.splits)
  ultimately show ?thesis using o by simp
qed

lemma create_step:
  assumes "Create gen ex ie p now name scopes sids db = (db', res)" and "keys_ok db"
  shows "keys_ok db' \<and> db_le db db' \<and> key_open db' = key_open db"
proof -
  have "db' = db \<or> (\<exists>k. db' = db\<lparr>keys := mput (key_seq db) k (keys db), key_seq := key_seq db + 1\<rparr> \<and> k_ID k = key_seq db \<and> k_Revision k = 1)"
    using assms(1) by (auto simp: Create_def new_key_def Let_def split: if_splits sum.splits option.splits prod.splits)
  then show ?thesis
  proof (elim disjE exE conjE)
    assume "db' = db"
    then show ?thesis using assms(2) by simp
  next
    fix k assume d: "db' = db\<lparr>keys := mput (key_seq db) k (keys db), key_seq := key_seq db + 1\<rparr>" "k_ID k = key_seq db" "k_Revision k = 1"
    have fresh: "mget (keys db) (key_seq db) = None"
      using keys_ok_row[OF assms(2)] by (cases "mget (keys db) (key_seq db)") (auto simp: row_ok_def)
    have "row_ok (key_seq db') i q" if "mget (keys db') i = Some q" for i q
      using that keys_ok_row[OF assms(2), of i q] d by (auto simp: row_ok_def max_int64_def split: if_splits)
    moreover have "r = None \<or> (\<exists>k. mget (keys db') i = Some k \<and> next_row k r)" if "mget (key_open db') i = Some (r, evs)" for i r evs
    proof -
      have "r = None \<or> (\<exists>k. mget (keys db) i = Some k \<and> next_row k r)"
        using that assms(2) d unfolding keys_ok_def by auto
      then show ?thesis using fresh d by auto
    qed
    moreover have "mok (keys db')" using assms(2) d by (simp add: keys_ok_def)
    ultimately have "keys_ok db'" unfolding keys_ok_def by blast
    moreover have "db_le db db'" using d by (auto simp: db_le_def)
    ultimately show ?thesis using d by simp
  qed
qed

lemma commit_open_step:
  assumes "mget (key_open db) i = Some (row, evs)" and "keys_ok db"
    and d: "db' = db\<lparr>keys := apply_row i row (keys db), audits := audits db @ evs, key_open := mdel i (key_open db)\<rparr>"
  shows "keys_ok db' \<and> db_le db db'"
proof -
  have r: "row = None \<or> (\<exists>k. mget (keys db) i = Some k \<and> next_row k row)"
    using assms(1,2) unfolding keys_ok_def by blast
  then have "mutates (db\<lparr>key_open := mdel i (key_open db)\<rparr>) i db' False"
    unfolding mutates_def by (intro disjI2 exI[of _ row] exI[of _ evs]) (simp add: d)
  moreover have "keys_ok (db\<lparr>key_open := mdel i (key_open db)\<rparr>)"
    using assms(2) by (auto simp: keys_ok_def)
  ultimately have "keys_ok db' \<and> db_le (db\<lparr>key_open := mdel i (key_open db)\<rparr>) db'"
    using mutates_step by blast
  then show ?thesis by (simp add: db_le_def)
qed

lemma key_mutation_step:
  assumes "key_inv (g, db)" "key_answers db i env" "mutator db i fn"
    and "key_budget env wctx g db r i fn = (g', (db', w), e)"
  shows "key_inv (g', db') \<and> db_le db db'"
proof -
  obtain unc where m: "mutates db i db' unc" "unc \<longrightarrow> fenced g' i" "\<forall>j. j \<noteq> i \<longrightarrow> fenced g' j = fenced g j"
    "fenced g' i \<or> \<not> fenced g i \<or> read_recovery env \<noteq> None"
    using key_budget_mutates[OF assms(4,3)] by blast
  have ok: "keys_ok db" and f: "\<forall>j. mget (key_open db) j \<noteq> None \<longrightarrow> fenced g j"
    using assms(1) by (simp_all add: key_inv_def)
  note st = mutates_step[OF m(1) ok]
  have "fenced g' j" if o: "mget (key_open db') j \<noteq> None" for j
  proof (cases "j = i")
    case False
    then show ?thesis using st o m(3) f by metis
  next
    case True
    have "mget (key_open db) i \<noteq> None \<or> unc" using st o True by blast
    moreover have "fenced g' i" if "mget (key_open db) i \<noteq> None"
    proof -
      have "read_recovery env = None" using that assms(2) by (auto simp: key_answers_def)
      then show ?thesis using that f m(4) by auto
    qed
    ultimately show ?thesis using m(2) True by blast
  qed
  then show ?thesis using st by (simp add: key_inv_def)
qed

lemma key_step_inv:
  assumes "key_step x y" and inv: "key_inv x"
  shows "key_inv y \<and> db_le (snd x) (snd y)"
  using assms(1)
proof cases
  case (k_validate db key env re g h g' res)
  obtain w e where "Admit env g key (k_ID key) (validate_fn re db h) = (g', w, e)"
    using validate_admit_gate[OF k_validate(4)] by (metis prod.collapse)
  from admit_fence[OF this[unfolded Admit_def] k_validate(3)] show ?thesis
    using inv k_validate(1,2) by (simp add: key_inv_def)
next
  case (k_update db i env tx wctx g r json le p inp now g' db' w e)
  have ok: "keys_ok db" using inv k_update(1) by (simp add: key_inv_def)
  show ?thesis using key_mutation_step[OF _ k_update(3) callbacks_mutate(1)[OF ok k_update(4)] k_update(5)] inv k_update(1,2) by simp
next
  case (k_rotate db i env tx wctx g r p expected m now g' db' w e)
  have ok: "keys_ok db" using inv k_rotate(1) by (simp add: key_inv_def)
  show ?thesis using key_mutation_step[OF _ k_rotate(3) callbacks_mutate(2)[OF ok k_rotate(4)] k_rotate(5)] inv k_rotate(1,2) by simp
next
  case (k_delete db i env tx wctx g r now g' db' w e)
  have ok: "keys_ok db" using inv k_delete(1) by (simp add: key_inv_def)
  show ?thesis using key_mutation_step[OF _ k_delete(3) callbacks_mutate(3)[OF ok k_delete(4)] k_delete(5)] inv k_delete(1,2) by simp
next
  case (k_recover db i env g g' e)
  from admit_fence[OF k_recover(4)[unfolded Recover_def Admit_def] k_recover(3)] show ?thesis
    using inv k_recover(1,2) by (simp add: key_inv_def)
next
  case (k_create gen ex ie p now name scopes sids db db' res g)
  then show ?thesis using create_step[OF k_create(3)] inv by (simp add: key_inv_def)
next
  case (k_backfill db locked g admin)
  then show ?thesis using backfill_step[OF _ k_backfill(3) refl] inv by (simp add: key_inv_def)
next
  case (k_commit db i row evs g)
  then show ?thesis using commit_open_step[OF k_commit(3) _ refl] inv by (auto simp: key_inv_def)
next
  case (k_rollback g db i)
  then show ?thesis using inv by (auto simp: key_inv_def keys_ok_def db_le_def)
next
  case (k_restart g db)
  then show ?thesis using inv by (simp add: key_inv_def fenced_def)
qed

interpretation keysys: transition_system key_init key_step key_inv
  by unfold_locales (auto simp: key_init_def key_inv_def dest: key_step_inv)

lemma key_steps_le: "key_step\<^sup>*\<^sup>* x y \<Longrightarrow> key_inv x \<Longrightarrow> key_inv y \<and> db_le (snd x) (snd y)"
  by (induction rule: rtranclp_induct) (auto dest: key_step_inv intro: db_le_trans)

lemma FindByHash_row:
  assumes "FindByHash db h = Some k" "keys_ok db"
  shows "mget (keys db) (k_ID k) = Some k \<and> k_KeyHash k = h \<and> k_ID k < key_seq db"
proof -
  obtain i where i: "(i, k) \<in> set (keys db)" and h: "k_KeyHash k = h"
    using assms(1) by (auto simp: FindByHash_def find_Some_iff in_set_conv_nth)
      (metis nth_mem prod.collapse)
  have m: "mget (keys db) i = Some k" using i assms(2) by (simp add: keys_ok_def mok_def)
  then show ?thesis using keys_ok_row[OF assms(2) m] h by (simp add: row_ok_def)
qed

text \<open>C3. A validated key is current. Whatever happens between the lookup of a raw key by its hash and
  its admission, in any interleaving of permission changes, rotations, deletions, unknown commits, restarts
  and owner backfills: the key that validation returns has the hash of the presented secret, and exactly the
  scopes, servers and revision its row has in the database now, with no change of it unresolved.\<close>

theorem validated_key_current:
  assumes "reach key_init key_step (g0, db0)" and "validate_lookup le db0 h = Inr key"
    and "key_step\<^sup>*\<^sup>* (g0, db0) (g, db)" and "key_answers db (k_ID key) env"
    and "validate_admit re env g db h key = (g', Inr k)"
  shows "\<exists>row. mget (keys db) (k_ID key) = Some row \<and> k_KeyHash row = h \<and> k_KeyHash k = h \<and>
    k_Scopes k = k_Scopes row \<and> k_ServerIDs k = k_ServerIDs row \<and> k_Revision k = k_Revision row \<and> k_ID k = k_ID key \<and>
    mget (key_open db) (k_ID key) = None"
proof -
  have inv0: "key_inv (g0, db0)" using keysys.reach_inv[OF assms(1)] .
  have inv: "key_inv (g, db)" and le: "db_le db0 db" using key_steps_le[OF assms(3) inv0] by auto
  have row0: "mget (keys db0) (k_ID key) = Some key" "k_KeyHash key = h" "k_ID key < key_seq db0"
    using assms(2) FindByHash_row[of db0 h key] inv0
    by (auto simp: validate_lookup_def key_inv_def split: option.splits)
  have ad: "Admit env g key (k_ID key) (validate_fn re db h) = (g', k, None)"
    using assms(5) by (auto simp: validate_admit_def split: prod.splits option.splits gate_error.splits key_err.splits)
  from Admit_success[OF ad] obtain v where
    v: "(if fenced g (k_ID key) then read_recovery env else read_version env) = Some v" "validate_fn re db h v key = (k, None)" by blast
  have src: "v = PermissionsRevision db (k_ID key)"
    using v(1) assms(4) unfolding key_answers_def by (metis option.distinct(1) option.inject)
  have o: "mget (key_open db) (k_ID key) = None"
  proof (rule ccontr)
    assume n: "mget (key_open db) (k_ID key) \<noteq> None"
    then have "fenced g (k_ID key)" using inv by (simp add: key_inv_def)
    then show False using n v(1) assms(4) by (simp add: key_answers_def)
  qed
  have "v \<noteq> 0" using v(2) by (auto simp: validate_fn_def)
  then obtain row where row: "mget (keys db) (k_ID key) = Some row" "k_Revision row = v"
    using src by (auto simp: PermissionsRevision_def split: option.splits)
  have idr: "k_ID row = k_ID key" using keys_ok_row[OF _ row(1)] inv by (simp add: key_inv_def row_ok_def)
  show ?thesis
  proof (cases "v = k_Revision key")
    case True
    have "row_le (Some key) (Some row)" using le row0(1,3) row(1) unfolding db_le_def by metis
    then have "creds key = creds row" using True row(2) by (simp add: row_le_def)
    moreover have "k = key" using v(2) True \<open>v \<noteq> 0\<close> by (auto simp: validate_fn_def split: if_splits)
    ultimately show ?thesis using row row0 o True by (simp add: creds_def)
  next
    case False
    then have "k = row" "k_KeyHash row = h" using v(2) row(1) \<open>v \<noteq> 0\<close>
      by (auto simp: validate_fn_def FindKeyByID_def split: if_splits option.splits)
    then show ?thesis using row idr o by simp
  qed
qed

definition demo_key :: APIKey where
  "demo_key = \<lparr>k_ID = 3, k_UserID = Some 1, k_OwnerBinding = 1, k_Name = ''ci'', k_KeyHash = ''h'', k_KeyPrefix = ''p'',
     k_Scopes = [''servers:read''], k_ServerIDs = [], k_EncryptedRawKey = ''x'', k_Salt = [], k_CryptoVersion = 1,
     k_Revision = 4, k_UpdatedAt = None\<rparr>"

definition demo_keys :: key_db where
  "demo_keys = \<lparr>keys = [(3, demo_key)], key_open = [], key_seq = 5, audits = [], servers = [9]\<rparr>"

lemma demo_keys_reach: "reach key_init key_step ([], demo_keys)"
proof (rule reach_init)
  have "row_ok 5 3 demo_key" by code_simp
  then show "key_init ([], demo_keys)"
    by (auto simp: key_init_def keys_ok_def demo_keys_def mok_def split: if_splits)
qed

theorem validated_key_current_witness:
  "snd (validate_admit None (gate_env None (Some 4)) [] demo_keys ''h'' demo_key) = Inr demo_key \<and>
   (\<exists>row. mget (keys demo_keys) 3 = Some row \<and> k_KeyHash row = ''h'' \<and> k_Scopes demo_key = k_Scopes row)"
proof -
  let ?v = "validate_admit None (gate_env None (Some 4)) [] demo_keys ''h'' demo_key"
  have l: "validate_lookup None demo_keys ''h'' = Inr demo_key" by code_simp
  have a: "key_answers demo_keys (k_ID demo_key) (gate_env None (Some 4))" by code_simp
  have "snd ?v = Inr demo_key" by code_simp
  then have v: "?v = (fst ?v, Inr demo_key)" by (simp add: prod_eq_iff)
  have i: "k_ID demo_key = 3" by (simp add: demo_key_def)
  show ?thesis
    using validated_key_current[OF demo_keys_reach l rtranclp.rtrancl_refl a v] v unfolding i by (metis snd_conv)
qed

section \<open>The outcome of a permission change\<close>

definition requested :: "'a list option \<Rightarrow> 'a list \<Rightarrow> 'a set" where
  "requested r old = (case r of None \<Rightarrow> set old | Some xs \<Rightarrow> set xs)"

lemma server_ids_of_spec:
  assumes "server_ids_of sv le old req = Inr ids"
  shows "set ids = set req \<and> (\<forall>v\<in>set ids. v \<in> set old \<or> v \<in> set sv)"
proof -
  let ?added = "filter (\<lambda>v. v \<notin> set old) (sort (uniquePermissions req))"
  have ids: "ids = sort (uniquePermissions req)"
    and "?added = [] \<or> length (filter (\<lambda>v. v \<in> set sv) ?added) = length ?added"
    using assms by (simp_all add: server_ids_of_def Let_def split: if_splits option.splits)
  then have "\<forall>v\<in>set ?added. v \<in> set sv" by (metis length_filter_less less_irrefl list.set(1) empty_iff)
  then show ?thesis using ids by auto
qed

lemma perm_change_spec:
  assumes "perm_change json sv le p inp i row = Inr (key, evo)"
  shows "k_Revision row = ExpectedRevision inp \<and> k_Revision row \<noteq> max_int64 \<and>
    key = row\<lparr>k_Scopes := k_Scopes key, k_ServerIDs := k_ServerIDs key\<rparr> \<and>
    set (k_Scopes key) = requested (in_Scopes inp) (k_Scopes row) \<and>
    set (k_ServerIDs key) = requested (in_ServerIDs inp) (k_ServerIDs row) \<and>
    (\<forall>v\<in>set (k_ServerIDs key). v \<in> set (k_ServerIDs row) \<or> v \<in> set sv) \<and>
    (evo = None \<longleftrightarrow> set (k_Scopes key) = set (k_Scopes row) \<and> set (k_ServerIDs key) = set (k_ServerIDs row)) \<and>
    (evo = None \<longrightarrow> key = row)"
proof -
  have rev: "k_Revision row = ExpectedRevision inp" "k_Revision row \<noteq> max_int64"
    using assms by (auto simp: perm_change_def split: if_splits)
  obtain ids where i: "requested_servers sv le inp row = Inr ids"
    using assms rev by (auto simp: perm_change_def split: sum.splits)
  let ?key = "row\<lparr>k_Scopes := requested_scopes inp row, k_ServerIDs := ids\<rparr>"
  let ?same = "set (k_Scopes row) = set (requested_scopes inp row) \<and> set (k_ServerIDs row) = set ids"
  have s: "set (requested_scopes inp row) = requested (in_Scopes inp) (k_Scopes row)"
    by (simp add: requested_scopes_def requested_def split: option.splits)
  have ids: "set ids = requested (in_ServerIDs inp) (k_ServerIDs row)" "\<forall>v\<in>set ids. v \<in> set (k_ServerIDs row) \<or> v \<in> set sv"
    using i server_ids_of_spec[of sv le "k_ServerIDs row" _ ids]
    by (auto simp: requested_servers_def requested_def split: option.splits)
  have "if ?same then key = row \<and> evo = None else key = ?key \<and> evo \<noteq> None"
    using assms rev i by (auto simp: perm_change_def samePermissionSet_iff Let_def split: if_splits)
  then show ?thesis using rev s ids by (auto split: if_splits)
qed

text \<open>The row a permission change installs, and what its callback reports on success.\<close>

definition bumped :: "time \<Rightarrow> APIKey \<Rightarrow> string list \<Rightarrow> uint list \<Rightarrow> APIKey" where
  "bumped now row sc ids = row\<lparr>k_Revision := k_Revision row + 1, k_UpdatedAt := Some now, k_Scopes := sc, k_ServerIDs := ids\<rparr>"

definition same_policy :: "APIKey \<Rightarrow> APIKey \<Rightarrow> bool" where
  "same_policy k row \<longleftrightarrow> set (k_Scopes k) = set (k_Scopes row) \<and> set (k_ServerIDs k) = set (k_ServerIDs row)"

definition as_requested :: "key_db \<Rightarrow> UpdateInput \<Rightarrow> APIKey \<Rightarrow> APIKey \<Rightarrow> bool" where
  "as_requested db inp row k \<longleftrightarrow> k_Revision row = ExpectedRevision inp \<and>
     set (k_Scopes k) = requested (in_Scopes inp) (k_Scopes row) \<and>
     set (k_ServerIDs k) = requested (in_ServerIDs inp) (k_ServerIDs row) \<and>
     (\<forall>s\<in>set (k_ServerIDs k). s \<in> set (k_ServerIDs row) \<or> s \<in> set (servers db))"

lemma bumped_fields [simp]: "k_Scopes (bumped now row sc ids) = sc" "k_ServerIDs (bumped now row sc ids) = ids"
  by (simp_all add: bumped_def)

lemma repo_UpdatePermissions_outcome:
  assumes rc: "repo_UpdatePermissions tx now change i db = (d, res)" and nk: "\<forall>row. change row \<noteq> Inl KCommitUnknown"
  shows "(\<exists>x. res = Inl x \<and> x \<noteq> KCommitUnknown \<and> d = db) \<or>
    (\<exists>row key. mget (keys db) i = Some row \<and> change row = Inr (key, None) \<and> res = Inr (key, False) \<and> d = db) \<or>
    (\<exists>row key ev ce. mget (keys db) i = Some row \<and> change row = Inr (key, Some ev) \<and>
        commit_key tx i (Some (row\<lparr>k_Revision := wrap64 (k_Revision key + 1), k_UpdatedAt := Some now,
            k_Scopes := k_Scopes key, k_ServerIDs := k_ServerIDs key\<rparr>)) [ev] db = (d, ce) \<and>
        res = (case ce of Some x \<Rightarrow> Inl x | None \<Rightarrow> Inr (key\<lparr>k_Revision := wrap64 (k_Revision key + 1), k_UpdatedAt := Some now\<rparr>, True)))"
    (is "?fail \<or> ?same \<or> ?commit")
proof (cases "begin_err tx = None \<and> read_err tx = None \<and> mget (keys db) i \<noteq> None")
  case False
  then have ?fail using rc by (auto simp: repo_UpdatePermissions_def split: option.splits)
  then show ?thesis by blast
next
  case True
  then obtain row where row: "begin_err tx = None" "read_err tx = None" "mget (keys db) i = Some row" by blast
  show ?thesis
  proof (cases "change row")
    case (Inl x)
    then have ?fail using rc row nk by (auto simp: repo_UpdatePermissions_def)
    then show ?thesis by blast
  next
    case (Inr ke)
    obtain key evo where ke: "ke = (key, evo)" by (cases ke)
    show ?thesis
    proof (cases evo)
      case None
      then have ?same using rc row Inr ke by (simp add: repo_UpdatePermissions_def)
      then show ?thesis by blast
    next
      case (Some ev)
      let ?row = "row\<lparr>k_Revision := wrap64 (k_Revision key + 1), k_UpdatedAt := Some now,
            k_Scopes := k_Scopes key, k_ServerIDs := k_ServerIDs key\<rparr>"
      show ?thesis
      proof (cases "write_err tx = None \<and> audit_err tx = None")
        case False
        then have ?fail using rc row Inr ke Some by (auto simp: repo_UpdatePermissions_def Let_def split: option.splits if_splits)
        then show ?thesis by blast
      next
        case True
        obtain ce where c: "commit_key tx i (Some ?row) [ev] db = (fst (commit_key tx i (Some ?row) [ev] db), ce)"
          by (metis prod.collapse)
        have "d = fst (commit_key tx i (Some ?row) [ev] db) \<and>
            res = (case ce of Some x \<Rightarrow> Inl x | None \<Rightarrow> Inr (key\<lparr>k_Revision := wrap64 (k_Revision key + 1), k_UpdatedAt := Some now\<rparr>, True))"
          using rc row Inr ke Some True c
          by (cases ce) (auto simp: repo_UpdatePermissions_def written_columns Let_def split: prod.splits)
        then have ?commit using row(3) Inr ke Some c by blast
        then show ?thesis by blast
      qed
    qed
  qed
qed

text \<open>The three ways the callback of a permission change can end: refused, unknown, or carried out.\<close>

definition perm_refused :: "key_db \<Rightarrow> Registry \<Rightarrow> key_db \<Rightarrow> Registry \<Rightarrow> uint list \<Rightarrow> bool \<Rightarrow> key_err gate_error option \<Rightarrow> bool" where
  "perm_refused db r db' r' hit unc e \<longleftrightarrow> (\<exists>x. e = Some (Callback x) \<and> x \<noteq> KCommitUnknown) \<and> \<not> unc \<and> db' = db \<and> r' = r \<and> hit = []"

definition perm_unknown :: "key_db \<Rightarrow> Registry \<Rightarrow> uint \<Rightarrow> time \<Rightarrow> key_db \<Rightarrow> Registry \<Rightarrow> uint list \<Rightarrow> bool \<Rightarrow> key_err gate_error option \<Rightarrow> bool" where
  "perm_unknown db r i now db' r' hit unc e \<longleftrightarrow> e = Some (Callback KCommitUnknown) \<and> unc \<and> keys db' = keys db \<and>
     audits db' = audits db \<and> mget (key_open db') i \<noteq> None \<and> MarkRevoked r i now = (r', hit)"

definition perm_kept :: "key_db \<Rightarrow> Registry \<Rightarrow> uint \<Rightarrow> UpdateInput \<Rightarrow> key_db \<Rightarrow> Registry \<Rightarrow> uint list \<Rightarrow> APIKey option \<Rightarrow> key_err gate_error option \<Rightarrow> bool" where
  "perm_kept db r i inp db' r' hit out e \<longleftrightarrow> e = None \<and> (\<exists>row. mget (keys db) i = Some row \<and> out = Some row \<and>
     as_requested db inp row row \<and> db' = db \<and> r' = r \<and> hit = [])"

definition perm_done :: "key_db \<Rightarrow> Registry \<Rightarrow> uint \<Rightarrow> UpdateInput \<Rightarrow> time \<Rightarrow> key_db \<Rightarrow> Registry \<Rightarrow> uint list \<Rightarrow> APIKey option \<Rightarrow> key_err gate_error option \<Rightarrow> bool" where
  "perm_done db r i inp now db' r' hit out e \<longleftrightarrow> e = None \<and> (\<exists>row sc ids ev. mget (keys db) i = Some row \<and>
     out = Some (bumped now row sc ids) \<and> as_requested db inp row (bumped now row sc ids) \<and> \<not> same_policy (bumped now row sc ids) row \<and>
     db' = db\<lparr>keys := mput i (bumped now row sc ids) (keys db), audits := audits db @ [ev]\<rparr> \<and> MarkRevoked r i now = (r', hit))"

lemma perm_fn_spec:
  assumes fn: "perm_fn tx (perm_change json (servers db) le p inp i) i now v (db, r, h, u) = ((db', r', hit, out), unc, e)"
    and ok: "keys_ok db"
  shows "perm_refused db r db' r' hit unc e \<or> perm_unknown db r i now db' r' hit unc e \<or>
    perm_kept db r i inp db' r' hit out e \<or> perm_done db r i inp now db' r' hit out e"
proof -
  let ?ch = "perm_change json (servers db) le p inp i"
  obtain d res where rc: "repo_UpdatePermissions tx now ?ch i db = (d, res)" by (cases "repo_UpdatePermissions tx now ?ch i db")
  have out: "db' = d" "unc = (res = Inl KCommitUnknown)" "e = (case res of Inl x \<Rightarrow> Some (Callback x) | Inr _ \<Rightarrow> None)"
    "out = (case res of Inr (k, _) \<Rightarrow> Some k | Inl _ \<Rightarrow> None)"
    "(r', hit) = revoke_if ((case res of Inr (_, c) \<Rightarrow> c | Inl _ \<Rightarrow> False) \<or> res = Inl KCommitUnknown) i now r"
    using fn rc by (auto simp: perm_fn_def Let_def split_beta)
  have nk: "\<forall>row. ?ch row \<noteq> Inl KCommitUnknown" using perm_change_bumps by (simp add: bumps_def)
  from repo_UpdatePermissions_outcome[OF rc nk] show ?thesis
  proof (elim disjE exE conjE)
    fix x assume "res = Inl x" "x \<noteq> KCommitUnknown" "d = db"
    then show ?thesis using out by (simp add: revoke_if_def perm_refused_def)
  next
    fix row key assume m: "mget (keys db) i = Some row" and c: "?ch row = Inr (key, None)" and rd: "res = Inr (key, False)" "d = db"
    have "key = row" "as_requested db inp row row" using perm_change_spec[OF c] by (auto simp: as_requested_def)
    then show ?thesis using m rd out by (simp add: revoke_if_def perm_kept_def)
  next
    fix row key ev ce
    assume m: "mget (keys db) i = Some row" and c: "?ch row = Inr (key, Some ev)"
      and ck: "commit_key tx i (Some (row\<lparr>k_Revision := wrap64 (k_Revision key + 1), k_UpdatedAt := Some now,
            k_Scopes := k_Scopes key, k_ServerIDs := k_ServerIDs key\<rparr>)) [ev] db = (d, ce)"
      and rd: "res = (case ce of Some x \<Rightarrow> Inl x | None \<Rightarrow> Inr (key\<lparr>k_Revision := wrap64 (k_Revision key + 1), k_UpdatedAt := Some now\<rparr>, True))"
    note P = perm_change_spec[OF c]
    obtain sc ids where key: "key = row\<lparr>k_Scopes := sc, k_ServerIDs := ids\<rparr>" using P by blast
    have w: "wrap64 (k_Revision row + 1) = k_Revision row + 1"
      using P keys_ok_row[OF ok m] wrap64_succ[of "k_Revision row"] by (simp add: row_ok_def)
    let ?new = "bumped now row sc ids"
    have eq: "key\<lparr>k_Revision := wrap64 (k_Revision key + 1), k_UpdatedAt := Some now\<rparr> = ?new"
      by (cases row) (use w in \<open>simp add: key bumped_def\<close>)
    have ck': "commit_key tx i (Some ?new) [ev] db = (d, ce)" using ck by (simp add: key w bumped_def)
    have req: "as_requested db inp row ?new" "\<not> same_policy ?new row"
      using P unfolding key as_requested_def same_policy_def by auto
    show ?thesis
    proof (cases ce)
      case None
      then have "d = db\<lparr>keys := mput i ?new (keys db), audits := audits db @ [ev]\<rparr>"
        using ck' by (auto simp: commit_key_def apply_row_def split: option.splits if_splits)
      moreover have "e = None" "out = Some ?new" "MarkRevoked r i now = (r', hit)"
        using None rd out unfolding eq by (simp_all add: revoke_if_def)
      ultimately have "perm_done db r i inp now db' r' hit out e"
        unfolding perm_done_def out(1) using m req by blast
      then show ?thesis by blast
    next
      case (Some x)
      then have "(x \<noteq> KCommitUnknown \<and> d = db) \<or> (x = KCommitUnknown \<and> d = db\<lparr>key_open := mput i (Some ?new, [ev]) (key_open db)\<rparr>)"
        using ck' by (auto simp: commit_key_def split: option.splits if_splits)
      then show ?thesis using Some rd out by (auto simp: revoke_if_def perm_refused_def perm_unknown_def)
    qed
  qed
qed

lemma finish_blocks:
  assumes "reg_inv (now, r)" "now \<le> t" "MarkRevoked r i now = (r1, hit)" "j \<in> set (own_sessions r i)"
  shows "sess_pred blocked j (finishPermissionChange t da r1 hit)"
proof -
  obtain s where j: "j \<in> set (live r)" "mget (heap r) j = Some s" "s_UserID s = i"
    using assms(4) by (auto simp: own_sessions_def split: option.splits)
  obtain r2 c where aw: "Await r1 t da hit = (r2, c)" by (cases "Await r1 t da hit")
  show ?thesis
    using revoke_then_await[OF assms(1,3,2) aw j] MarkRevoked_blocks[OF assms(3) j] aw
    by (auto simp: finishPermissionChange_def)
qed

text \<open>C19. A permission change does exactly what it reports. Success names the revision the caller
  expected and the requested sets, with servers the key already had or that exist; if the sets are new the
  stored row carries them with the next revision, one audit event is appended with it, and every terminal of
  the key is revoked; if they are not, nothing changes. An unknown commit is answered as unavailable with the
  terminals revoked and the gate fenced. Any other refusal, including every caller that is not an
  administrator's session, changes nothing.\<close>

theorem permission_change_outcome:
  assumes "UpdatePermissions json le env wctx tx now t da p g db r i inp = (g', db', r', res)"
    and "reach key_init key_step (g, db)" and "reach reg_init reg_step (now, r)" and "now \<le> t"
  shows "(case res of
      Inr updated \<Rightarrow> requireAPIKeyAdmin p \<and> (\<exists>row k. mget (keys db) i = Some row \<and> updated = Some k \<and> as_requested db inp row k \<and>
        (if same_policy k row then k = row \<and> db' = db \<and> r' = r
         else k = bumped now row (k_Scopes k) (k_ServerIDs k) \<and>
          (\<exists>ev. db' = db\<lparr>keys := mput i k (keys db), audits := audits db @ [ev]\<rparr>) \<and>
          (\<forall>j\<in>set (own_sessions r i). sess_pred blocked j r')))
    | Inl e \<Rightarrow> (db' = db \<and> r' = r) \<or>
        (e = KApp 503 ''unavailable'' NoParams \<and> keys db' = keys db \<and> audits db' = audits db \<and>
         mget (key_open db') i \<noteq> None \<and> fenced g' i \<and> (\<forall>j\<in>set (own_sessions r i). sess_pred blocked j r')))"
proof -
  have ok: "keys_ok db" using keysys.reach_inv[OF assms(2)] by (simp add: key_inv_def)
  have inv: "reg_inv (now, r)" using regs.reach_inv[OF assms(3)] .
  let ?fn = "perm_fn tx (perm_change json (servers db) le p inp i) i now"
  show ?thesis
  proof (cases "\<exists>x. (g', db', r', res) = (g, db, r, Inl x)")
    case True
    then show ?thesis by auto
  next
    case False
    obtain r1 hit out e where K: "key_budget env wctx g db r i ?fn = (g', (db', r1, hit, out), e)"
      and adm: "requireAPIKeyAdmin p" and r': "r' = finishPermissionChange t da r1 hit"
      and res: "res = (case e of Some x \<Rightarrow> Inl (apiKeyPolicyError x) | None \<Rightarrow> Inr out)"
      using assms(1) False by (auto simp: UpdatePermissions_def split: if_splits prod.splits)
    have U: "withUser env g (db, r, [], None) i (\<lambda>v w. if wctx then (w, False, Some CtxErr) else ?fn v w) = (g', (db', r1, hit, out), e)"
      using K by (simp add: key_budget_def UpdateWithBudget_def Update_def apiKeyMutationBudget_def second_def)
    have quiet: ?thesis if "e = Some x" "db' = db" "r1 = r" "hit = []" for x
      using that res r' by (simp add: finishPermissionChange_def)
    from withUser_outcome[OF U] consider (refused) "db' = db" "r1 = r" "hit = []" "e \<noteq> None"
      | (ran) v unc where "?fn v (db, r, [], None) = ((db', r1, hit, out), unc, e)" "fenced g' i = unc"
      by (auto split: if_splits)
    then show ?thesis
    proof cases
      case refused
      then show ?thesis using quiet by blast
    next
      case ran
      have fb: "\<forall>j\<in>set (own_sessions r i). sess_pred blocked j r'" if "MarkRevoked r i now = (r1, hit)"
        using finish_blocks[OF inv assms(4) that] r' by blast
      from perm_fn_spec[OF ran(1) ok] show ?thesis
      proof (elim disjE)
        assume "perm_refused db r db' r1 hit unc e"
        then show ?thesis using quiet unfolding perm_refused_def by blast
      next
        assume a: "perm_unknown db r i now db' r1 hit unc e"
        have "res = Inl (KApp 503 ''unavailable'' NoParams)" using a res by (simp add: perm_unknown_def apiKeyPolicyError_def)
        then show ?thesis using a fb ran(2) by (simp add: perm_unknown_def)
      next
        assume a: "perm_kept db r i inp db' r1 hit out e"
        then have "res = Inr out" "r' = r" using res r' by (auto simp: perm_kept_def finishPermissionChange_def)
        then show ?thesis using a adm by (auto simp: perm_kept_def same_policy_def)
      next
        assume a: "perm_done db r i inp now db' r1 hit out e"
        then have ro: "res = Inr out" using res by (simp add: perm_done_def)
        from a obtain row sc ids ev where d: "mget (keys db) i = Some row" "out = Some (bumped now row sc ids)"
          "as_requested db inp row (bumped now row sc ids)" "\<not> same_policy (bumped now row sc ids) row"
          "db' = db\<lparr>keys := mput i (bumped now row sc ids) (keys db), audits := audits db @ [ev]\<rparr>" "MarkRevoked r i now = (r1, hit)"
          unfolding perm_done_def by blast
        have "\<exists>ev. db' = db\<lparr>keys := mput i (bumped now row sc ids) (keys db), audits := audits db @ [ev]\<rparr>" using d(5) by blast
        then show ?thesis unfolding ro sum.case using d(1-4) fb[OF d(6)] adm by (intro conjI exI[of _ row] exI[of _ "bumped now row sc ids"]) simp_all
      qed
    qed
  qed
qed

definition demo_admin :: Principal where
  "demo_admin = no_principal\<lparr>AuthType := ''jwt'', p_Role := ''admin'', p_UserID := Some 1, p_Username := ''root''\<rparr>"

definition demo_update :: "commit_error option \<Rightarrow> gate \<times> key_db \<times> Registry \<times> (key_err + APIKey option)" where
  "demo_update ce = UpdatePermissions (\<lambda>_. 0) None (gate_env None (Some 4)) False (clean_tx\<lparr>commit_err := ce\<rparr>) 10 20 (\<lambda>_. None)
     demo_admin [] demo_keys reg_example 3 \<lparr>ExpectedRevision = 4, in_Scopes = None, in_ServerIDs = Some [9]\<rparr>"

theorem permission_change_outcome_witness:
  "(\<exists>k ev. snd (snd (snd (demo_update None))) = Inr (Some k) \<and>
      fst (snd (demo_update None)) = demo_keys\<lparr>keys := mput 3 k (keys demo_keys), audits := audits demo_keys @ [ev]\<rparr>) \<and>
   fenced (fst (demo_update (Some TransportError))) 3"
proof -
  obtain g1 db1 r1 res1 where d: "demo_update None = (g1, db1, r1, res1)" by (cases "demo_update None")
  obtain g2 db2 r2 res2 where d2: "demo_update (Some TransportError) = (g2, db2, r2, res2)" by (cases "demo_update (Some TransportError)")
  let ?k = "bumped 10 demo_key [''servers:read''] [9]"
  have "snd (snd (snd (demo_update None))) = Inr (Some ?k)" by code_simp
  then have r1: "res1 = Inr (Some ?k)" using d by simp
  have m: "mget (keys demo_keys) 3 = Some demo_key" by (simp add: demo_keys_def)
  have np: "\<not> same_policy ?k demo_key" by code_simp
  have "snd (snd (snd (demo_update (Some TransportError)))) = Inl (KApp 503 ''unavailable'' NoParams)" by code_simp
  then have r2: "res2 = Inl (KApp 503 ''unavailable'' NoParams)" using d2 by simp
  have "key_open (fst (snd (demo_update (Some TransportError)))) \<noteq> key_open demo_keys" by code_simp
  then have n2: "db2 \<noteq> demo_keys" using d2 by auto
  have "\<exists>ev. db1 = demo_keys\<lparr>keys := mput 3 ?k (keys demo_keys), audits := audits demo_keys @ [ev]\<rparr>"
    using permission_change_outcome[OF d[unfolded demo_update_def] demo_keys_reach reg_example_reach] np m r1 by auto
  moreover have "fenced g2 3"
    using permission_change_outcome[OF d2[unfolded demo_update_def] demo_keys_reach reg_example_reach] n2 r2 by simp
  ultimately show ?thesis using d d2 r1 by auto
qed

section \<open>Owner backfill\<close>

text \<open>How many pre-upgrade keys still have no owner.\<close>

definition unowned :: "key_db \<Rightarrow> nat" where
  "unowned db = length (filter (\<lambda>(i, k). legacy_unowned k) (keys db))"

lemma filter_split_length: "length (filter P xs) = length (filter (\<lambda>x. P x \<and> Q x) xs) + length (filter (\<lambda>x. P x \<and> \<not> Q x) xs)"
  by (induction xs) auto

lemma count_keys_in:
  assumes "distinct (map fst m)" "set b \<subseteq> set (map fst (filter P m))" "distinct b"
  shows "length (filter (\<lambda>e. P e \<and> fst e \<in> set b) m) = length b"
proof -
  let ?xs = "map fst (filter (\<lambda>e. P e \<and> fst e \<in> set b) m)"
  have "distinct ?xs" using assms(1) by (rule distinct_map_filter)
  moreover have "set ?xs = set b" using assms(2) by auto
  ultimately have "length ?xs = length b" using assms(3) by (metis distinct_card)
  then show ?thesis by simp
qed

lemma backfill_progress:
  assumes "mok (keys db)"
  shows "unowned (fst (BindUnownedToDefaultAdmin (Some a) locked db)) + length (backfill_batch locked db) = unowned db"
    and "snd (BindUnownedToDefaultAdmin (Some a) locked db) = length (backfill_batch locked db)"
proof -
  let ?b = "backfill_batch locked db" and ?P = "\<lambda>(i, k). legacy_unowned k"
  let ?c = "map fst (filter (\<lambda>(i, k). legacy_unowned k \<and> i \<notin> set locked) (keys db))"
  have d: "distinct (map fst (keys db))" using assms by (simp add: mok_def)
  have dc: "distinct ?c" using d by (rule distinct_map_filter)
  have b: "distinct ?b" "set ?b \<subseteq> set (map fst (filter ?P (keys db)))"
    using dc by (auto simp: backfill_batch_def dest!: in_set_takeD)
  have leg: "\<not> legacy_unowned (k\<lparr>k_UserID := Some a, k_OwnerBinding := 1\<rparr>)" for k :: APIKey
    by (simp add: legacy_unowned_def)
  note leg' = leg[unfolded One_nat_def]
  have "unowned (fst (BindUnownedToDefaultAdmin (Some a) locked db)) = length (filter (\<lambda>e. ?P e \<and> fst e \<notin> set ?b) (keys db))"
    by (simp add: unowned_def BindUnownedToDefaultAdmin_def Let_def filter_map comp_def case_prod_unfold)
      (rule arg_cong[where f = length], rule filter_cong, auto simp: leg')
  then show "unowned (fst (BindUnownedToDefaultAdmin (Some a) locked db)) + length ?b = unowned db"
    using filter_split_length[of ?P "keys db" "\<lambda>e. fst e \<in> set ?b"] count_keys_in[OF d b(2,1)] by (simp add: unowned_def)
  show "snd (BindUnownedToDefaultAdmin (Some a) locked db) = length ?b" by (simp add: BindUnownedToDefaultAdmin_def Let_def)
qed

definition owned_by :: "uint \<Rightarrow> APIKey \<Rightarrow> APIKey" where
  "owned_by a k = k\<lparr>k_UserID := Some a, k_OwnerBinding := 1\<rparr>"

definition assigns :: "uint set \<Rightarrow> key_db \<Rightarrow> key_db \<Rightarrow> bool" where
  "assigns A db db' \<longleftrightarrow> (\<forall>i. mget (keys db') i = mget (keys db) i \<or>
     (\<exists>k a. a \<in> A \<and> mget (keys db) i = Some k \<and> legacy_unowned k \<and> mget (keys db') i = Some (owned_by a k)))"

text \<open>The administrator a batch found, and a wake-up whose batches all found one, no locked row and no
  error.\<close>

fun answer_admin :: "bind_answer \<Rightarrow> uint option" where
  "answer_admin (Bound admin locked) = admin"
| "answer_admin (BindLost admin locked) = admin"
| "answer_admin BindFailed = None"

fun undisturbed :: "bind_answer \<Rightarrow> bool" where
  "undisturbed (Bound (Some a) []) = True"
| "undisturbed _ = False"

definition good_wake :: "bind_answer list \<Rightarrow> bool" where
  "good_wake ans \<longleftrightarrow> maxBatches \<le> length ans \<and> list_all undisturbed (take maxBatches ans)"

definition wake_admins :: "bind_answer list list \<Rightarrow> uint list" where
  "wake_admins wakes = List.map_filter answer_admin (concat wakes)"

lemma legacy_owned_by [simp]: "\<not> legacy_unowned (owned_by a k)"
  by (simp add: legacy_unowned_def owned_by_def)

lemma assigns_refl [simp]: "assigns A db db"
  by (simp add: assigns_def)

lemma assigns_trans: "assigns A x y \<Longrightarrow> assigns A y z \<Longrightarrow> assigns A x z"
  unfolding assigns_def by (metis legacy_owned_by option.inject)

lemma BindUnowned_assigns:
  assumes "mok (keys db)"
  shows "assigns {a} db (fst (BindUnownedToDefaultAdmin (Some a) locked db)) \<and>
    mok (keys (fst (BindUnownedToDefaultAdmin (Some a) locked db)))"
proof -
  let ?f = "\<lambda>i k. if i \<in> set (backfill_batch locked db) then owned_by a k else k"
  have k: "keys (fst (BindUnownedToDefaultAdmin (Some a) locked db)) = map (\<lambda>(i, k). (i, ?f i k)) (keys db)"
    by (auto simp: BindUnownedToDefaultAdmin_def owned_by_def Let_def)
  have leg: "legacy_unowned k" if m: "mget (keys db) i = Some k" and i: "i \<in> set (backfill_batch locked db)" for i k
  proof -
    obtain k' where "(i, k') \<in> set (keys db)" "legacy_unowned k'"
      using i by (auto simp: backfill_batch_def dest!: in_set_takeD)
    then show ?thesis using m assms by (auto simp: mok_def)
  qed
  have "mok (map (\<lambda>(i, k). (i, ?f i k)) (keys db))" using assms by (simp add: mok_def case_prod_unfold comp_def)
  moreover have "mget (map (\<lambda>(i, k). (i, ?f i k)) (keys db)) i = map_option (?f i) (mget (keys db) i)" for i
    by (rule mget_map_values)
  moreover have "map_option (?f i) x = x \<or> (\<exists>k. x = Some k \<and> legacy_unowned k \<and> map_option (?f i) x = Some (owned_by a k))"
    if "mget (keys db) i = x" for i x
    using leg[of i] that by (cases x; cases "i \<in> set (backfill_batch locked db)") simp_all
  ultimately show ?thesis unfolding assigns_def k by simp
qed

lemma batch_length: "length (backfill_batch [] db) = min OwnerBackfillBatchSize (unowned db)"
  by (simp add: backfill_batch_def unowned_def case_prod_unfold)

text \<open>One batch, whatever it meets.\<close>

lemma bind_any:
  assumes "mok (keys db)" and "set_option admin \<subseteq> A"
  shows "assigns A db (fst (BindUnownedToDefaultAdmin admin locked db))"
    "mok (keys (fst (BindUnownedToDefaultAdmin admin locked db)))"
    "unowned (fst (BindUnownedToDefaultAdmin admin locked db)) \<le> unowned db"
proof (atomize (full), cases admin)
  case None
  then show "assigns A db (fst (BindUnownedToDefaultAdmin admin locked db)) \<and>
    mok (keys (fst (BindUnownedToDefaultAdmin admin locked db))) \<and>
    unowned (fst (BindUnownedToDefaultAdmin admin locked db)) \<le> unowned db"
    using assms(1) by (simp add: BindUnownedToDefaultAdmin_def)
next
  case (Some b)
  have "assigns {b} x y \<Longrightarrow> assigns A x y" for x y
    using Some assms(2) unfolding assigns_def by fastforce
  then show "assigns A db (fst (BindUnownedToDefaultAdmin admin locked db)) \<and>
    mok (keys (fst (BindUnownedToDefaultAdmin admin locked db))) \<and>
    unowned (fst (BindUnownedToDefaultAdmin admin locked db)) \<le> unowned db"
    using Some BindUnowned_assigns[OF assms(1), of b locked] backfill_progress(1)[OF assms(1), of b locked] by auto
qed

lemma runBatch_any:
  assumes "mok (keys db)" and "\<Union>(set_option ` answer_admin ` set ans) \<subseteq> A"
  shows "assigns A db (runBatch n ans db) \<and> mok (keys (runBatch n ans db)) \<and> unowned (runBatch n ans db) \<le> unowned db"
  using assms
proof (induction n ans db rule: runBatch.induct)
  case (4 n admin locked as db)
  then show ?case using bind_any[of db admin A locked] by simp
next
  case (5 n admin locked as db)
  note b = bind_any[OF 5(2), of admin A locked]
  let ?r = "BindUnownedToDefaultAdmin admin locked db"
  have A: "set_option admin \<subseteq> A" "\<Union>(set_option ` answer_admin ` set as) \<subseteq> A" using 5(3) by auto
  show ?case
  proof (cases "snd ?r < OwnerBackfillBatchSize")
    case True
    then show ?thesis using b[OF A(1)] by (simp add: split_beta)
  next
    case False
    have "assigns A (fst ?r) (runBatch n as (fst ?r)) \<and> mok (keys (runBatch n as (fst ?r))) \<and>
      unowned (runBatch n as (fst ?r)) \<le> unowned (fst ?r)"
      using 5(1)[OF refl _ False] b(2)[OF A(1)] A(2) by (metis prod.collapse)
    then show ?thesis using b[OF A(1)] False by (auto simp: split_beta intro: assigns_trans)
  qed
qed simp_all

lemma undisturbedD: "undisturbed x \<Longrightarrow> \<exists>a. x = Bound (Some a) []"
  by (induction x rule: undisturbed.induct) simp_all

lemma runBatch_good:
  assumes "mok (keys db)" and "n \<le> length ans" and "list_all undisturbed (take n ans)"
  shows "unowned (runBatch n ans db) = unowned db - OwnerBackfillBatchSize * n"
  using assms
proof (induction n arbitrary: ans db)
  case (Suc n)
  then obtain x as where ans: "ans = x # as" by (cases ans) simp_all
  with Suc.prems(3) obtain a where x: "x = Bound (Some a) []" by (auto dest: undisturbedD)
  let ?B = "BindUnownedToDefaultAdmin (Some a) [] db"
  have u: "unowned (fst ?B) = unowned db - OwnerBackfillBatchSize" "snd ?B = min OwnerBackfillBatchSize (unowned db)"
    using backfill_progress[OF Suc.prems(1), of a "[]"] by (simp_all add: batch_length)
  have m: "mok (keys (fst ?B))" using BindUnowned_assigns[OF Suc.prems(1)] by blast
  have step: "runBatch (Suc n) ans db = (if snd ?B < OwnerBackfillBatchSize then fst ?B else runBatch n as (fst ?B))"
    by (simp add: ans x split_beta)
  show ?case
  proof (cases "snd ?B < OwnerBackfillBatchSize")
    case True
    then have "unowned db < OwnerBackfillBatchSize" using u(2) by simp
    then show ?thesis unfolding step if_P[OF True] u(1) by simp
  next
    case False
    have "unowned (runBatch n as (fst ?B)) = unowned (fst ?B) - OwnerBackfillBatchSize * n"
      using Suc.prems(2,3) by (intro Suc.IH[OF m]) (simp_all add: ans)
    then show ?thesis unfolding step if_not_P[OF False] u(1) by simp
  qed
qed simp

lemma runBatch_no_admin:
  "list_all (\<lambda>x. answer_admin x = None) ans \<Longrightarrow> runBatch n ans db = db"
  by (induction n ans db rule: runBatch.induct) (simp_all add: BindUnownedToDefaultAdmin_def OwnerBackfillBatchSize_def)

lemma set_map_filter_option: "set (List.map_filter f xs) = \<Union>(set_option ` f ` set xs)"
proof (induction xs)
  case (Cons x xs)
  then show ?case by (cases "f x") (simp_all add: List.map_filter_simps)
qed (simp add: List.map_filter_simps)

text \<open>C14. The background assignment of owners, for any sequence of wake-ups and whatever their batches
  meet. Only unowned pre-upgrade keys are touched, nothing of them but the owner changes, and the owner
  is an administrator that one of the batches found; the number of unowned keys never grows. If no batch finds
  an administrator, nothing changes. Every wake-up whose batches find an administrator, no locked row and no
  error takes 800 unowned keys away, or all of them; so once there have been \<open>n\<close> such wake-ups, with
  \<open>800 * n\<close> at least the number of unowned keys at the start, every pre-upgrade key has an owner.\<close>

theorem backfill_completes:
  assumes "mok (keys db)"
  shows "assigns (set (wake_admins wakes)) db (Run_backfill wakes db) \<and>
    (wake_admins wakes = [] \<longrightarrow> Run_backfill wakes db = db) \<and>
    unowned (Run_backfill wakes db) \<le> unowned db - 800 * length (filter good_wake wakes)"
proof -
  have A: "set (wake_admins wakes) = \<Union>(set_option ` answer_admin ` set (concat wakes))"
    unfolding wake_admins_def by (rule set_map_filter_option)
  have P: "assigns (\<Union>(set_option ` answer_admin ` set (concat wakes))) db (Run_backfill wakes db) \<and>
    unowned (Run_backfill wakes db) \<le> unowned db - 800 * length (filter good_wake wakes)"
    using assms
  proof (induction wakes arbitrary: db)
    case (Cons w ws)
    let ?A = "\<Union>(set_option ` answer_admin ` set (concat (w # ws)))" and ?d = "runBatch maxBatches w db"
    have w: "assigns ?A db ?d" "mok (keys ?d)" "unowned ?d \<le> unowned db"
      using runBatch_any[OF Cons.prems, of w ?A maxBatches] by auto
    have "assigns B x y \<Longrightarrow> B \<subseteq> ?A \<Longrightarrow> assigns ?A x y" for B x y unfolding assigns_def by (meson subsetD)
    then have "assigns ?A ?d (Run_backfill ws ?d)" using Cons.IH[OF w(2)] by auto
    moreover have "unowned ?d = unowned db - 800" if "good_wake w"
      using runBatch_good[OF Cons.prems, of maxBatches w] that
      by (simp add: good_wake_def maxBatches_def OwnerBackfillBatchSize_def)
    ultimately show ?case
      using Cons.IH[OF w(2)] w by (auto simp: Run_backfill_def intro: assigns_trans)
  qed (simp add: Run_backfill_def)
  moreover have "Run_backfill wakes db = db" if "wake_admins wakes = []"
  proof -
    have "list_all (\<lambda>x. answer_admin x = None) w" if "w \<in> set wakes" for w
      using \<open>wake_admins wakes = []\<close> that A by (fastforce simp: list_all_iff)
    then show ?thesis unfolding Run_backfill_def by (induction wakes) (simp_all add: runBatch_no_admin)
  qed
  ultimately show ?thesis unfolding A by blast
qed

theorem backfill_completes_witness:
  "let db = demo_keys\<lparr>keys := [(3, demo_key\<lparr>k_UserID := None, k_OwnerBinding := 0\<rparr>)]\<rparr> in
   unowned db = 1 \<and> Run_backfill [[Bound None []], [BindFailed]] db = db \<and>
   unowned (Run_backfill [[Bound None []], replicate 8 (Bound (Some 1) [])] db) = 0"
proof -
  let ?db = "demo_keys\<lparr>keys := [(3, demo_key\<lparr>k_UserID := None, k_OwnerBinding := 0\<rparr>)]\<rparr>"
  have m: "mok (keys ?db)" "unowned ?db = 1" by (simp_all add: mok_def unowned_def legacy_unowned_def)
  have "good_wake (replicate 8 (Bound (Some 1) []))" "\<not> good_wake [Bound None []]"
    by (simp_all add: good_wake_def maxBatches_def list_all_iff)
  then have "unowned (Run_backfill [[Bound None []], replicate 8 (Bound (Some 1) [])] ?db) = 0"
    using backfill_completes[OF m(1), of "[[Bound None []], replicate 8 (Bound (Some 1) [])]"] m(2) by simp
  moreover have "Run_backfill [[Bound None []], [BindFailed]] ?db = ?db"
    using backfill_completes[OF m(1), of "[[Bound None []], [BindFailed]]"] by (simp add: wake_admins_def List.map_filter_def)
  ultimately show ?thesis using m(2) by (simp add: Let_def)
qed

end
