(* ===== verification/Spec2Isabelle.thy ===== *)
theory Spec2Isabelle
  imports Resident_Hub Exec_Limit Monitor_Schedule Session_Gate Ssh_Pool Ssh_Lease Access_Control Rate_Limit Api_Key
    Auth_Middleware Account_Service
begin

text \<open>
  Talus manages servers over SSH. A Go backend (the Hub, \<^verbatim>\<open>src/backend\<close>) authenticates administrators
  and API keys, borrows SSH connections from a pool to run commands and terminals, schedules the
  collection of metrics, and receives samples from agents installed on the servers. This
  development models the parts of the backend that keep state under concurrency, failure or
  attack, and proves what they promise. Paths below are relative to \<^verbatim>\<open>src/backend/internal\<close>.

  \<^bold>\<open>How the code is modelled.\<close> A struct is a record, an enumeration a datatype, a Go map an association
  list whose order nothing depends on, an object shared by pointer a position in a list that only
  grows. A section under a lock is one function on the state that lock protects; what goroutines,
  the network, the database or a crash may do between two such sections is an inductive step
  relation, and the locale \<open>transition_system\<close> of \<open>Talus_Prelude\<close> lifts an invariant of one step
  to every reachable state. Times and durations are integers of nanoseconds, with the saturation
  of \<^verbatim>\<open>Time.Sub\<close> and 64-bit wrap-around written out where the code can meet them. Results of
  libraries and of the environment (database errors, commits whose outcome is unknown, hashes,
  ciphers, JSON, sorting, the file system) are arguments; what is relied on is a named predicate,
  such as \<open>runtime_ok\<close>, and every theorem with such a hypothesis has a witness that satisfies it.

  \<^bold>\<open>Theories.\<close>

  \<^item> \<open>Talus_Prelude\<close>, \<open>Go_Strings\<close>: times, maps, heaps, slot channels, transition systems; the string
    functions in use. The locales \<open>go_map\<close> and \<open>slot_channel\<close> are interpreted there on the definitions
    all components use.
  \<^item> \<open>Exec_Limit\<close> (\<^verbatim>\<open>service/execlimit.go\<close>): the capped writers of a remote command. Under every
    interleaving of the two streams the caps hold, each stream keeps a prefix and every byte is
    kept or counted.
  \<^item> \<open>Monitor_Schedule\<close> (\<^verbatim>\<open>service/monitor_schedule.go\<close>): the collection scheduler. Capacity in every
    interleaving of planning and completion, exactly which nodes a pass admits and in which order, the backoff
    within its bounds, the aligned slots, the warnings raised once, how long the loop sleeps.
  \<^item> \<open>Session_Gate\<close> (\<^verbatim>\<open>gate/gate.go\<close>, \<^verbatim>\<open>gate/registry.go\<close>): the version gate, which fences a user after
    a write of unknown outcome, and the registry of terminal sessions. Admission only at a certain
    version, revocation is final, waiting for revoked sessions is bounded.
  \<^item> \<open>Ssh_Pool\<close> (\<^verbatim>\<open>pkg/sshpool/pool.go\<close>) and \<open>Ssh_Lease\<close> (\<^verbatim>\<open>service/lease.go\<close>): the connection pool with
    every point at which an acquisition can be interrupted, and the lease above it. Slots are bounded
    and what is reported of them differs from what is held by the reports under way only, a transport
    has one owner, an invalidated lease stays invalid until its 64-bit generation comes
    round again, a lease gives its connection back once, after which one slot is free and the
    transport cached or closed as the lease's course demands.
  \<^item> \<open>Access_Control\<close> (\<^verbatim>\<open>server/middleware/scope.go\<close>, the protected table of \<^verbatim>\<open>server/router.go\<close>): every
    protected route has a scope rule that every path of it meets.
  \<^item> \<open>Rate_Limit\<close> (\<^verbatim>\<open>server/middleware/ratelimit.go\<close>): both limiters decide as the sliding window of
    the locale \<open>sliding_window\<close> does, on any run of requests.
  \<^item> \<open>Auth_Middleware\<close> (\<^verbatim>\<open>server/middleware/auth.go\<close>, \<^verbatim>\<open>pkg/token/jwt.go\<close>): what passes, what each refusal
    means. Signing and parsing of tokens are the JWT library's, and arguments.
  \<^item> \<open>Transactions\<close>, \<open>Account_Service\<close> (\<^verbatim>\<open>service/auth.go\<close>, \<^verbatim>\<open>repository/user.go\<close>): passwords and the first
    account, which is created once. The database and the gate together refine the gate's abstract system; from there
    follows that a token issued before a password change never passes again.
  \<^item> \<open>Api_Key\<close> (\<^verbatim>\<open>service/apikey*.go\<close>, \<^verbatim>\<open>repository/apikey*.go\<close>): permission changes, rotation, deletion,
    validation and the backfill of owners. A validated key is the current row; the backfill touches what it should only, and completes once it is
    undisturbed often enough.
  \<^item> \<open>Agent_Wire\<close>, \<open>Agent_Spool\<close> (\<^verbatim>\<open>agentwire/wire.go\<close>, \<^verbatim>\<open>agentclient/spool.go\<close>, the sending part of
    \<^verbatim>\<open>agentclient/client.go\<close>): the agent's messages and its outbox on disk. A crash may strike between
    any two disk actions and undo what was not synced; no sample is lost without being counted, a
    restart finds what was stored, batches are exact, the backlog drains.
  \<^item> \<open>Resident_Hub\<close> (\<^verbatim>\<open>repository/agent_node.go\<close>, \<^verbatim>\<open>service/resident_monitor.go\<close>): the Hub's tables and
    presence registry, and agent and Hub together: every sample is delivered exactly once or
    accounted for.

  \<^bold>\<open>Composition.\<close> \<open>Account_Service\<close> and \<open>Api_Key\<close> run on the gate of \<open>Session_Gate\<close> through the shared
  transaction environment of \<open>Transactions\<close>; \<open>Auth_Middleware\<close> admits tokens and keys through the same
  gate; \<open>Ssh_Lease\<close> drives \<open>Ssh_Pool\<close>; \<open>Resident_Hub\<close> drives \<open>Agent_Spool\<close> over an unreliable connection.

  \<^bold>\<open>Bounds and fuel.\<close> No definition uses fuel. The loops of the source are recursions over the list
  they traverse, or, for the aligned slots of the scheduler, a \<open>function\<close> with a measure. \<open>send_rounds\<close> and \<open>runBatch\<close> take the number of rounds
  as an argument because the code does them one per tick or up to a constant; \<open>outbox_drains\<close> and
  \<open>backfill_completes\<close> say how many suffice. The theorems on the agent's loss counter and on
  generations of connections are stated up to the wrap-around of their 64-bit counters.

  \<^bold>\<open>Two remarks on the code.\<close> The planner's rotation cursor in \<^verbatim>\<open>service/monitor_schedule.go\<close> stays 0 in
  every reachable state (\<open>plan_never_rotates\<close>): the order it means to rotate is always ascending. And
  \<^verbatim>\<open>earliestDue\<close> there passes over queued nodes, which its comment says it counts
  (\<open>earliestDue_skips_queued\<close>); its caller asks \<^verbatim>\<open>hasAdmissible\<close> first and does not depend on it.

  \<^bold>\<open>Limits of the model.\<close> The disk of the agent is that of a Unix system, where a directory can be synced.
  Messages between agent and Hub carry samples as values. The times the Hub's requests stamp may be behind
  the newest one by an hour, far more than the ten seconds a request may take. A cleanup clock that two leases
  share by pointer is copied when a primitive begins. The sizes of command output are unbounded integers.

  \<^bold>\<open>Not modelled.\<close> The HTTP handlers and the error bodies, which translate between JSON and the services;
  configuration, whose values are arguments here; the usage journal and its SQL; metrics roll-ups and
  retention, which the database computes; the deployment of agents, whose effect is that of remote scripts;
  host collection and the platform files; dialing and the SSH protocol, terminals' byte streams, SFTP and
  the service relay, which are I/O of their libraries; cryptography, an argument where it is used; schema
  migrations; the update check; the programs that connect the parts; the remaining middleware; the web
  interface. In the modelled parts, logging and telemetry are left out, and so is \<^verbatim>\<open>Statuses\<close> of the
  resident monitor, which only reports.
\<close>

end
